(* ===== verification/Prelude.thy ===== *)
theory Prelude
  imports Main "HOL-Library.Word"
begin

text \<open>
  Shared vocabulary of the development: the C integer types of \<^verbatim>\<open>types.h\<close>, the result
  type in which every kernel routine returns, its sequencing operator with the rules the
  component proofs use, and generic lemmas on lists, words and updated functions.
\<close>

unbundle bit_operations_syntax

section \<open>C types\<close>

type_synonym uint = "32 word"
type_synonym ushort = "16 word"
type_synonym uchar = "8 word"

section \<open>Results of kernel code\<close>

text \<open>
  \<open>Panic msg\<close> is a call of \<^verbatim>\<open>panic(msg)\<close>, which never returns. \<open>Wait who\<close> says that the
  thread spins or sleeps at the point named and cannot go on until another thread acts.
  \<open>Undef what\<close> is undefined behaviour of the C code (an access outside an array).
  \<open>Diverge\<close> is a loop that used up the bound on its number of rounds.
\<close>

datatype 'a res = Ok 'a | Panic string | Wait string | Undef string | Diverge

primrec bindR :: "'a res \<Rightarrow> ('a \<Rightarrow> 'b res) \<Rightarrow> 'b res" where
  "bindR (Ok x) f = f x"
| "bindR (Panic m) f = Panic m"
| "bindR (Wait m) f = Wait m"
| "bindR (Undef m) f = Undef m"
| "bindR Diverge f = Diverge"

primrec is_Ok :: "'a res \<Rightarrow> bool" where
  "is_Ok (Ok x) = True"
| "is_Ok (Panic m) = False"
| "is_Ok (Wait m) = False"
| "is_Ok (Undef m) = False"
| "is_Ok Diverge = False"

text \<open>Inversion rules for successful runs, collected as \<open>ok_iff\<close>.\<close>

named_theorems ok_iff \<open>inversion of a successful run\<close>

lemma bindR_Ok_iff [ok_iff]: "bindR m f = Ok y \<longleftrightarrow> (\<exists>x. m = Ok x \<and> f x = Ok y)"
  by (cases m) auto

lemma is_Ok_iff [ok_iff]: "is_Ok m \<longleftrightarrow> (\<exists>x. m = Ok x)"
  by (cases m) auto

lemma if_Ok_iff [ok_iff]:
  "(if b then Panic m else r) = Ok y \<longleftrightarrow> \<not> b \<and> r = Ok y"
  "(if b then r else Panic m) = Ok y \<longleftrightarrow> b \<and> r = Ok y"
  "(if b then Wait m else r) = Ok y \<longleftrightarrow> \<not> b \<and> r = Ok y"
  "(if b then Undef m else r) = Ok y \<longleftrightarrow> \<not> b \<and> r = Ok y"
  by auto

lemma bindR_cong [fundef_cong]:
  "m = m' \<Longrightarrow> (\<And>x. m' = Ok x \<Longrightarrow> f x = f' x) \<Longrightarrow> bindR m f = bindR m' f'"
  by (cases m') auto

lemma bindR_assoc: "bindR (bindR m f) g = bindR m (\<lambda>x. bindR (f x) g)"
  by (cases m) auto

lemma bindR_if: "bindR (if b then m else n) f = (if b then bindR m f else bindR n f)"
  by simp

lemma bindR_Let: "bindR (let x = v in m x) f = (let x = v in bindR (m x) f)"
  by simp

lemma bindR_case_prod: "bindR (case p of (x, y) \<Rightarrow> m x y) f = (case p of (x, y) \<Rightarrow> bindR (m x y) f)"
  by (cases p) simp

section \<open>Bits\<close>

lemma and_not_self_bits [simp]: "(x AND NOT m) AND m = (0 :: 'a :: len word)"
  by (rule bit_word_eqI) (simp add: bit_simps)

lemma or_and_self_bits [simp]: "(x OR m) AND m = (m :: 'a :: len word)"
  by (rule bit_word_eqI) (auto simp: bit_simps)

lemma and_or_split: "(x AND NOT m) OR (x AND m) = (x :: 'a :: len word)"
  by (rule bit_word_eqI) (auto simp: bit_simps)

lemma and_zero_not: "x AND m = 0 \<Longrightarrow> x AND NOT m = (x :: 'a :: len word)"
  using and_or_split [of x m] by simp

lemma and_full_restore: "x AND m = m \<Longrightarrow> (x AND NOT m) OR m = (x :: 'a :: len word)"
  using and_or_split [of x m] by simp

lemma and_single_bit: "x AND 2 ^ n \<noteq> 0 \<Longrightarrow> x AND 2 ^ n = (2 ^ n :: 'a :: len word)"
  unfolding and_exp_eq_0_iff_not_bit by (rule bit_word_eqI) (auto simp: bit_simps)

section \<open>Ring buffers\<close>

text \<open>Indices into a ring of \<open>n\<close> elements from free-running 32-bit counters, when \<open>n\<close> divides \<open>2 ^ 32\<close>.\<close>

lemma ring_index:
  assumes "n dvd 2 ^ 32" "n < 2 ^ 32"
  shows "unat ((w + of_nat i) mod of_nat n :: uint) = (unat w + i) mod n"
proof -
  have "unat ((w + of_nat i) mod of_nat n :: uint) = ((unat w + i) mod 2 ^ 32) mod n"
    using assms(2) by (simp add: unat_mod unat_word_ariths unat_of_nat mod_simps)
  also have "\<dots> = (unat w + i) mod n" by (rule mod_mod_cancel [OF assms(1)])
  finally show ?thesis .
qed

lemma ring_slots:
  assumes "i < j" "j < i + n"
  shows "(k + i) mod n \<noteq> (k + j) mod (n :: nat)"
proof
  assume "(k + i) mod n = (k + j) mod n"
  then have "n dvd (k + j) - (k + i)" using mod_eq_dvd_iff_nat [of "k + i" "k + j" n] assms by simp
  then show False using assms dvd_imp_le [of n "j - i"] by simp
qed

section \<open>Signed and unsigned readings\<close>

lemma uint_of_sint: "uint (w :: uint) = (if sint w < 0 then sint w + 2 ^ 32 else sint w)"
proof -
  have u: "uint w = sint w mod 2 ^ 32" by (simp only: uint_sint take_bit_eq_mod) simp
  have r: "- (2 ^ 31) \<le> sint w" "sint w < 2 ^ 31" using sint_ge [of w] sint_lt [of w] by simp_all
  show ?thesis
  proof (cases "sint w < 0")
    case True
    have "(sint w + 2 ^ 32) mod 2 ^ 32 = sint w + 2 ^ 32" by (rule mod_pos_pos_trivial) (use r True in auto)
    then show ?thesis using True u by simp
  next
    case False
    have "sint w mod 2 ^ 32 = sint w" by (rule mod_pos_pos_trivial) (use r False in auto)
    then show ?thesis using False u by simp
  qed
qed

end
