(* ===== verification/Param.thy ===== *)
theory Param
  imports Prelude
begin

text \<open>
  The compile-time constants of \<^verbatim>\<open>param.h\<close>, \<^verbatim>\<open>proc.h\<close>, \<^verbatim>\<open>mmu.h\<close>, \<^verbatim>\<open>memlayout.h\<close>,
  \<^verbatim>\<open>fs.h\<close> and \<^verbatim>\<open>stat.h\<close> that the components share. They are abbreviations, so that every proof
  sees the numbers the compiler sees, but for the interrupt flag, whose bit pattern the proofs hide.
\<close>

section \<open>param.h\<close>

abbreviation (input) NPROC :: nat where "NPROC \<equiv> 15000"
abbreviation (input) KSTACKSIZE :: uint where "KSTACKSIZE \<equiv> 4096"
abbreviation (input) NCPU :: nat where "NCPU \<equiv> 8"
abbreviation (input) NOFILE :: nat where "NOFILE \<equiv> 16"
abbreviation (input) NFILE :: nat where "NFILE \<equiv> 100"
abbreviation (input) NINODE :: nat where "NINODE \<equiv> 50"
abbreviation (input) NDEV :: int where "NDEV \<equiv> 10"
abbreviation (input) ROOTDEV :: uint where "ROOTDEV \<equiv> 1"
abbreviation (input) MAXARG :: nat where "MAXARG \<equiv> 32"
abbreviation (input) MAXOPBLOCKS :: nat where "MAXOPBLOCKS \<equiv> 10"
abbreviation (input) LOGSIZE :: nat where "LOGSIZE \<equiv> 30"
abbreviation (input) NBUF :: nat where "NBUF \<equiv> 30"
abbreviation (input) FSSIZE :: nat where "FSSIZE \<equiv> 1000"
abbreviation (input) BUFSIZE :: nat where "BUFSIZE \<equiv> 500"

section \<open>mmu.h and memlayout.h\<close>

definition FL_IF :: uint where "FL_IF = 0x200"


abbreviation (input) PGSIZE :: uint where "PGSIZE \<equiv> 4096"
abbreviation (input) KERNBASE :: uint where "KERNBASE \<equiv> 0x80000000"
abbreviation (input) PHYSTOP :: uint where "PHYSTOP \<equiv> 0xE000000"

end
