(* ===== verification/Spinlock.thy ===== *)
theory Spinlock
  imports Param
begin

text \<open>
  The processors and the spin locks: \<^verbatim>\<open>struct cpu\<close> (proc.h), \<^verbatim>\<open>mycpu\<close> and \<^verbatim>\<open>cpuid\<close>
  (proc.c) and all of spinlock.c. The argument \<open>a\<close> of an operation is the APIC identifier of
  the processor that executes it (what \<^verbatim>\<open>lapicid()\<close> returns there); the interrupt flag is the
  bit \<^const>\<open>FL_IF\<close> of that processor's \<open>h_eflags\<close>. Spinning on a lock that another processor
  holds is the result \<^const>\<open>Wait\<close>.
\<close>

section \<open>State\<close>

text \<open>
  A \<^verbatim>\<open>struct proc *\<close> is null, a slot of \<^verbatim>\<open>ptable.proc\<close>, or the sentinel \<^verbatim>\<open>head\<close> embedded in
  \<^verbatim>\<open>runqueue[i]\<close>.
\<close>

datatype pref = PNull | PProc nat | PHead nat

record cpu =
  c_apicid :: uchar
  c_scheduler :: uint
  c_started :: uint
  c_ncli :: int
  c_intena :: uint
  c_proc :: pref

record spinlock =
  lk_locked :: uint
  lk_name :: string
  lk_cpu :: "nat option"
  lk_pcs :: "uint list"

datatype lockid = PtableLock | RqLock nat | BufsizeLock | TicksLock | OtherLock nat

text \<open>\<open>m_kword\<close> is the kernel's stack memory by words, \<open>h_frame\<close> the address of the first
  argument of the routine a processor is in; only \<^verbatim>\<open>getcallerpcs\<close> reads them.\<close>

record hw =
  h_eflags :: uint
  h_frame :: uint

record machine =
  m_cpus :: "nat \<Rightarrow> cpu"
  m_ncpu :: nat
  m_hw :: "uchar \<Rightarrow> hw"
  m_locks :: "lockid \<Rightarrow> spinlock"
  m_kword :: "uint \<Rightarrow> uint"

section \<open>Operations\<close>

definition readeflags :: "uchar \<Rightarrow> 'z machine_scheme \<Rightarrow> uint" where
  "readeflags a s = h_eflags (m_hw s a)"

definition cli :: "uchar \<Rightarrow> 'z machine_scheme \<Rightarrow> 'z machine_scheme" where
  "cli a s = s\<lparr>m_hw := (m_hw s)(a := (m_hw s a)\<lparr>h_eflags := h_eflags (m_hw s a) AND NOT FL_IF\<rparr>)\<rparr>"

definition sti :: "uchar \<Rightarrow> 'z machine_scheme \<Rightarrow> 'z machine_scheme" where
  "sti a s = s\<lparr>m_hw := (m_hw s)(a := (m_hw s a)\<lparr>h_eflags := h_eflags (m_hw s a) OR FL_IF\<rparr>)\<rparr>"

definition upd_cpu :: "nat \<Rightarrow> (cpu \<Rightarrow> cpu) \<Rightarrow> 'z machine_scheme \<Rightarrow> 'z machine_scheme" where
  "upd_cpu c f s = s\<lparr>m_cpus := (m_cpus s)(c := f (m_cpus s c))\<rparr>"

definition upd_lock :: "lockid \<Rightarrow> (spinlock \<Rightarrow> spinlock) \<Rightarrow> 'z machine_scheme \<Rightarrow> 'z machine_scheme" where
  "upd_lock l f s = s\<lparr>m_locks := (m_locks s)(l := f (m_locks s l))\<rparr>"

text \<open>The loop of \<^verbatim>\<open>mycpu\<close> over \<^verbatim>\<open>cpus[0..ncpu)\<close>: the first entry with this APIC identifier.\<close>

definition cpu_index :: "uchar \<Rightarrow> 'z machine_scheme \<Rightarrow> nat option" where
  "cpu_index a s = List.find (\<lambda>i. c_apicid (m_cpus s i) = a) [0..<m_ncpu s]"

definition mycpu :: "uchar \<Rightarrow> 'z machine_scheme \<Rightarrow> nat res" where
  "mycpu a s =
     (if readeflags a s AND FL_IF \<noteq> 0 then Panic ''mycpu called with interrupts enabled''
      else case cpu_index a s of
             None \<Rightarrow> Panic ''unknown apicid''
           | Some i \<Rightarrow> Ok i)"

definition cpuid :: "uchar \<Rightarrow> 'z machine_scheme \<Rightarrow> nat res" where
  "cpuid a s = mycpu a s"

definition pushcli :: "uchar \<Rightarrow> 'z machine_scheme \<Rightarrow> 'z machine_scheme res" where
  "pushcli a s =
     (let eflags = readeflags a s; s = cli a s
      in bindR (mycpu a s) (\<lambda>c.
         let s = (if c_ncli (m_cpus s c) = 0
                  then upd_cpu c (\<lambda>u. u\<lparr>c_intena := eflags AND FL_IF\<rparr>) s else s)
         in Ok (upd_cpu c (\<lambda>u. u\<lparr>c_ncli := c_ncli u + 1\<rparr>) s)))"

definition popcli :: "uchar \<Rightarrow> 'z machine_scheme \<Rightarrow> 'z machine_scheme res" where
  "popcli a s =
     (if readeflags a s AND FL_IF \<noteq> 0 then Panic ''popcli - interruptible''
      else bindR (mycpu a s) (\<lambda>c.
        let s = upd_cpu c (\<lambda>u. u\<lparr>c_ncli := c_ncli u - 1\<rparr>) s
        in if c_ncli (m_cpus s c) < 0 then Panic ''popcli''
           else if c_ncli (m_cpus s c) = 0 \<and> c_intena (m_cpus s c) \<noteq> 0 then Ok (sti a s)
           else Ok s))"

definition initlock :: "lockid \<Rightarrow> string \<Rightarrow> 'z machine_scheme \<Rightarrow> 'z machine_scheme" where
  "initlock l nm s =
     upd_lock l (\<lambda>k. k\<lparr>lk_name := nm, lk_locked := 0, lk_cpu := None\<rparr>) s"

text \<open>\<open>n\<close> counts the entries of \<^verbatim>\<open>pcs[10]\<close> still to fill.\<close>

fun callerpcs_from :: "(uint \<Rightarrow> uint) \<Rightarrow> uint \<Rightarrow> nat \<Rightarrow> uint list" where
  "callerpcs_from kw ebp 0 = []"
| "callerpcs_from kw ebp (Suc n) =
     (if ebp = 0 \<or> ebp < KERNBASE \<or> ebp = 0xffffffff then replicate (Suc n) 0
      else kw (ebp + 4) # callerpcs_from kw (kw ebp) n)"

definition getcallerpcs :: "uint \<Rightarrow> 'z machine_scheme \<Rightarrow> uint list" where
  "getcallerpcs v s = callerpcs_from (m_kword s) (v - 8) 10"

definition holding :: "uchar \<Rightarrow> lockid \<Rightarrow> 'z machine_scheme \<Rightarrow> (bool \<times> 'z machine_scheme) res" where
  "holding a l s =
     bindR (pushcli a s) (\<lambda>s.
     bindR (mycpu a s) (\<lambda>c.
       let r = (lk_locked (m_locks s l) \<noteq> 0 \<and> lk_cpu (m_locks s l) = Some c)
       in bindR (popcli a s) (\<lambda>s. Ok (r, s))))"

text \<open>\<^verbatim>\<open>xchg(&lk->locked, 1)\<close> returns the old value and stores 1; the loop repeats it until the
  old value is 0, which only a release by the holder brings about.\<close>

definition acquire :: "uchar \<Rightarrow> lockid \<Rightarrow> 'z machine_scheme \<Rightarrow> 'z machine_scheme res" where
  "acquire a l s =
     bindR (pushcli a s) (\<lambda>s.
     bindR (holding a l s) (\<lambda>(h, s).
       if h then Panic ''acquire''
       else if lk_locked (m_locks s l) \<noteq> 0 then Wait ''acquire''
       else let s = upd_lock l (\<lambda>k. k\<lparr>lk_locked := 1\<rparr>) s
            in bindR (mycpu a s) (\<lambda>c.
               Ok (upd_lock l (\<lambda>k. k\<lparr>lk_cpu := Some c,
                                     lk_pcs := getcallerpcs (h_frame (m_hw s a)) s\<rparr>) s))))"

definition release :: "uchar \<Rightarrow> lockid \<Rightarrow> 'z machine_scheme \<Rightarrow> 'z machine_scheme res" where
  "release a l s =
     bindR (holding a l s) (\<lambda>(h, s).
       if \<not> h then Panic ''release''
       else let s = upd_lock l (\<lambda>k. k\<lparr>lk_pcs := (lk_pcs k)[0 := 0], lk_cpu := None\<rparr>) s;
                s = upd_lock l (\<lambda>k. k\<lparr>lk_locked := 0\<rparr>) s
            in popcli a s)"

section \<open>What the operations do\<close>

text \<open>
  \<open>cli_ok a i s\<close>: the processor with APIC identifier \<open>a\<close> is \<open>cpus[i]\<close>, its nesting depth is
  not negative, and its interrupts are off whenever the depth is positive. The effects of the
  operations from such a state are the explicit states \<open>push_st\<close>, \<open>acq_st\<close>, \<open>rel_st\<close>.
\<close>

definition cli_ok :: "uchar \<Rightarrow> nat \<Rightarrow> 'z machine_scheme \<Rightarrow> bool" where
  "cli_ok a i s \<longleftrightarrow>
     cpu_index a s = Some i \<and> 0 \<le> c_ncli (m_cpus s i) \<and>
     (0 < c_ncli (m_cpus s i) \<longrightarrow> readeflags a s AND FL_IF = 0)"

definition held_by :: "nat \<Rightarrow> lockid \<Rightarrow> 'z machine_scheme \<Rightarrow> bool" where
  "held_by i l s \<longleftrightarrow> lk_locked (m_locks s l) \<noteq> 0 \<and> lk_cpu (m_locks s l) = Some i"

definition save_st :: "uchar \<Rightarrow> nat \<Rightarrow> 'z machine_scheme \<Rightarrow> 'z machine_scheme" where
  "save_st a i s =
     upd_cpu i (\<lambda>u. u\<lparr>c_intena := (if c_ncli u = 0 then readeflags a s AND FL_IF else c_intena u)\<rparr>) s"

definition push_st :: "uchar \<Rightarrow> nat \<Rightarrow> 'z machine_scheme \<Rightarrow> 'z machine_scheme" where
  "push_st a i s = upd_cpu i (\<lambda>u. u\<lparr>c_ncli := c_ncli u + 1\<rparr>) (cli a (save_st a i s))"

definition acq_st :: "uchar \<Rightarrow> nat \<Rightarrow> lockid \<Rightarrow> 'z machine_scheme \<Rightarrow> 'z machine_scheme" where
  "acq_st a i l s =
     upd_lock l (\<lambda>k. k\<lparr>lk_locked := 1, lk_cpu := Some i,
                       lk_pcs := getcallerpcs (h_frame (m_hw s a)) s\<rparr>) (push_st a i s)"

definition pop_st :: "uchar \<Rightarrow> nat \<Rightarrow> 'z machine_scheme \<Rightarrow> 'z machine_scheme" where
  "pop_st a i s =
     (if c_ncli (m_cpus s i) = 1 \<and> c_intena (m_cpus s i) \<noteq> 0 then sti a else id)
       (upd_cpu i (\<lambda>u. u\<lparr>c_ncli := c_ncli u - 1\<rparr>) s)"

definition rel_st :: "uchar \<Rightarrow> nat \<Rightarrow> lockid \<Rightarrow> 'z machine_scheme \<Rightarrow> 'z machine_scheme" where
  "rel_st a i l s =
     pop_st a i (upd_lock l (\<lambda>k. k\<lparr>lk_locked := 0, lk_cpu := None, lk_pcs := (lk_pcs k)[0 := 0]\<rparr>) s)"

lemmas machine_defs = cli_def sti_def upd_cpu_def upd_lock_def readeflags_def

lemma cpu_index_upd [simp]:
  "cpu_index a (cli b s) = cpu_index a s"
  "cpu_index a (sti b s) = cpu_index a s"
  "cpu_index a (upd_lock l f s) = cpu_index a s"
  by (simp_all add: cpu_index_def machine_defs)

lemma cpu_index_upd_cpu [simp]:
  "(\<And>u. c_apicid (f u) = c_apicid u) \<Longrightarrow> cpu_index a (upd_cpu c f s) = cpu_index a s"
  unfolding cpu_index_def upd_cpu_def by (rule arg_cong2 [of _ _ _ _ List.find]) auto

lemma cpu_indexD:
  assumes "cpu_index a s = Some i"
  shows "i < m_ncpu s" "c_apicid (m_cpus s i) = a"
  using assms by (auto simp: cpu_index_def find_Some_iff)

lemma cpu_index_inj: "cpu_index a s = Some i \<Longrightarrow> cpu_index b s = Some i \<Longrightarrow> a = b"
  by (auto dest: cpu_indexD)

lemma if_bit_restore: "(e :: uint) AND FL_IF \<noteq> 0 \<Longrightarrow> (e AND NOT FL_IF) OR FL_IF = e"
  using and_single_bit [of e 9] by (intro and_full_restore) (simp add: FL_IF_def)

lemmas if_bit = if_bit_restore and_zero_not [of _ FL_IF]

lemma readeflags_upd [simp]:
  "readeflags a (upd_cpu c f s) = readeflags a s"
  "readeflags a (upd_lock l g s) = readeflags a s"
  "readeflags a (cli a s) = readeflags a s AND NOT FL_IF"
  "readeflags a (sti a s) = readeflags a s OR FL_IF"
  "b \<noteq> a \<Longrightarrow> readeflags b (cli a s) = readeflags b s"
  "b \<noteq> a \<Longrightarrow> readeflags b (sti a s) = readeflags b s"
  by (simp_all add: machine_defs)

lemma machine_fields [simp]:
  "m_cpus (upd_cpu c f s) = (m_cpus s)(c := f (m_cpus s c))"
  "m_cpus (cli a s) = m_cpus s" "m_cpus (sti a s) = m_cpus s" "m_cpus (upd_lock l g s) = m_cpus s"
  "m_locks (upd_cpu c f s) = m_locks s" "m_locks (cli a s) = m_locks s" "m_locks (sti a s) = m_locks s"
  "m_locks (upd_lock l g s) = (m_locks s)(l := g (m_locks s l))"
  "m_ncpu (upd_cpu c f s) = m_ncpu s" "m_ncpu (cli a s) = m_ncpu s" "m_ncpu (sti a s) = m_ncpu s"
  "m_ncpu (upd_lock l g s) = m_ncpu s"
  by (simp_all add: machine_defs)

lemma frame_upd [simp]:
  "h_frame (m_hw (upd_cpu c f s) a) = h_frame (m_hw s a)"
  "h_frame (m_hw (upd_lock l g s) a) = h_frame (m_hw s a)"
  "h_frame (m_hw (cli b s) a) = h_frame (m_hw s a)"
  "h_frame (m_hw (sti b s) a) = h_frame (m_hw s a)"
  "m_kword (upd_cpu c f s) = m_kword s" "m_kword (upd_lock l g s) = m_kword s"
  "m_kword (cli b s) = m_kword s" "m_kword (sti b s) = m_kword s"
  by (simp_all add: machine_defs)

lemma mycpu_Ok: "cpu_index a s = Some i \<Longrightarrow> readeflags a s AND FL_IF = 0 \<Longrightarrow> mycpu a s = Ok i"
  by (simp add: mycpu_def)

lemma pushcli_Ok: "cpu_index a s = Some i \<Longrightarrow> pushcli a s = Ok (push_st a i s)"
  by (simp add: pushcli_def mycpu_Ok Let_def push_st_def save_st_def) (simp add: machine_defs)

lemma popcli_Ok:
  assumes "cpu_index a s = Some i" "readeflags a s AND FL_IF = 0" "0 < c_ncli (m_cpus s i)"
  shows "popcli a s = Ok (pop_st a i s)"
  using assms by (auto simp: popcli_def mycpu_Ok pop_st_def Let_def)

lemma pop_push:
  assumes "cli_ok a i s"
  shows "pop_st a i (push_st a i s) = save_st a i s"
proof (cases "readeflags a s AND FL_IF = 0")
  case True
  then show ?thesis
    by (auto simp: pop_st_def push_st_def save_st_def machine_defs and_zero_not)
next
  case False
  with assms have "c_ncli (m_cpus s i) = 0" by (auto simp: cli_ok_def)
  with False show ?thesis
    by (cases "m_cpus s i") (auto simp: pop_st_def push_st_def save_st_def machine_defs if_bit_restore)
qed

lemma save_st_id: "0 < c_ncli (m_cpus s i) \<Longrightarrow> save_st a i s = s"
  by (simp add: save_st_def upd_cpu_def)

lemma push_st_fields [simp]:
  "m_locks (push_st a i s) = m_locks s" "m_locks (save_st a i s) = m_locks s"
  "cpu_index b (push_st a i s) = cpu_index b s" "cpu_index b (save_st a i s) = cpu_index b s"
  "readeflags a (push_st a i s) = readeflags a s AND NOT FL_IF" "readeflags b (save_st a i s) = readeflags b s"
  "c_ncli (m_cpus (push_st a i s) i) = c_ncli (m_cpus s i) + 1"
  "c_ncli (m_cpus (save_st a i s) j) = c_ncli (m_cpus s j)"
  by (simp_all add: push_st_def save_st_def)

lemma holding_Ok:
  assumes "cli_ok a i s"
  shows "holding a l s = Ok (held_by i l s, save_st a i s)"
  using assms
  by (simp add: holding_def pushcli_Ok mycpu_Ok popcli_Ok pop_push held_by_def cli_ok_def)

lemma cli_ok_push: "cli_ok a i s \<Longrightarrow> cli_ok a i (push_st a i s)"
  by (simp add: cli_ok_def)

lemma acquire_Ok:
  assumes "cli_ok a i s" "lk_locked (m_locks s l) = 0"
  shows "acquire a l s = Ok (acq_st a i l s)"
proof -
  from assms(1) have pos: "0 < c_ncli (m_cpus (push_st a i s) i)" and ix: "cpu_index a s = Some i"
    by (auto simp: cli_ok_def)
  have nh: "\<not> held_by i l (push_st a i s)"
    using assms(2) by (simp add: held_by_def)
  have gp: "getcallerpcs (h_frame (m_hw (push_st a i s) a)) (upd_lock l g (push_st a i s)) =
            getcallerpcs (h_frame (m_hw s a)) s" for g
    by (simp add: push_st_def save_st_def getcallerpcs_def)
  show ?thesis
    using assms ix
    by (simp add: acquire_def pushcli_Ok holding_Ok [OF cli_ok_push [OF assms(1)]] save_st_id [OF pos]
          nh mycpu_Ok gp Let_def acq_st_def)
       (simp add: upd_lock_def)
qed

lemma acquire_held:
  assumes "cli_ok a i s" "lk_locked (m_locks s l) \<noteq> 0"
  shows "acquire a l s = (if lk_cpu (m_locks s l) = Some i then Panic ''acquire'' else Wait ''acquire'')"
proof -
  from assms(1) have pos: "0 < c_ncli (m_cpus (push_st a i s) i)" and ix: "cpu_index a s = Some i"
    by (auto simp: cli_ok_def)
  show ?thesis
    using assms ix
    by (simp add: acquire_def pushcli_Ok holding_Ok [OF cli_ok_push [OF assms(1)]] save_st_id [OF pos] held_by_def)
qed

lemma release_Ok:
  assumes "cli_ok a i s" "0 < c_ncli (m_cpus s i)" "held_by i l s"
  shows "release a l s = Ok (rel_st a i l s)"
proof -
  let ?t = "upd_lock l (\<lambda>k. k\<lparr>lk_locked := 0\<rparr>) (upd_lock l (\<lambda>k. k\<lparr>lk_pcs := (lk_pcs k)[0 := 0], lk_cpu := None\<rparr>) s)"
  have "?t = upd_lock l (\<lambda>k. k\<lparr>lk_locked := 0, lk_cpu := None, lk_pcs := (lk_pcs k)[0 := 0]\<rparr>) s"
    by (cases "m_locks s l") (simp add: upd_lock_def)
  moreover have "popcli a ?t = Ok (pop_st a i ?t)"
    using assms by (intro popcli_Ok) (auto simp: cli_ok_def)
  ultimately show ?thesis
    using assms by (simp add: release_def holding_Ok save_st_id rel_st_def Let_def)
qed

lemma release_not_held:
  assumes "cli_ok a i s" "\<not> held_by i l s"
  shows "release a l s = Panic ''release''"
  using assms by (simp add: release_def holding_Ok)

section \<open>Critical sections\<close>

text \<open>
  Two states agree on the locks, the nesting depths and the interrupt flags; the saved flag
  \<^verbatim>\<open>intena\<close>, which has no meaning at depth 0, and the debugging fields \<^verbatim>\<open>pcs\<close> may differ.
\<close>

definition lock_eq :: "'z machine_scheme \<Rightarrow> 'z machine_scheme \<Rightarrow> bool" where
  "lock_eq s t \<longleftrightarrow>
     m_ncpu t = m_ncpu s \<and> (\<forall>b. readeflags b t = readeflags b s) \<and>
     (\<forall>j. (m_cpus t j)\<lparr>c_intena := 0\<rparr> = (m_cpus s j)\<lparr>c_intena := 0\<rparr> \<and>
          (0 < c_ncli (m_cpus s j) \<longrightarrow> c_intena (m_cpus t j) = c_intena (m_cpus s j))) \<and>
     (\<forall>l. lk_locked (m_locks t l) = lk_locked (m_locks s l) \<and> lk_cpu (m_locks t l) = lk_cpu (m_locks s l))"

lemma lock_eqI_machine:
  assumes "m_ncpu t = m_ncpu s" "m_hw t = m_hw s" "m_cpus t = m_cpus s" "m_locks t = m_locks s"
  shows "lock_eq s t"
  using assms by (simp add: lock_eq_def readeflags_def)

lemma lock_eq_cpu:
  assumes "lock_eq s t"
  shows "c_ncli (m_cpus t j) = c_ncli (m_cpus s j)" "c_apicid (m_cpus t j) = c_apicid (m_cpus s j)"
    "c_proc (m_cpus t j) = c_proc (m_cpus s j)"
proof -
  have "(m_cpus t j)\<lparr>c_intena := 0\<rparr> = (m_cpus s j)\<lparr>c_intena := 0\<rparr>"
    using assms by (simp add: lock_eq_def)
  then show "c_ncli (m_cpus t j) = c_ncli (m_cpus s j)" "c_apicid (m_cpus t j) = c_apicid (m_cpus s j)"
    "c_proc (m_cpus t j) = c_proc (m_cpus s j)"
    by (cases "m_cpus t j"; cases "m_cpus s j"; simp)+
qed

lemma lock_eq_refl [simp]: "lock_eq s s"
  by (simp add: lock_eq_def)

lemma lock_eq_trans: "lock_eq s t \<Longrightarrow> lock_eq t u \<Longrightarrow> lock_eq s u"
  using lock_eq_cpu(1) [of s t] by (auto simp: lock_eq_def)

lemma lock_eq_index: "lock_eq s t \<Longrightarrow> cpu_index a t = cpu_index a s"
  by (simp add: cpu_index_def lock_eq_cpu) (simp add: lock_eq_def)

lemma lock_eq_cli_ok: "lock_eq s t \<Longrightarrow> cli_ok a i t = cli_ok a i s"
  by (simp add: cli_ok_def lock_eq_index lock_eq_cpu) (simp add: lock_eq_def)

lemma lock_eq_held: "lock_eq s t \<Longrightarrow> held_by i l t = held_by i l s"
  by (simp add: held_by_def lock_eq_def)

lemma lock_eq_free: "lock_eq s t \<Longrightarrow> lk_locked (m_locks t l) = lk_locked (m_locks s l)"
  by (simp add: lock_eq_def)

lemma critical_section:
  assumes ok: "cli_ok a i s" and free: "lk_locked (m_locks s l) = 0" "lk_cpu (m_locks s l) = None"
    and eq: "lock_eq (acq_st a i l s) t"
  shows "release a l t = Ok (rel_st a i l t)" "lock_eq s (rel_st a i l t)"
proof -
  let ?u = "acq_st a i l s"
  have hu: "held_by i l ?u" "cli_ok a i ?u" "0 < c_ncli (m_cpus ?u i)"
    using ok by (auto simp: held_by_def acq_st_def cli_ok_def)
  have ht: "held_by i l t" "cli_ok a i t" "c_ncli (m_cpus t i) = c_ncli (m_cpus s i) + 1"
    using hu eq by (auto simp: lock_eq_held lock_eq_cli_ok lock_eq_cpu) (auto simp: acq_st_def)
  with ok show "release a l t = Ok (rel_st a i l t)"
    by (intro release_Ok) (auto simp: cli_ok_def)
  have ie: "c_intena (m_cpus t i) = (if c_ncli (m_cpus s i) = 0 then readeflags a s AND FL_IF else c_intena (m_cpus s i))"
    using eq hu(3) by (auto simp: lock_eq_def acq_st_def push_st_def save_st_def)
  have ft: "readeflags a t = readeflags a s AND NOT FL_IF" "\<And>b. b \<noteq> a \<Longrightarrow> readeflags b t = readeflags b s"
    using eq by (auto simp: lock_eq_def acq_st_def push_st_def save_st_def)
  have fa: "readeflags a (rel_st a i l t) = readeflags a s"
  proof (cases "readeflags a s AND FL_IF = 0")
    case True
    with ft ie ok ht show ?thesis
      by (auto simp: rel_st_def pop_st_def and_zero_not cli_ok_def)
  next
    case False
    then have "c_ncli (m_cpus s i) = 0" using ok by (auto simp: cli_ok_def)
    with False ft ie ht show ?thesis
      by (auto simp: rel_st_def pop_st_def if_bit_restore)
  qed
  moreover have "readeflags b (rel_st a i l t) = readeflags b s" if "b \<noteq> a" for b
    using that ft by (auto simp: rel_st_def pop_st_def)
  moreover have "lk_locked (m_locks (rel_st a i l t) k) = lk_locked (m_locks s k) \<and>
                 lk_cpu (m_locks (rel_st a i l t) k) = lk_cpu (m_locks s k)" for k
    using eq free by (auto simp: lock_eq_def acq_st_def rel_st_def pop_st_def push_st_def save_st_def)
  moreover have "m_ncpu (rel_st a i l t) = m_ncpu s"
    using eq by (auto simp: lock_eq_def acq_st_def rel_st_def pop_st_def push_st_def save_st_def)
  moreover have "(m_cpus (rel_st a i l t) j)\<lparr>c_intena := 0\<rparr> = (m_cpus s j)\<lparr>c_intena := 0\<rparr> \<and>
      (0 < c_ncli (m_cpus s j) \<longrightarrow> c_intena (m_cpus (rel_st a i l t) j) = c_intena (m_cpus s j))" for j
  proof (cases "j = i")
    case True
    have "(m_cpus t i)\<lparr>c_intena := 0\<rparr> = (m_cpus s i)\<lparr>c_intena := 0, c_ncli := c_ncli (m_cpus s i) + 1\<rparr>"
      using eq by (cases "m_cpus s i") (simp add: lock_eq_def acq_st_def push_st_def save_st_def)
    with True ie show ?thesis
      by (cases "m_cpus s i"; cases "m_cpus t i") (auto simp: rel_st_def pop_st_def)
  next
    case False
    then show ?thesis
      using eq by (auto simp: lock_eq_def acq_st_def push_st_def save_st_def rel_st_def pop_st_def)
  qed
  ultimately show "lock_eq s (rel_st a i l t)"
    unfolding lock_eq_def by metis
qed

section \<open>Nesting of pushcli and popcli\<close>

primrec repeatR :: "nat \<Rightarrow> ('s \<Rightarrow> 's res) \<Rightarrow> 's \<Rightarrow> 's res" where
  "repeatR 0 f s = Ok s"
| "repeatR (Suc n) f s = bindR (f s) (repeatR n f)"

lemma repeatR_snoc: "repeatR (Suc n) f s = bindR (repeatR n f s) f"
proof (induction n arbitrary: s)
  case 0
  then show ?case by (cases "f s") auto
next
  case (Suc n)
  then show ?case by (cases "f s") auto
qed

lemma push_pop_run:
  assumes "cli_ok a i s"
  shows "\<exists>t. repeatR n (pushcli a) s = Ok t \<and>
             repeatR n (popcli a) t = Ok (if n = 0 then s else save_st a i s)"
  using assms
proof (induction n arbitrary: s)
  case 0
  then show ?case by simp
next
  case (Suc n)
  let ?p = "push_st a i s"
  from Suc.prems have ix: "cpu_index a s = Some i" and pos: "0 < c_ncli (m_cpus ?p i)"
    by (auto simp: cli_ok_def)
  obtain t where t: "repeatR n (pushcli a) ?p = Ok t" "repeatR n (popcli a) t = Ok ?p"
    using Suc.IH [OF cli_ok_push [OF Suc.prems]] save_st_id [OF pos] by auto
  have "repeatR (Suc n) (popcli a) t = Ok (save_st a i s)"
    using t(2) ix pos by (simp add: repeatR_snoc popcli_Ok pop_push [OF Suc.prems] del: repeatR.simps(2))
  with t(1) ix show ?case
    by (auto simp: pushcli_Ok)
qed

section \<open>Processors taking locks in any order\<close>

text \<open>
  All interleavings: any processor may acquire or release any lock, call \<^verbatim>\<open>pushcli\<close> and
  \<^verbatim>\<open>popcli\<close>, or enable interrupts when its depth is 0 (the \<^verbatim>\<open>sti()\<close> of the scheduler loop). The
  second component counts, for each processor, its calls of \<^verbatim>\<open>pushcli\<close> that are still
  to be matched; code calls \<^verbatim>\<open>popcli\<close> only for one of them.
\<close>

inductive lock_step :: "machine \<times> (uchar \<Rightarrow> nat) \<Rightarrow> machine \<times> (uchar \<Rightarrow> nat) \<Rightarrow> bool" where
  ls_acquire: "acquire a l m = Ok m' \<Longrightarrow> lock_step (m, d) (m', d)"
| ls_release: "release a l m = Ok m' \<Longrightarrow> lock_step (m, d) (m', d)"
| ls_push: "pushcli a m = Ok m' \<Longrightarrow> lock_step (m, d) (m', d(a := Suc (d a)))"
| ls_pop: "0 < d a \<Longrightarrow> popcli a m = Ok m' \<Longrightarrow> lock_step (m, d) (m', d(a := d a - 1))"
| ls_sti: "cpu_index a m = Some i \<Longrightarrow> c_ncli (m_cpus m i) = 0 \<Longrightarrow> lock_step (m, d) (sti a m, d)"

definition boot_locks :: "machine \<Rightarrow> bool" where
  "boot_locks m \<longleftrightarrow>
     (\<forall>l. lk_locked (m_locks m l) = 0 \<and> lk_cpu (m_locks m l) = None) \<and>
     (\<forall>i. c_ncli (m_cpus m i) = 0)"

inductive lock_reach :: "machine \<times> (uchar \<Rightarrow> nat) \<Rightarrow> bool" where
  lr_boot: "boot_locks m \<Longrightarrow> lock_reach (m, \<lambda>_. 0)"
| lr_step: "lock_reach s \<Longrightarrow> lock_step s t \<Longrightarrow> lock_reach t"

definition held_locks :: "nat \<Rightarrow> 'z machine_scheme \<Rightarrow> lockid set" where
  "held_locks i m = {l. held_by i l m}"

definition lock_inv :: "machine \<times> (uchar \<Rightarrow> nat) \<Rightarrow> bool" where
  "lock_inv = (\<lambda>(m, d).
     (\<forall>l. lk_locked (m_locks m l) = 0 \<longleftrightarrow> lk_cpu (m_locks m l) = None) \<and>
     (\<forall>a i. cpu_index a m = Some i \<longrightarrow>
        finite (held_locks i m) \<and>
        c_ncli (m_cpus m i) = int (d a) + int (card (held_locks i m)) \<and>
        cli_ok a i m))"

lemma lock_inv_cli_ok: "lock_inv (m, d) \<Longrightarrow> cpu_index a m = Some i \<Longrightarrow> cli_ok a i m"
  by (auto simp: lock_inv_def)

lemma no_cpu_panics:
  assumes "cpu_index a s = None"
  shows "pushcli a s \<noteq> Ok t" "acquire a l s \<noteq> Ok t" "release a l s \<noteq> Ok t" "popcli a s \<noteq> Ok t"
  using assms by (auto simp: pushcli_def acquire_def release_def holding_def popcli_def mycpu_def Let_def)

lemma OkD_cpu:
  "pushcli a s = Ok t \<Longrightarrow> \<exists>i. cpu_index a s = Some i"
  "acquire a l s = Ok t \<Longrightarrow> \<exists>i. cpu_index a s = Some i"
  "release a l s = Ok t \<Longrightarrow> \<exists>i. cpu_index a s = Some i"
  "popcli a s = Ok t \<Longrightarrow> \<exists>i. cpu_index a s = Some i"
  using no_cpu_panics [of a s] by (cases "cpu_index a s"; auto)+

lemma acquire_OkD:
  assumes "cli_ok a i s" "acquire a l s = Ok t"
  shows "lk_locked (m_locks s l) = 0" "t = acq_st a i l s"
  using assms acquire_Ok acquire_held by (metis res.distinct(1) res.distinct(3) res.inject(1))+

lemma release_OkD:
  assumes "cli_ok a i s" "0 < c_ncli (m_cpus s i)" "release a l s = Ok t"
  shows "held_by i l s" "t = rel_st a i l s"
  using assms release_Ok release_not_held by (metis res.distinct(1) res.inject(1))+

text \<open>An operation executed on one processor leaves the others' records and flags alone.\<close>

definition only_cpu :: "uchar \<Rightarrow> nat \<Rightarrow> 'z machine_scheme \<Rightarrow> 'z machine_scheme \<Rightarrow> bool" where
  "only_cpu a i m t \<longleftrightarrow>
     (\<forall>b. cpu_index b t = cpu_index b m) \<and> (\<forall>j. j \<noteq> i \<longrightarrow> m_cpus t j = m_cpus m j) \<and>
     (\<forall>b. b \<noteq> a \<longrightarrow> readeflags b t = readeflags b m)"

lemma only_cpu_ops:
  "only_cpu a i m (push_st a i m)" "only_cpu a i m (acq_st a i l m)"
  "only_cpu a i m (pop_st a i m)" "only_cpu a i m (rel_st a i l m)" "only_cpu a i m (sti a m)" "only_cpu a i m (cli a m)"
  by (auto simp: only_cpu_def push_st_def acq_st_def pop_st_def rel_st_def save_st_def)

lemma lock_inv_onlyI:
  assumes inv: "lock_inv (m, d)" and ix: "cpu_index a m = Some i" and oc: "only_cpu a i m t"
    and locks: "\<And>l. lk_locked (m_locks t l) = 0 \<longleftrightarrow> lk_cpu (m_locks t l) = None"
    and others: "\<And>j. j \<noteq> i \<Longrightarrow> held_locks j t = held_locks j m"
    and mine: "finite (held_locks i t)"
      "c_ncli (m_cpus t i) = int (d' a) + int (card (held_locks i t))" "cli_ok a i t"
    and d': "\<And>b. b \<noteq> a \<Longrightarrow> d' b = d b"
  shows "lock_inv (t, d')"
proof -
  have "finite (held_locks j t) \<and> c_ncli (m_cpus t j) = int (d' b) + int (card (held_locks j t)) \<and> cli_ok b j t"
    if "cpu_index b t = Some j" for b j
  proof (cases "b = a")
    case True
    with that oc ix have "j = i" by (auto simp: only_cpu_def)
    with True mine show ?thesis by simp
  next
    case False
    from that oc have jm: "cpu_index b m = Some j" by (auto simp: only_cpu_def)
    with False ix have "j \<noteq> i" by (auto dest: cpu_index_inj)
    with jm inv False oc others d' show ?thesis
      by (auto simp: lock_inv_def only_cpu_def cli_ok_def)
  qed
  with locks show ?thesis by (simp add: lock_inv_def)
qed

lemma held_acq:
  assumes "lk_locked (m_locks m l) = 0"
  shows "held_locks j (acq_st a i l m) = (if j = i then insert l (held_locks i m) else held_locks j m)"
  using assms by (auto simp: held_locks_def held_by_def acq_st_def)

lemma held_pop: "held_by j l (pop_st a i m) = held_by j l m"
  by (auto simp: held_by_def pop_st_def)

lemma held_rel:
  assumes "held_by i l m"
  shows "held_locks j (rel_st a i l m) = (if j = i then held_locks i m - {l} else held_locks j m)"
  using assms by (auto simp: held_locks_def held_by_def rel_st_def pop_st_def)

lemma cli_ok_pop:
  assumes "cli_ok a i m" "0 < c_ncli (m_cpus m i)"
  shows "cli_ok a i (pop_st a i m)"
  using assms by (auto simp: cli_ok_def pop_st_def)

lemma c_ncli_ops:
  "c_ncli (m_cpus (acq_st a i l m) i) = c_ncli (m_cpus m i) + 1"
  "c_ncli (m_cpus (pop_st a i m) i) = c_ncli (m_cpus m i) - 1"
  "c_ncli (m_cpus (rel_st a i l m) i) = c_ncli (m_cpus m i) - 1"
  by (auto simp: acq_st_def pop_st_def rel_st_def)

lemma m_locks_ops:
  "m_locks (acq_st a i l m) =
     (m_locks m)(l := (m_locks m l)\<lparr>lk_locked := 1, lk_cpu := Some i,
                        lk_pcs := getcallerpcs (h_frame (m_hw m a)) m\<rparr>)"
  "m_locks (pop_st a i m) = m_locks m"
  "m_locks (rel_st a i l m) =
     (m_locks m)(l := (m_locks m l)\<lparr>lk_locked := 0, lk_cpu := None, lk_pcs := (lk_pcs (m_locks m l))[0 := 0]\<rparr>)"
  by (auto simp: acq_st_def pop_st_def rel_st_def)

lemma cli_ok_acq: "cli_ok a i m \<Longrightarrow> cli_ok a i (acq_st a i l m)"
  by (simp add: cli_ok_def acq_st_def)

lemma lock_inv_acquire:
  assumes inv: "lock_inv (m, d)" and acq: "acquire a l m = Ok t"
  shows "lock_inv (t, d)"
proof -
  obtain i where ix: "cpu_index a m = Some i" using acq by (blast dest: OkD_cpu)
  have ok: "cli_ok a i m" using inv ix by (rule lock_inv_cli_ok)
  note free = acquire_OkD [OF ok acq]
  have fresh: "l \<notin> held_locks i m" using free(1) by (simp add: held_locks_def held_by_def)
  show ?thesis
    unfolding free(2)
    using inv ix fresh ok
    by (intro lock_inv_onlyI [OF inv ix only_cpu_ops(2)])
       (auto simp: held_acq [OF free(1)] c_ncli_ops m_locks_ops cli_ok_acq lock_inv_def)
qed

lemma lock_inv_release:
  assumes inv: "lock_inv (m, d)" and rel: "release a l m = Ok t"
  shows "lock_inv (t, d)"
proof -
  obtain i where ix: "cpu_index a m = Some i" using rel by (blast dest: OkD_cpu)
  have ok: "cli_ok a i m" using inv ix by (rule lock_inv_cli_ok)
  have held: "held_by i l m" using ok rel release_not_held by fastforce
  then have "l \<in> held_locks i m" by (simp add: held_locks_def)
  moreover have cnt: "finite (held_locks i m)" "c_ncli (m_cpus m i) = int (d a) + int (card (held_locks i m))"
    using inv ix by (auto simp: lock_inv_def)
  ultimately have pos: "0 < c_ncli (m_cpus m i)" and card: "card (held_locks i m) = Suc (card (held_locks i m - {l}))"
    using card_gt_0_iff [of "held_locks i m"] by (auto simp: card_Suc_Diff1)
  have ok': "cli_ok a i (rel_st a i l m)"
    unfolding rel_st_def using ok pos by (intro cli_ok_pop) (auto simp: cli_ok_def)
  show ?thesis
    unfolding release_OkD(2) [OF ok pos rel]
    using inv cnt card ok'
    by (intro lock_inv_onlyI [OF inv ix only_cpu_ops(4)])
       (auto simp: held_rel [OF held] c_ncli_ops m_locks_ops lock_inv_def)
qed

lemma lock_inv_boot: "boot_locks m \<Longrightarrow> lock_inv (m, \<lambda>_. 0)"
  by (auto simp: boot_locks_def lock_inv_def held_locks_def held_by_def cli_ok_def)

lemma lock_inv_step:
  assumes "lock_step s t" "lock_inv s"
  shows "lock_inv t"
  using assms
proof (induction rule: lock_step.induct)
  case (ls_acquire a l m m' d)
  then show ?case by (blast intro: lock_inv_acquire)
next
  case (ls_release a l m m' d)
  then show ?case by (blast intro: lock_inv_release)
next
  case (ls_push a m m' d)
  then obtain i where ix: "cpu_index a m = Some i" by (blast dest: OkD_cpu)
  with ls_push have m': "m' = push_st a i m" by (simp add: pushcli_Ok)
  show ?case
    unfolding m' using ls_push(2) ix
    by (intro lock_inv_onlyI [OF ls_push(2) ix only_cpu_ops(1)])
       (auto simp: lock_inv_def held_locks_def held_by_def cli_ok_push)
next
  case (ls_pop d a m m')
  then obtain i where ix: "cpu_index a m = Some i" by (blast dest: OkD_cpu)
  have ok: "cli_ok a i m" using ls_pop(3) ix by (rule lock_inv_cli_ok)
  have cnt: "finite (held_locks i m)" "c_ncli (m_cpus m i) = int (d a) + int (card (held_locks i m))"
    using ls_pop(3) ix by (auto simp: lock_inv_def)
  with ls_pop(1) have pos: "0 < c_ncli (m_cpus m i)" by simp
  have m': "m' = pop_st a i m"
    using ls_pop(2) ok pos by (auto simp: popcli_Ok cli_ok_def)
  show ?case
    unfolding m' using ls_pop(1,3) cnt ok pos
    by (intro lock_inv_onlyI [OF ls_pop(3) ix only_cpu_ops(3)])
       (auto simp: lock_inv_def held_locks_def held_pop c_ncli_ops cli_ok_pop of_nat_diff, auto simp: pop_st_def)
next
  case (ls_sti a m i d)
  then show ?case
    by (intro lock_inv_onlyI [OF ls_sti(3,1) only_cpu_ops(5)])
       (auto simp: lock_inv_def held_locks_def held_by_def cli_ok_def)
qed

lemma lock_reach_inv: "lock_reach s \<Longrightarrow> lock_inv s"
  by (induction rule: lock_reach.induct) (auto intro: lock_inv_boot lock_inv_step)

section \<open>Properties\<close>

text \<open>The machine after \<^verbatim>\<open>mpinit\<close> has found \<open>n\<close> processors: memory is zero but for
  \<^verbatim>\<open>ncpu\<close> and the APIC identifiers; interrupts are on.\<close>

definition bss_cpu :: "nat \<Rightarrow> cpu" where
  "bss_cpu i = \<lparr>c_apicid = of_nat i, c_scheduler = 0, c_started = 0, c_ncli = 0, c_intena = 0, c_proc = PNull\<rparr>"

definition bss_lock :: "lockid \<Rightarrow> spinlock" where
  "bss_lock l = \<lparr>lk_locked = 0, lk_name = [], lk_cpu = None, lk_pcs = replicate 10 0\<rparr>"

definition bss_hw :: "uchar \<Rightarrow> hw" where
  "bss_hw a = \<lparr>h_eflags = FL_IF, h_frame = 0\<rparr>"

definition bss_machine :: "nat \<Rightarrow> machine" where
  "bss_machine n = \<lparr>m_cpus = bss_cpu, m_ncpu = n, m_hw = bss_hw, m_locks = bss_lock, m_kword = (\<lambda>_. 0)\<rparr>"

lemma boot_locks_bss: "boot_locks (bss_machine n)"
  by (simp add: boot_locks_def bss_machine_def bss_lock_def bss_cpu_def)

lemma cpu_index_bss2: "cpu_index 0 (bss_machine 2) = Some 0" "cpu_index 1 (bss_machine 2) = Some 1"
  by (simp_all add: cpu_index_def bss_machine_def bss_cpu_def upt_conv_Cons)

lemma cli_ok_bss2: "cli_ok 0 0 (bss_machine 2)" "cli_ok 1 1 (bss_machine 2)"
  by (simp_all add: cli_ok_def cpu_index_bss2) (simp_all add: bss_machine_def bss_cpu_def)

text \<open>
  C3: In every state the processors can reach by taking and releasing spin locks and by
  \<^verbatim>\<open>pushcli\<close> and \<^verbatim>\<open>popcli\<close>, the holder of a lock runs with interrupts off, no other processor
  holds the lock, and no \<^verbatim>\<open>acquire\<close> of it by any processor succeeds.
\<close>

theorem lock_mutual_exclusion:
  assumes "lock_reach (m, d)" "cpu_index a m = Some i" "held_by i l m"
  shows "readeflags a m AND FL_IF = 0 \<and> (\<forall>j. held_by j l m \<longrightarrow> j = i) \<and> (\<forall>b t. acquire b l m \<noteq> Ok t)"
proof -
  have inv: "lock_inv (m, d)" using assms(1) by (rule lock_reach_inv)
  have "l \<in> held_locks i m" "finite (held_locks i m)"
    using assms inv by (auto simp: held_locks_def lock_inv_def)
  then have "0 < card (held_locks i m)" by (auto simp: card_gt_0_iff)
  then have "0 < c_ncli (m_cpus m i)" "cli_ok a i m" using inv assms(2) by (auto simp: lock_inv_def)
  then have "readeflags a m AND FL_IF = 0" by (simp add: cli_ok_def)
  moreover have "acquire b l m \<noteq> Ok t" for b t
  proof (cases "cpu_index b m")
    case None
    then show ?thesis by (rule no_cpu_panics(2))
  next
    case (Some k)
    then show ?thesis
      using acquire_held [OF lock_inv_cli_ok [OF inv Some], of l] assms(3) by (auto simp: held_by_def)
  qed
  ultimately show ?thesis using assms(3) by (auto simp: held_by_def)
qed

theorem lock_mutual_exclusion_witness:
  "readeflags 1 (acq_st 1 1 TicksLock (bss_machine 2)) AND FL_IF = 0 \<and>
   (\<forall>t. acquire 0 TicksLock (acq_st 1 1 TicksLock (bss_machine 2)) \<noteq> Ok t)"
proof -
  have "acquire 1 TicksLock (bss_machine 2) = Ok (acq_st 1 1 TicksLock (bss_machine 2))"
    using cli_ok_bss2 by (intro acquire_Ok) (simp_all add: bss_machine_def bss_lock_def)
  then have "lock_reach (acq_st 1 1 TicksLock (bss_machine 2), \<lambda>_. 0)"
    by (blast intro: lr_boot lr_step ls_acquire boot_locks_bss)
  moreover have "cpu_index 1 (acq_st 1 1 TicksLock (bss_machine 2)) = Some 1"
    using cli_ok_acq [OF cli_ok_bss2(2)] by (simp add: cli_ok_def)
  moreover have "held_by 1 TicksLock (acq_st 1 1 TicksLock (bss_machine 2))"
    by (simp add: held_by_def m_locks_ops)
  ultimately show ?thesis using lock_mutual_exclusion by blast
qed

text \<open>
  C23: \<^verbatim>\<open>acquire\<close> succeeds exactly when the lock is free, panics exactly when this processor
  already holds it, and otherwise spins; \<^verbatim>\<open>release\<close> right after a successful \<^verbatim>\<open>acquire\<close> succeeds
  and gives back the locks, the nesting depth and the interrupt flag as they were.
\<close>

theorem acquire_release_cycle:
  assumes "cli_ok a i s" "lk_locked (m_locks s l) = 0 \<longleftrightarrow> lk_cpu (m_locks s l) = None"
  shows "(if lk_locked (m_locks s l) = 0
          then \<exists>t u. acquire a l s = Ok t \<and> held_by i l t \<and> readeflags a t AND FL_IF = 0 \<and>
                     release a l t = Ok u \<and> lock_eq s u
          else if lk_cpu (m_locks s l) = Some i then acquire a l s = Panic ''acquire''
          else acquire a l s = Wait ''acquire'')"
proof (cases "lk_locked (m_locks s l) = 0")
  case True
  let ?t = "acq_st a i l s"
  have ok: "cli_ok a i ?t" using assms(1) by (rule cli_ok_acq)
  moreover have "0 < c_ncli (m_cpus ?t i)" using assms(1) by (simp add: cli_ok_def acq_st_def)
  ultimately have "readeflags a ?t AND FL_IF = 0" by (simp add: cli_ok_def)
  moreover have "held_by i l ?t" by (simp add: held_by_def m_locks_ops)
  moreover have "release a l ?t = Ok (rel_st a i l ?t)" "lock_eq s (rel_st a i l ?t)"
    using critical_section [OF assms(1) True] assms(2) True by auto
  ultimately show ?thesis using True acquire_Ok [OF assms(1) True] by auto
qed (use acquire_held [OF assms(1)] in auto)

theorem acquire_release_cycle_witness:
  "\<exists>t u. acquire 0 PtableLock (bss_machine 2) = Ok t \<and> held_by 0 PtableLock t \<and>
     readeflags 0 t AND FL_IF = 0 \<and> release 0 PtableLock t = Ok u \<and> lock_eq (bss_machine 2) u"
  using acquire_release_cycle [OF cli_ok_bss2(1), of PtableLock] by (simp add: bss_machine_def bss_lock_def)

text \<open>
  C31: \<^verbatim>\<open>pushcli\<close> and \<^verbatim>\<open>popcli\<close> nest: after \<open>n\<close> of the one and \<open>n\<close> of the other the interrupt
  flag, the depth and the locks are those from before, whether interrupts were on or off.
\<close>

theorem pushcli_popcli_nest:
  assumes "cli_ok a i s"
  shows "\<exists>t u. repeatR n (pushcli a) s = Ok t \<and> repeatR n (popcli a) t = Ok u \<and> lock_eq s u"
proof -
  have "lock_eq s (save_st a i s)"
    by (auto simp: lock_eq_def save_st_def machine_defs readeflags_def)
  then show ?thesis using push_pop_run [OF assms, of n] by (cases "n = 0") auto
qed

theorem pushcli_popcli_nest_witness:
  "\<exists>t u. repeatR 3 (pushcli 1) (bss_machine 2) = Ok t \<and> repeatR 3 (popcli 1) t = Ok u \<and> lock_eq (bss_machine 2) u"
  by (rule pushcli_popcli_nest [OF cli_ok_bss2(2)])

end
