(* ===== verification/ProcState.thy ===== *)
theory ProcState
  imports Spinlock
begin

text \<open>
  The data of proc.h and the global variables of proc.c: the process table, the per-processor run
  queues, the scheduling log. \<^verbatim>\<open>IS_MULTIPLE_RUNQUEUE\<close> is the field \<open>k_mrq\<close>, so that both
  configurations of the kernel (\<^verbatim>\<open>IS_ROUNDROBIN\<close> is its negation: "you can enable only one of
  them") are covered; proc.h ships it as 0.
\<close>

datatype procstate = UNUSED | EMBRYO | SLEEPING | RUNNABLE | RUNNING | ZOMBIE | ACQUIRED | RELEASED

datatype events =
  ALLOCPROC | WAKEUP | YIELD | FORK | TICK | EXIT | WAIT | SLEEP | PTABLE_LOCK | RUNQUEUE_LOCK

text \<open>A sleep channel is the address of a kernel object: null, a process (\<^verbatim>\<open>wait\<close> sleeps on the
  caller's own \<^verbatim>\<open>struct proc\<close>), a buffer or its sleep lock, an inode's sleep lock, the log, the two
  counters of a pipe, \<^verbatim>\<open>ticks\<close>, the console's \<^verbatim>\<open>input.r\<close>.\<close>

datatype chan =
    CNull | CProc pref | CBuf nat | CBufLock nat | CInodeLock nat | CLog
  | CPipeRead uint | CPipeWrite uint | CTicks | CInput

text \<open>The registers of the trap frame that kernel C code reads or writes (x86.h).\<close>

record trapframe =
  tf_eax :: uint
  tf_ds :: ushort
  tf_es :: ushort
  tf_trapno :: uint
  tf_err :: uint
  tf_eip :: uint
  tf_cs :: ushort
  tf_eflags :: uint
  tf_esp :: uint
  tf_ss :: ushort

text \<open>
  \<^verbatim>\<open>p->context\<close> says where \<^verbatim>\<open>swtch\<close> resumes the process: at \<^verbatim>\<open>forkret\<close> for a new process,
  otherwise inside \<^verbatim>\<open>sched\<close>, called from \<^verbatim>\<open>yield\<close>, from \<^verbatim>\<open>sleep\<close> on a lock, or from \<^verbatim>\<open>exit\<close>.
  With it come the local variables of \<^verbatim>\<open>sched\<close> that it keeps on the kernel stack: \<^verbatim>\<open>intena\<close> and the
  index of the processor \<^verbatim>\<open>curcpu\<close> points to.
\<close>

datatype kcontext =
    CtxNone
  | CtxForkret
  | CtxYield uint nat
  | CtxSleep lockid uint nat
  | CtxExit uint nat

record proc =
  p_sz :: uint
  p_pgdir :: uint
  p_kstack :: uint
  p_state :: procstate
  p_pid :: int
  p_parent :: pref
  p_tf :: trapframe
  p_context :: kcontext
  p_chan :: chan
  p_killed :: int
  p_ofile :: "nat \<Rightarrow> nat option"
  p_cwd :: "nat option"
  p_name :: string
  p_next :: pref
  p_prev :: pref

record clock =
  ck_hi :: uint
  ck_lo :: uint

record schedlog =
  sl_clock :: clock
  sl_pid :: int
  sl_name :: string
  sl_event_name :: events
  sl_prev_pstate :: procstate
  sl_next_pstate :: procstate
  sl_cpu :: nat

text \<open>
  \<open>k_tsc\<close> is the sequence of values the time stamp counter will yield; \<open>k_cr3\<close> is each
  processor's page table register, \<open>k_esp0\<close> the kernel stack pointer in each processor's task
  state segment, \<open>k_first\<close> the static variable of \<^verbatim>\<open>forkret\<close>. The sentinel of \<^verbatim>\<open>runqueue[i]\<close> is \<open>k_procs (PHead i)\<close>.
\<close>

record sched_state = machine +
  k_mrq :: bool
  k_procs :: "pref \<Rightarrow> proc"
  k_rqsize :: "nat \<Rightarrow> int"
  k_initproc :: pref
  k_nextpid :: int
  k_finished_fork :: int
  k_first_run :: "nat \<Rightarrow> int"
  k_clock_log :: "nat \<Rightarrow> nat \<Rightarrow> clock"
  k_end_clock :: clock
  k_bufsize :: int
  k_buf_log :: "nat \<Rightarrow> schedlog"
  k_tsc :: "nat \<Rightarrow> clock"
  k_cr3 :: "uchar \<Rightarrow> uint"
  k_kpgdir :: uint
  k_esp0 :: "nat \<Rightarrow> uint"
  k_first :: bool

definition upd_proc :: "pref \<Rightarrow> (proc \<Rightarrow> proc) \<Rightarrow> 'z sched_state_scheme \<Rightarrow> 'z sched_state_scheme" where
  "upd_proc p f s = s\<lparr>k_procs := (k_procs s)(p := f (k_procs s p))\<rparr>"

lemma k_procs_upd_proc [simp]: "k_procs (upd_proc p f s) = (k_procs s)(p := f (k_procs s p))"
  by (simp add: upd_proc_def)

lemma upd_proc_machine [simp]:
  "m_cpus (upd_proc p f s) = m_cpus s" "m_hw (upd_proc p f s) = m_hw s"
  "m_locks (upd_proc p f s) = m_locks s" "m_ncpu (upd_proc p f s) = m_ncpu s"
  "m_kword (upd_proc p f s) = m_kword s"
  "k_rqsize (upd_proc p f s) = k_rqsize s" "k_mrq (upd_proc p f s) = k_mrq s"
  "readeflags a (upd_proc p f s) = readeflags a s"
  by (simp_all add: upd_proc_def readeflags_def)

text \<open>Operations of the machine leave the fields of the process side alone.\<close>

lemma machine_frame [simp]:
  "k_procs (cli a s) = k_procs s" "k_procs (sti a s) = k_procs s"
  "k_procs (upd_cpu c f s) = k_procs s" "k_procs (upd_lock l g s) = k_procs s"
  "k_rqsize (cli a s) = k_rqsize s" "k_rqsize (sti a s) = k_rqsize s"
  "k_rqsize (upd_cpu c f s) = k_rqsize s" "k_rqsize (upd_lock l g s) = k_rqsize s"
  "k_mrq (cli a s) = k_mrq s" "k_mrq (sti a s) = k_mrq s"
  "k_mrq (upd_cpu c f s) = k_mrq s" "k_mrq (upd_lock l g s) = k_mrq s"
  by (simp_all add: machine_defs)

lemma lock_st_frame [simp]:
  "k_procs (push_st a i s) = k_procs s" "k_procs (pop_st a i s) = k_procs s" "k_procs (save_st a i s) = k_procs s"
  "k_procs (acq_st a i l s) = k_procs s" "k_procs (rel_st a i l s) = k_procs s"
  "k_rqsize (push_st a i s) = k_rqsize s" "k_rqsize (pop_st a i s) = k_rqsize s" "k_rqsize (save_st a i s) = k_rqsize s"
  "k_rqsize (acq_st a i l s) = k_rqsize s" "k_rqsize (rel_st a i l s) = k_rqsize s"
  "k_mrq (push_st a i s) = k_mrq s" "k_mrq (pop_st a i s) = k_mrq s" "k_mrq (save_st a i s) = k_mrq s"
  "k_mrq (acq_st a i l s) = k_mrq s" "k_mrq (rel_st a i l s) = k_mrq s"
  by (simp_all add: push_st_def pop_st_def save_st_def acq_st_def rel_st_def)

text \<open>The zeroed memory the kernel starts from, with \<open>n\<close> processors.\<close>

definition bss_tf :: trapframe where
  "bss_tf = \<lparr>tf_eax = 0, tf_ds = 0, tf_es = 0, tf_trapno = 0, tf_err = 0, tf_eip = 0, tf_cs = 0,
             tf_eflags = 0, tf_esp = 0, tf_ss = 0\<rparr>"

definition bss_proc :: proc where
  "bss_proc = \<lparr>p_sz = 0, p_pgdir = 0, p_kstack = 0, p_state = UNUSED, p_pid = 0, p_parent = PNull,
     p_tf = bss_tf, p_context = CtxNone, p_chan = CNull, p_killed = 0, p_ofile = (\<lambda>_. None), p_cwd = None,
     p_name = [], p_next = PNull, p_prev = PNull\<rparr>"

definition bss_clock :: clock where
  "bss_clock = \<lparr>ck_hi = 0, ck_lo = 0\<rparr>"

definition bss_schedlog :: schedlog where
  "bss_schedlog = \<lparr>sl_clock = bss_clock, sl_pid = 0, sl_name = [], sl_event_name = ALLOCPROC,
     sl_prev_pstate = UNUSED, sl_next_pstate = UNUSED, sl_cpu = 0\<rparr>"

definition bss_state :: "nat \<Rightarrow> bool \<Rightarrow> sched_state" where
  "bss_state n mrq = \<lparr>m_cpus = bss_cpu, m_ncpu = n, m_hw = bss_hw, m_locks = bss_lock, m_kword = (\<lambda>_. 0),
     k_mrq = mrq, k_procs = (\<lambda>_. bss_proc), k_rqsize = (\<lambda>_. 0), k_initproc = PNull, k_nextpid = 1,
     k_finished_fork = 0, k_first_run = (\<lambda>_. 0), k_clock_log = (\<lambda>_ _. bss_clock), k_end_clock = bss_clock,
     k_bufsize = 0, k_buf_log = (\<lambda>_. bss_schedlog), k_tsc = (\<lambda>n. \<lparr>ck_hi = 0, ck_lo = of_nat n\<rparr>),
     k_cr3 = (\<lambda>_. 0), k_kpgdir = 0, k_esp0 = (\<lambda>_. 0), k_first = True\<rparr>"

lemma cli_ok_cong:
  assumes "m_cpus t = m_cpus s" "m_ncpu t = m_ncpu s" "m_hw t = m_hw s"
  shows "cli_ok a i t = cli_ok a i s"
  using assms by (simp add: cli_ok_def cpu_index_def readeflags_def)

lemma cli_ok_bss_state: "cli_ok 0 0 (bss_state 2 b)" "cli_ok 1 1 (bss_state 2 b)"
  by (simp_all add: cli_ok_def cpu_index_def bss_state_def bss_cpu_def upt_conv_Cons)

end
