(* ===== verification/SchedLog.thy ===== *)
theory SchedLog
  imports ProcState "HOL-Library.Char_ord"
begin

text \<open>
  The scheduling log: \<^verbatim>\<open>rdtsc\<close>, \<^verbatim>\<open>myproc\<close>, \<^verbatim>\<open>mycpuid\<close>, \<^verbatim>\<open>mystrcmp\<close> and \<^verbatim>\<open>writelog\<close> of proc.c, and
  \<^verbatim>\<open>convert_to_hexa\<close> of sysfile.c, which prints its time stamps. The lemmas show what one call
  appends to the log, and that a call leaves everything else of the kernel alone.
\<close>

section \<open>Operations\<close>

text \<open>A C string is the list of its characters before the terminating null.\<close>

definition chr0 :: char where
  "chr0 = CHR 0x00"

definition uc :: "char \<Rightarrow> int" where
  "uc c = of_char c"

fun mystrcmp :: "string \<Rightarrow> string \<Rightarrow> int" where
  "mystrcmp [] q = 0 - (case q of [] \<Rightarrow> 0 | d # _ \<Rightarrow> uc d)"
| "mystrcmp (c # p) [] = uc c - 0"
| "mystrcmp (c # p) (d # q) = (if c \<noteq> chr0 \<and> c = d then mystrcmp p q else uc c - uc d)"

definition rdtsc :: "'z sched_state_scheme \<Rightarrow> clock \<times> 'z sched_state_scheme" where
  "rdtsc s = (k_tsc s 0, s\<lparr>k_tsc := (\<lambda>n. k_tsc s (Suc n))\<rparr>)"

definition myproc :: "uchar \<Rightarrow> 'z machine_scheme \<Rightarrow> (pref \<times> 'z machine_scheme) res" where
  "myproc a s =
     bindR (pushcli a s) (\<lambda>s.
     bindR (mycpu a s) (\<lambda>c.
       let p = c_proc (m_cpus s c)
       in bindR (popcli a s) (\<lambda>s. Ok (p, s))))"

definition mycpuid :: "uchar \<Rightarrow> 'z machine_scheme \<Rightarrow> (nat \<times> 'z machine_scheme) res" where
  "mycpuid a s =
     bindR (pushcli a s) (\<lambda>s.
     bindR (cpuid a s) (\<lambda>c.
     bindR (popcli a s) (\<lambda>s. Ok (c, s))))"

text \<open>An index outside \<^verbatim>\<open>buf_log[BUFSIZE]\<close> is a write outside the array.\<close>

definition writelog ::
  "uchar \<Rightarrow> int \<Rightarrow> string \<Rightarrow> events \<Rightarrow> procstate \<Rightarrow> procstate \<Rightarrow> 'z sched_state_scheme \<Rightarrow> 'z sched_state_scheme res" where
  "writelog a pid pname event_name prev_pstate next_pstate s =
     (if k_finished_fork s \<noteq> 0 \<and> mystrcmp pname ''bufwrite'' = 0 \<and> pid \<noteq> -1 then
        let (cl, s) = rdtsc s;
            s = s\<lparr>k_end_clock := cl\<rparr>
        in if k_bufsize s \<ge> int BUFSIZE then Ok s
           else let s = s\<lparr>k_bufsize := k_bufsize s + 1\<rparr>
                in if k_bufsize s < 0 \<or> k_bufsize s \<ge> int BUFSIZE then Undef ''writelog: buf_log out of bounds''
                   else bindR (mycpuid a s) (\<lambda>(c, s).
                     let e = \<lparr>sl_clock = cl, sl_pid = pid, sl_name = take 16 pname, sl_event_name = event_name,
                              sl_prev_pstate = prev_pstate, sl_next_pstate = next_pstate, sl_cpu = c\<rparr>
                     in Ok (s\<lparr>k_buf_log := (k_buf_log s)(nat (k_bufsize s) := e)\<rparr>))
      else Ok s)"

text \<open>The loop of \<^verbatim>\<open>convert_to_hexa\<close> from round \<open>i\<close>; \<^verbatim>\<open>hex\<close> has at least 9 characters.\<close>

function hexa_loop :: "nat \<Rightarrow> uint \<Rightarrow> string \<Rightarrow> string" where
  "hexa_loop i n hex =
     (if i < 8 then
        let digit = n mod 16
        in hexa_loop (i + 1) (n div 16)
             (hex[7 - i := (if digit < 10 then char_of (unat (48 + digit)) else char_of (unat (65 + digit - 10)))])
      else hex)"

  by pat_completeness auto
termination
  by (relation "measure (\<lambda>(i, _, _). 8 - i)") auto

declare hexa_loop.simps [simp del]

definition convert_to_hexa :: "uint \<Rightarrow> string \<Rightarrow> string" where
  "convert_to_hexa n hex = (hexa_loop 0 n hex)[8 := chr0]"

section \<open>Comparison of names\<close>

lemma uc_eq_iff [simp]: "uc c = uc d \<longleftrightarrow> c = d"
  unfolding uc_def by (rule of_char_eq_iff)

lemma uc_0_iff [simp]: "uc c = 0 \<longleftrightarrow> c = chr0"
  using uc_eq_iff [of c chr0] by (simp add: chr0_def uc_def del: uc_eq_iff)

lemma mystrcmp_0:
  "chr0 \<notin> set p \<Longrightarrow> chr0 \<notin> set q \<Longrightarrow> mystrcmp p q = 0 \<longleftrightarrow> p = q"
  by (induction p q rule: mystrcmp.induct) (auto split: list.splits)

section \<open>What a call does\<close>

lemma lock_eq_save: "lock_eq s (save_st a c s)"
  by (auto simp: lock_eq_def save_st_def machine_defs readeflags_def)

lemma popcli_push:
  assumes "cli_ok a c s"
  shows "popcli a (push_st a c s) = Ok (save_st a c s)"
  using assms pop_push [OF assms] popcli_Ok [of a "push_st a c s" c] by (auto simp: cli_ok_def)

lemma mycpu_push: "cpu_index a s = Some c \<Longrightarrow> mycpu a (push_st a c s) = Ok c"
  by (simp add: mycpu_def)

lemma myproc_run:
  assumes "cli_ok a c s"
  shows "myproc a s = Ok (c_proc (m_cpus s c), save_st a c s)"
proof -
  from assms have ix: "cpu_index a s = Some c" by (simp add: cli_ok_def)
  moreover have "c_proc (m_cpus (push_st a c s) c) = c_proc (m_cpus s c)"
    by (simp add: push_st_def save_st_def machine_defs)
  ultimately show ?thesis
    using popcli_push [OF assms] by (simp add: myproc_def pushcli_Ok mycpu_push Let_def)
qed

lemma mycpuid_run:
  assumes "cli_ok a c s"
  shows "mycpuid a s = Ok (c, save_st a c s)"
proof -
  from assms have ix: "cpu_index a s = Some c" by (simp add: cli_ok_def)
  then show ?thesis
    using popcli_push [OF assms] by (simp add: mycpuid_def cpuid_def pushcli_Ok mycpu_push)
qed

text \<open>Two states that differ at most in the log, the clock and the debugging fields.\<close>

definition log_frame :: "'z sched_state_scheme \<Rightarrow> 'z sched_state_scheme \<Rightarrow> bool" where
  "log_frame s t \<longleftrightarrow>
     lock_eq s t \<and> k_mrq t = k_mrq s \<and> k_procs t = k_procs s \<and> k_rqsize t = k_rqsize s \<and>
     k_initproc t = k_initproc s \<and> k_nextpid t = k_nextpid s \<and> k_finished_fork t = k_finished_fork s \<and>
     k_first_run t = k_first_run s \<and> k_clock_log t = k_clock_log s \<and> k_cr3 t = k_cr3 s \<and>
     k_kpgdir t = k_kpgdir s"

lemma log_frame_refl [simp]: "log_frame s s"
  by (simp add: log_frame_def)

lemma log_frame_trans: "log_frame s t \<Longrightarrow> log_frame t u \<Longrightarrow> log_frame s u"
  unfolding log_frame_def using lock_eq_trans by auto

lemma save_frame [simp]:
  "k_procs (save_st a c s) = k_procs s" "k_buf_log (save_st a c s) = k_buf_log s"
  "k_bufsize (save_st a c s) = k_bufsize s" "k_end_clock (save_st a c s) = k_end_clock s"
  "k_finished_fork (save_st a c s) = k_finished_fork s" "k_tsc (save_st a c s) = k_tsc s"
  by (simp_all add: save_st_def upd_cpu_def)

lemma log_frame_save: "log_frame s (save_st a c s)"
  using lock_eq_save [of s a c] by (simp add: log_frame_def) (simp add: save_st_def upd_cpu_def)

text \<open>The recorded part of the log: the entries 1 to \<^verbatim>\<open>bufsize.value\<close>, oldest first.\<close>

definition log_of :: "'z sched_state_scheme \<Rightarrow> schedlog list" where
  "log_of s = map (k_buf_log s) [1..<Suc (nat (k_bufsize s))]"

definition logged :: "int \<Rightarrow> string \<Rightarrow> 'z sched_state_scheme \<Rightarrow> bool" where
  "logged pid pname s \<longleftrightarrow> k_finished_fork s \<noteq> 0 \<and> mystrcmp pname ''bufwrite'' = 0 \<and> pid \<noteq> -1"

definition clocked :: "'z sched_state_scheme \<Rightarrow> 'z sched_state_scheme" where
  "clocked s = s\<lparr>k_tsc := (\<lambda>n. k_tsc s (Suc n)), k_end_clock := k_tsc s 0\<rparr>"

definition log_entry ::
  "nat \<Rightarrow> int \<Rightarrow> string \<Rightarrow> events \<Rightarrow> procstate \<Rightarrow> procstate \<Rightarrow> 'z sched_state_scheme \<Rightarrow> schedlog" where
  "log_entry c pid pname ev ps ns s =
     \<lparr>sl_clock = k_tsc s 0, sl_pid = pid, sl_name = take 16 pname, sl_event_name = ev,
      sl_prev_pstate = ps, sl_next_pstate = ns, sl_cpu = c\<rparr>"

definition log_st ::
  "uchar \<Rightarrow> nat \<Rightarrow> int \<Rightarrow> string \<Rightarrow> events \<Rightarrow> procstate \<Rightarrow> procstate \<Rightarrow> 'z sched_state_scheme \<Rightarrow> 'z sched_state_scheme" where
  "log_st a c pid pname ev ps ns s =
     (let t = save_st a c ((clocked s)\<lparr>k_bufsize := k_bufsize s + 1\<rparr>)
      in t\<lparr>k_buf_log := (k_buf_log t)(nat (k_bufsize t) := log_entry c pid pname ev ps ns s)\<rparr>)"

lemma writelog_run:
  assumes "cli_ok a c s" "0 \<le> k_bufsize s"
  shows "writelog a pid pname ev ps ns s =
     (if \<not> logged pid pname s then Ok s
      else if k_bufsize s \<ge> int BUFSIZE then Ok (clocked s)
      else if k_bufsize s = int BUFSIZE - 1 then Undef ''writelog: buf_log out of bounds''
      else Ok (log_st a c pid pname ev ps ns s))"
proof -
  have "cli_ok a c ((clocked s)\<lparr>k_bufsize := k_bufsize s + 1\<rparr>)"
    using assms(1) cli_ok_cong [of "(clocked s)\<lparr>k_bufsize := k_bufsize s + 1\<rparr>" s] by (simp add: clocked_def)
  from mycpuid_run [OF this] show ?thesis
    using assms(2) by (auto simp: writelog_def logged_def rdtsc_def Let_def log_st_def clocked_def log_entry_def)
qed

lemma lock_eq_clocked: "lock_eq s (clocked s)"
  by (rule lock_eqI_machine) (simp_all add: clocked_def)

lemma log_frame_clocked: "log_frame s (clocked s)"
  using lock_eq_clocked [of s] by (simp add: log_frame_def) (simp add: clocked_def)

lemma log_frame_st: "log_frame s (log_st a c pid pname ev ps ns s)"
proof -
  let ?u = "(clocked s)\<lparr>k_bufsize := k_bufsize s + 1\<rparr>"
  have "log_frame s ?u" by (auto simp: log_frame_def clocked_def intro: lock_eqI_machine)
  moreover have "log_frame ?u (save_st a c ?u)" by (rule log_frame_save)
  moreover have "log_frame t (t\<lparr>k_buf_log := b\<rparr>)" for t :: "'a sched_state_scheme" and b
    by (auto simp: log_frame_def intro: lock_eqI_machine)
  ultimately show ?thesis by (auto simp: log_st_def Let_def intro: log_frame_trans)
qed

text \<open>The log has room for \<open>k\<close> more entries, or logging is off.\<close>

definition log_room :: "nat \<Rightarrow> 'z sched_state_scheme \<Rightarrow> bool" where
  "log_room k s \<longleftrightarrow> 0 \<le> k_bufsize s \<and> (k_finished_fork s = 0 \<or> k_bufsize s + int k < int BUFSIZE)"

lemma writelog_ok:
  assumes "cli_ok a c s" "log_room (Suc k) s"
  shows "\<exists>t. writelog a pid pname ev ps ns s = Ok t \<and> log_frame s t \<and> log_room k t \<and> cli_ok a c t"
proof (cases "logged pid pname s")
  case False
  with assms show ?thesis by (simp add: writelog_run log_room_def) auto
next
  case True
  let ?t = "log_st a c pid pname ev ps ns s"
  have "k_bufsize ?t = k_bufsize s + 1" "k_finished_fork ?t = k_finished_fork s"
    by (simp_all add: log_st_def Let_def clocked_def)
  then have "log_room k ?t" using assms(2) True by (auto simp: log_room_def logged_def)
  moreover have "cli_ok a c ?t"
    using assms(1) log_frame_st lock_eq_cli_ok unfolding log_frame_def by blast
  moreover have "writelog a pid pname ev ps ns s = Ok ?t"
    using assms True by (auto simp: writelog_run log_room_def logged_def)
  ultimately show ?thesis using log_frame_st by blast
qed

lemma writelog_OkD:
  assumes "writelog a pid pname ev ps ns s = Ok t" "cli_ok a c s" "0 \<le> k_bufsize s"
  shows "log_frame s t \<and> 0 \<le> k_bufsize t"
proof -
  have "0 \<le> k_bufsize (log_st a c pid pname ev ps ns s)" "k_bufsize (clocked s) = k_bufsize s"
    using assms(3) by (simp_all add: log_st_def Let_def clocked_def)
  then show ?thesis
    using assms log_frame_st log_frame_clocked
    by (auto simp: writelog_run [OF assms(2,3)] split: if_splits)
qed

section \<open>Hexadecimal\<close>

definition hexval :: "char \<Rightarrow> nat" where
  "hexval c = (let v = of_char c in if v < (65::nat) then v - 48 else v - 55)"

definition hexnum :: "string \<Rightarrow> nat" where
  "hexnum cs = foldl (\<lambda>v c. 16 * v + hexval c) 0 cs"

definition hexdigit :: "uint \<Rightarrow> char" where
  "hexdigit d = (if d < 10 then char_of (unat (48 + d)) else char_of (unat (65 + d - 10)))"

lemma hexdigit_cases: "d < 16 \<Longrightarrow> hexdigit d \<in> set ''0123456789ABCDEF'' \<and> hexval (hexdigit d) = unat d"
proof -
  assume "d < 16"
  then have "unat d < 16" by (simp add: word_less_nat_alt)
  then have "unat d \<in> {0,1,2,3,4,5,6,7,8,9,10,11,12,13,14,15}" by (simp only: insert_iff empty_iff) presburger
  then have "(word_of_nat (unat d) :: uint) \<in> word_of_nat ` {0,1,2,3,4,5,6,7,8,9,10,11,12,13,14,15::nat}" by (rule imageI)
  then have "d \<in> {0,1,2,3,4,5,6,7,8,9,10,11,12,13,14,15}" by simp
  then show ?thesis
    by (elim insertE emptyE) (simp_all add: hexdigit_def hexval_def Let_def char_of_def bit_0)
qed

lemma hexnum_snoc: "hexnum (xs @ [c]) = 16 * hexnum xs + hexval c"
  by (simp add: hexnum_def)

lemma hexa_loop_spec:
  assumes "i \<le> 8" "8 < length hex"
  shows "length (hexa_loop i n hex) = length hex \<and> drop (8 - i) (hexa_loop i n hex) = drop (8 - i) hex \<and>
     hexnum (take (8 - i) (hexa_loop i n hex)) = unat n mod 16 ^ (8 - i) \<and>
     set (take (8 - i) (hexa_loop i n hex)) \<subseteq> set ''0123456789ABCDEF''"
  using assms
proof (induction i n hex rule: hexa_loop.induct)
  case (1 i n hex)
  show ?case
  proof (cases "i < 8")
    case False
    with 1 show ?thesis by (subst (1 2 3 4) hexa_loop.simps) (simp add: hexnum_def)
  next
    case True
    let ?d = "hexdigit (n mod 16)"
    let ?h = "hex[7 - i := ?d]"
    let ?r = "hexa_loop (i + 1) (n div 16) ?h"
    have r: "hexa_loop i n hex = ?r"
      using True by (subst hexa_loop.simps) (simp add: hexdigit_def Let_def)
    have IH: "length ?r = length hex" "drop (7 - i) ?r = drop (7 - i) ?h"
        "hexnum (take (7 - i) ?r) = unat (n div 16) mod 16 ^ (7 - i)"
        "set (take (7 - i) ?r) \<subseteq> set ''0123456789ABCDEF''"
      using "1.IH" [OF True refl] True "1.prems" by (auto simp: hexdigit_def)
    have k: "8 - i = Suc (7 - i)" "7 - i < length hex" using True "1.prems" by auto
    have at: "?r ! (7 - i) = ?d"
      using IH(1,2) k(2) by (metis drop_eq_nths hd_drop_conv_nth length_list_update nth_list_update_eq)
    have "drop (Suc (7 - i)) ?r = drop (Suc (7 - i)) ?h"
      using arg_cong [OF IH(2), of "drop 1"] by simp
    moreover have tk: "take (8 - i) ?r = take (7 - i) ?r @ [?d]"
      using k IH(1) at by (simp add: take_Suc_conv_app_nth)
    moreover have "n mod 16 < 16" by (rule word_mod_less_divisor) simp
    note dig = hexdigit_cases [OF this]
    have "16 * (unat n div 16 mod 16 ^ (7 - i)) + unat n mod 16 = unat n mod 16 ^ (8 - i)"
      unfolding k(1) power_Suc by (rule mod_mult2_eq [symmetric])
    then have "hexnum (take (8 - i) ?r) = unat n mod 16 ^ (8 - i)"
      unfolding tk hexnum_snoc using dig IH(3) by (simp add: unat_div unat_mod)
    ultimately show ?thesis
      unfolding r using IH(1,4) k(1) dig by auto
  qed
qed

section \<open>Properties\<close>

text \<open>
  C13: \<^verbatim>\<open>convert_to_hexa\<close> writes exactly eight digits of \<open>0-9A-F\<close> and a terminating null, and the
  digits read as a hexadecimal number are the argument, for every 32-bit argument.
\<close>

theorem convert_to_hexa_roundtrip:
  assumes "length hex = 9"
  shows "hexnum (take 8 (convert_to_hexa n hex)) = unat n \<and> convert_to_hexa n hex ! 8 = chr0 \<and>
     length (convert_to_hexa n hex) = 9 \<and> set (take 8 (convert_to_hexa n hex)) \<subseteq> set ''0123456789ABCDEF''"
proof -
  have "unat n < 2 ^ 32" using unsigned_less [of n] by simp
  then have "unat n mod 16 ^ 8 = unat n" by simp
  then show ?thesis
    using hexa_loop_spec [of 0 hex n] assms by (simp add: convert_to_hexa_def)
qed

theorem convert_to_hexa_roundtrip_witness:
  "hexnum (take 8 (convert_to_hexa 0xBEEF (replicate 9 chr0))) = 48879"
  using convert_to_hexa_roundtrip [of "replicate 9 chr0" "0xBEEF"] by simp

text \<open>
  C14: One call of \<^verbatim>\<open>writelog\<close> for the process named bufwrite, once all its children are forked, appends
  one entry with the current time stamp, the processor and the arguments at the end of the log while
  at most \<open>BUFSIZE - 2\<close> entries are recorded; it changes nothing else but the end time stamp. The
  call after \<open>BUFSIZE - 1\<close> entries writes outside \<^verbatim>\<open>buf_log\<close>. Once the counter is at \<open>BUFSIZE\<close> or above, a call only takes a
  time stamp and records it as the end of the log. A call for any other process does nothing.
\<close>

theorem writelog_appends:
  assumes "cli_ok a c s" "0 \<le> k_bufsize s"
  shows "(if k_finished_fork s \<noteq> 0 \<and> pname = ''bufwrite'' \<and> pid \<noteq> -1
          then if k_bufsize s \<ge> int BUFSIZE
               then writelog a pid pname ev ps ns s = Ok (s\<lparr>k_tsc := (\<lambda>n. k_tsc s (Suc n)), k_end_clock := k_tsc s 0\<rparr>)
               else if k_bufsize s = int BUFSIZE - 1
               then writelog a pid pname ev ps ns s = Undef ''writelog: buf_log out of bounds''
               else \<exists>t. writelog a pid pname ev ps ns s = Ok t \<and> log_frame s t \<and> k_end_clock t = k_tsc s 0 \<and>
                        log_of t = log_of s @ [\<lparr>sl_clock = k_tsc s 0, sl_pid = pid, sl_name = pname,
                          sl_event_name = ev, sl_prev_pstate = ps, sl_next_pstate = ns, sl_cpu = c\<rparr>]
          else chr0 \<in> set pname \<or> writelog a pid pname ev ps ns s = Ok s)"
proof -
  have lg: "logged pid pname s \<longleftrightarrow> k_finished_fork s \<noteq> 0 \<and> pname = ''bufwrite'' \<and> pid \<noteq> -1"
    if "chr0 \<notin> set pname \<or> pname = ''bufwrite''"
    using that mystrcmp_0 [of pname "''bufwrite''"] by (auto simp: logged_def chr0_def)
  show ?thesis
  proof (cases "k_finished_fork s \<noteq> 0 \<and> pname = ''bufwrite'' \<and> pid \<noteq> -1")
    case False
    then show ?thesis using lg assms(2) by (auto simp: writelog_run [OF assms(1,2)])
  next
    case True
    let ?t = "log_st a c pid pname ev ps ns s"
    have "[1..<Suc (nat (k_bufsize s + 1))] = [1..<Suc (nat (k_bufsize s))] @ [Suc (nat (k_bufsize s))]"
      using assms(2) by (simp add: nat_add_distrib)
    moreover have "nat (k_bufsize s + 1) = Suc (nat (k_bufsize s))" using assms(2) by simp
    ultimately have "log_of ?t = log_of s @ [log_entry c pid pname ev ps ns s]"
      by (simp add: log_of_def log_st_def Let_def clocked_def)
    moreover have "k_end_clock ?t = k_tsc s 0" by (simp add: log_st_def Let_def clocked_def)
    ultimately show ?thesis
      using True lg log_frame_st [of s a c] by (auto simp: writelog_run [OF assms(1,2)] log_entry_def clocked_def)
  qed
qed

theorem writelog_appends_witness:
  "writelog 0 7 ''bufwrite'' TICK RUNNABLE RUNNING ((bss_state 2 True)\<lparr>k_finished_fork := 1, k_bufsize := 499\<rparr>) =
     Undef ''writelog: buf_log out of bounds'' \<and>
   (\<exists>t. writelog 0 7 ''bufwrite'' TICK RUNNABLE RUNNING ((bss_state 2 True)\<lparr>k_finished_fork := 1, k_bufsize := 500\<rparr>) = Ok t \<and>
      k_bufsize t = 500) \<and>
   writelog 0 7 ''sh'' TICK RUNNABLE RUNNING (bss_state 2 True) = Ok (bss_state 2 True)"
proof -
  let ?s = "\<lambda>n. (bss_state 2 True)\<lparr>k_finished_fork := 1, k_bufsize := n\<rparr>"
  have "cli_ok 0 0 (?s n)" for n using cli_ok_bss_state(1) cli_ok_cong [of "?s n" "bss_state 2 True"] by simp
  moreover have "k_bufsize (bss_state 2 True) = 0" "k_finished_fork (bss_state 2 True) = 0"
    by (simp_all add: bss_state_def)
  ultimately show ?thesis
    using writelog_appends [of 0 0 "?s 499" "''bufwrite''" 7] writelog_appends [of 0 0 "?s 500" "''bufwrite''" 7]
      writelog_appends [OF cli_ok_bss_state(1), of True "''sh''" 7] by (simp add: chr0_def)
qed

end
