(* ===== verification/Fifo.thy ===== *)
theory Fifo
  imports Prelude
begin

text \<open>
  The interface of a first-in first-out queue whose operations may fail: what its clients rely
  on, and the order of delivery that follows from it. The run queues of the scheduler, the
  request queue of the disk driver and the ring buffer of a pipe provide it.
\<close>

fun enq_list :: "('e \<Rightarrow> 's \<Rightarrow> 's res) \<Rightarrow> 'e list \<Rightarrow> 's \<Rightarrow> 's res" where
  "enq_list enq [] s = Ok s"
| "enq_list enq (x # xs) s = bindR (enq x s) (enq_list enq xs)"

fun deq_list :: "('s \<Rightarrow> ('e \<times> 's) res) \<Rightarrow> nat \<Rightarrow> 's \<Rightarrow> ('e list \<times> 's) res" where
  "deq_list deq 0 s = Ok ([], s)"
| "deq_list deq (Suc n) s =
     bindR (deq s) (\<lambda>(x, s). bindR (deq_list deq n s) (\<lambda>(xs, s). Ok (x # xs, s)))"

text \<open>\<open>adm xs x\<close> says that \<open>x\<close> may be added to a queue that holds \<open>xs\<close>.\<close>

primrec adm_list :: "('e list \<Rightarrow> 'e \<Rightarrow> bool) \<Rightarrow> 'e list \<Rightarrow> 'e list \<Rightarrow> bool" where
  "adm_list adm xs [] \<longleftrightarrow> True"
| "adm_list adm xs (y # ys) \<longleftrightarrow> adm xs y \<and> adm_list adm (xs @ [y]) ys"

locale fifo =
  fixes enq :: "'e \<Rightarrow> 's \<Rightarrow> 's res"
    and deq :: "'s \<Rightarrow> ('e \<times> 's) res"
    and rep :: "'s \<Rightarrow> 'e list \<Rightarrow> bool"
    and adm :: "'e list \<Rightarrow> 'e \<Rightarrow> bool"
  assumes enq_law: "rep s xs \<Longrightarrow> adm xs x \<Longrightarrow> \<exists>t. enq x s = Ok t \<and> rep t (xs @ [x])"
    and deq_law: "rep s (x # xs) \<Longrightarrow> \<exists>t. deq s = Ok (x, t) \<and> rep t xs"
    and deq_none: "rep s [] \<Longrightarrow> \<not> is_Ok (deq s)"
begin

lemma enq_list_rep:
  "rep s xs \<Longrightarrow> adm_list adm xs ys \<Longrightarrow> \<exists>t. enq_list enq ys s = Ok t \<and> rep t (xs @ ys)"
proof (induction ys arbitrary: s xs)
  case Nil
  then show ?case by simp
next
  case (Cons y ys)
  then obtain t where "enq y s = Ok t" "rep t (xs @ [y])" using enq_law [of s xs y] by auto
  moreover obtain u where "enq_list enq ys t = Ok u" "rep u ((xs @ [y]) @ ys)"
    using Cons.IH [of t "xs @ [y]"] Cons.prems \<open>rep t (xs @ [y])\<close> by auto
  ultimately show ?case by simp
qed

lemma deq_list_rep:
  "rep s (xs @ ys) \<Longrightarrow> \<exists>t. deq_list deq (length xs) s = Ok (xs, t) \<and> rep t ys"
proof (induction xs arbitrary: s)
  case Nil
  then show ?case by simp
next
  case (Cons x xs)
  then obtain t where "deq s = Ok (x, t)" "rep t (xs @ ys)" using deq_law [of s x "xs @ ys"] by auto
  moreover obtain u where "deq_list deq (length xs) t = Ok (xs, u)" "rep u ys"
    using Cons.IH \<open>rep t (xs @ ys)\<close> by blast
  ultimately show ?case by simp
qed

lemma delivery_order:
  assumes "rep s xs" "adm_list adm xs ys"
  shows "\<exists>t u. enq_list enq ys s = Ok t \<and> deq_list deq (length xs + length ys) t = Ok (xs @ ys, u) \<and> rep u []"
proof -
  obtain t where t: "enq_list enq ys s = Ok t" "rep t (xs @ ys)"
    using enq_list_rep [OF assms] by blast
  then have "rep t ((xs @ ys) @ [])" by simp
  then obtain u where "deq_list deq (length (xs @ ys)) t = Ok (xs @ ys, u)" "rep u []"
    using deq_list_rep by blast
  with t(1) show ?thesis by auto
qed

end

end
