(* ===== verification/Runqueue.thy ===== *)
theory Runqueue
  imports ProcState Fifo
begin

text \<open>
  The run queues of proc.c: \<^verbatim>\<open>runqueueinit\<close>, \<^verbatim>\<open>enqueue\<close>, \<^verbatim>\<open>dequeue\<close>, \<^verbatim>\<open>work_steal\<close>. A queue is
  a circular doubly linked list through the \<^verbatim>\<open>next\<close> and \<^verbatim>\<open>prev\<close> fields of the processes, closed
  by the sentinel \<^verbatim>\<open>head\<close>; the lemmas relate it to the list of its processes in order.
\<close>

section \<open>Operations\<close>

definition init_queue :: "uchar \<Rightarrow> nat \<Rightarrow> 'z sched_state_scheme \<Rightarrow> 'z sched_state_scheme res" where
  "init_queue a i s =
     bindR (acquire a (RqLock i) s) (\<lambda>s.
     bindR (acquire a PtableLock s) (\<lambda>s.
       let s = upd_proc (PHead i) (\<lambda>h. h\<lparr>p_pid := (-1) * (int i + 1), p_next := PHead i, p_prev := PHead i\<rparr>) s;
           s = s\<lparr>k_rqsize := (k_rqsize s)(i := 0)\<rparr>
       in bindR (release a PtableLock s) (\<lambda>s. release a (RqLock i) s)))"

fun init_queues :: "uchar \<Rightarrow> nat list \<Rightarrow> 'z sched_state_scheme \<Rightarrow> 'z sched_state_scheme res" where
  "init_queues a [] s = Ok s"
| "init_queues a (i # is) s = bindR (init_queue a i s) (init_queues a is)"

definition runqueueinit :: "uchar \<Rightarrow> 'z sched_state_scheme \<Rightarrow> 'z sched_state_scheme res" where
  "runqueueinit a s =
     bindR (init_queues a [0..<m_ncpu s] s) (\<lambda>s.
       Ok (initlock BufsizeLock ''bufsize'' (s\<lparr>k_bufsize := 0\<rparr>)))"

text \<open>The search of \<^verbatim>\<open>enqueue\<close> for a process with the same identifier, from \<open>q\<close> to the
  sentinel. A well-formed queue holds at most \<^const>\<open>NPROC\<close> processes, so \<open>NPROC + 1\<close> rounds
  are enough for it.\<close>

fun enqueue_scan :: "nat \<Rightarrow> pref \<Rightarrow> int \<Rightarrow> pref \<Rightarrow> 'z sched_state_scheme \<Rightarrow> unit res" where
  "enqueue_scan 0 head pid q s = Diverge"
| "enqueue_scan (Suc n) head pid q s =
     (if q = head then Ok ()
      else if q = PNull then Undef ''enqueue: null pointer''
      else if p_pid (k_procs s q) = pid then Panic ''enqueue: push same pid''
      else enqueue_scan n head pid (p_next (k_procs s q)) s)"

definition enqueue :: "nat \<Rightarrow> pref \<Rightarrow> 'z sched_state_scheme \<Rightarrow> 'z sched_state_scheme res" where
  "enqueue i p s =
     (if p = PNull then Undef ''enqueue: null pointer'' else
      let head = PHead i; tail = p_prev (k_procs s head)
      in bindR (enqueue_scan (NPROC + 1) head (p_pid (k_procs s p)) (p_next (k_procs s head)) s) (\<lambda>_.
         if tail = PNull then Undef ''enqueue: null pointer'' else
         let s = s\<lparr>k_rqsize := (k_rqsize s)(i := k_rqsize s i + 1)\<rparr>;
             s = upd_proc p (\<lambda>x. x\<lparr>p_prev := tail\<rparr>) s;
             s = upd_proc p (\<lambda>x. x\<lparr>p_next := head\<rparr>) s;
             s = upd_proc head (\<lambda>x. x\<lparr>p_prev := p\<rparr>) s
         in Ok (upd_proc tail (\<lambda>x. x\<lparr>p_next := p\<rparr>) s)))"

definition dequeue :: "uchar \<Rightarrow> nat \<Rightarrow> 'z sched_state_scheme \<Rightarrow> (pref \<times> 'z sched_state_scheme) res" where
  "dequeue a i s =
     (if k_rqsize s i = 0 then Panic ''dequeue : empty runqueue'' else
      let head = PHead i; p = p_next (k_procs s head)
      in bindR (acquire a PtableLock s) (\<lambda>s.
         if p = PNull \<or> p_next (k_procs s p) = PNull then Undef ''dequeue: null pointer'' else
         let s = upd_proc head (\<lambda>x. x\<lparr>p_next := p_next (k_procs s p)\<rparr>) s;
             s = upd_proc (p_next (k_procs s p)) (\<lambda>x. x\<lparr>p_prev := head\<rparr>) s;
             s = upd_proc p (\<lambda>x. x\<lparr>p_next := PNull\<rparr>) s;
             s = upd_proc p (\<lambda>x. x\<lparr>p_prev := PNull\<rparr>) s
         in bindR (release a PtableLock s) (\<lambda>s.
              Ok (p, s\<lparr>k_rqsize := (k_rqsize s)(i := k_rqsize s i - 1)\<rparr>))))"

text \<open>The loop of \<^verbatim>\<open>work_steal\<close> over the processors: the result is the first queue of maximal
  positive size other than \<open>cur\<close> (\<^verbatim>\<open>steal_target\<close> and \<^verbatim>\<open>stealid\<close> always agree) and that size.\<close>

fun steal_scan :: "nat list \<Rightarrow> nat \<Rightarrow> nat option \<Rightarrow> int \<Rightarrow> 'z sched_state_scheme \<Rightarrow> nat option \<times> int" where
  "steal_scan [] cur tgt mx s = (tgt, mx)"
| "steal_scan (i # is) cur tgt mx s =
     (if k_rqsize s i > mx \<and> i \<noteq> cur then steal_scan is cur (Some i) (k_rqsize s i) s
      else steal_scan is cur tgt mx s)"

definition work_steal :: "uchar \<Rightarrow> nat \<Rightarrow> 'z sched_state_scheme \<Rightarrow> 'z sched_state_scheme res" where
  "work_steal a cur s =
     (case fst (steal_scan [0..<m_ncpu s] cur None 0 s) of
        None \<Rightarrow> Ok s
      | Some t \<Rightarrow>
          if t = 0 then Ok s
          else if t = cur then Panic ''steal itself''
          else bindR (acquire a (RqLock t) s) (\<lambda>s.
               bindR (if k_rqsize s t \<noteq> 0
                      then bindR (dequeue a t s) (\<lambda>(p, s).
                           if p = PNull then Panic ''test''
                           else bindR (acquire a PtableLock s) (\<lambda>s.
                                bindR (enqueue cur p s) (\<lambda>s.
                                release a PtableLock s)))
                      else Ok s) (\<lambda>s.
               release a (RqLock t) s)))"

section \<open>The list a queue stands for\<close>

text \<open>\<open>dseg n p a xs b\<close>: following \<open>n\<close> from \<open>a\<close> visits the processes \<open>xs\<close> and arrives at \<open>b\<close>,
  and \<open>p\<close> leads the same way back.\<close>

primrec dseg :: "(pref \<Rightarrow> pref) \<Rightarrow> (pref \<Rightarrow> pref) \<Rightarrow> pref \<Rightarrow> nat list \<Rightarrow> pref \<Rightarrow> bool" where
  "dseg n p a [] b \<longleftrightarrow> n a = b \<and> p b = a"
| "dseg n p a (x # xs) b \<longleftrightarrow> n a = PProc x \<and> p (PProc x) = a \<and> dseg n p (PProc x) xs b"

abbreviation nxt :: "'z sched_state_scheme \<Rightarrow> pref \<Rightarrow> pref" where
  "nxt s q \<equiv> p_next (k_procs s q)"

abbreviation prv :: "'z sched_state_scheme \<Rightarrow> pref \<Rightarrow> pref" where
  "prv s q \<equiv> p_prev (k_procs s q)"

abbreviation pid_of :: "'z sched_state_scheme \<Rightarrow> nat \<Rightarrow> int" where
  "pid_of s x \<equiv> p_pid (k_procs s (PProc x))"

definition rq_rep :: "'z sched_state_scheme \<Rightarrow> nat \<Rightarrow> nat list \<Rightarrow> bool" where
  "rq_rep s i xs \<longleftrightarrow>
     dseg (nxt s) (prv s) (PHead i) xs (PHead i) \<and>
     distinct xs \<and> (\<forall>x \<in> set xs. x < NPROC) \<and> k_rqsize s i = int (length xs)"

lemma dseg_app: "dseg n p a (xs @ y # ys) b \<longleftrightarrow> dseg n p a xs (PProc y) \<and> dseg n p (PProc y) ys b"
  by (induction xs arbitrary: a) auto

lemma dseg_cong:
  assumes "n a = n' a" "p b = p' b"
    and "\<And>x. x \<in> set xs \<Longrightarrow> n (PProc x) = n' (PProc x) \<and> p (PProc x) = p' (PProc x)"
  shows "dseg n p a xs b = dseg n' p' a xs b"
  using assms by (induction xs arbitrary: a) auto

lemma dseg_last: "dseg n p a xs b \<Longrightarrow> p b = (if xs = [] then a else PProc (last xs))"
  by (induction xs arbitrary: a) auto

lemma dseg_enq:
  assumes "dseg n p (PHead i) xs (PHead i)" "y \<notin> set xs" "distinct xs"
  shows "dseg (n(PProc y := PHead i, p (PHead i) := PProc y)) (p(PProc y := p (PHead i), PHead i := PProc y))
           (PHead i) (xs @ [y]) (PHead i)"
proof (cases xs rule: rev_cases)
  case Nil
  with assms show ?thesis by simp
next
  case (snoc ys t)
  let ?n = "n(PProc y := PHead i, PProc t := PProc y)"
  let ?p = "p(PProc y := PProc t, PHead i := PProc y)"
  from assms snoc have seg: "dseg n p (PHead i) ys (PProc t)" and pt: "p (PHead i) = PProc t"
    by (auto simp: dseg_app)
  have "dseg ?n ?p (PHead i) ys (PProc t)"
    using seg assms(2,3) snoc by (subst dseg_cong [of _ _ n _ _ p]) auto
  with pt snoc assms(2) show ?thesis
    by (auto simp: dseg_app)
qed

lemma dseg_deq:
  assumes "dseg n p (PHead i) (x # xs) (PHead i)" "distinct (x # xs)"
  shows "dseg (n(PHead i := n (PProc x), PProc x := PNull)) (p(n (PProc x) := PHead i, PProc x := PNull))
           (PHead i) xs (PHead i)"
proof (cases xs)
  case Nil
  with assms show ?thesis by simp
next
  case (Cons y ys)
  with assms have "dseg n p (PProc y) ys (PHead i)" "n (PProc x) = PProc y" by auto
  then have "dseg (n(PHead i := PProc y, PProc x := PNull)) (p(PProc y := PHead i, PProc x := PNull)) (PProc y) ys (PHead i)"
    using assms(2) Cons by (subst dseg_cong [of _ _ n _ _ p]) auto
  with Cons assms \<open>n (PProc x) = PProc y\<close> show ?thesis by auto
qed

text \<open>The search: with enough rounds it ends, and it panics exactly on a repeated identifier.\<close>

lemma enqueue_scan_run:
  assumes "dseg (nxt s) (prv s) a xs (PHead i)" "length xs < fuel"
  shows "enqueue_scan fuel (PHead i) pid (nxt s a) s =
     (if pid \<in> pid_of s ` set xs then Panic ''enqueue: push same pid'' else Ok ())"
  using assms
proof (induction xs arbitrary: a fuel)
  case Nil
  then show ?case by (cases fuel) auto
next
  case (Cons x xs)
  then obtain k where k: "fuel = Suc k" "length xs < k" by (cases fuel) auto
  have "enqueue_scan k (PHead i) pid (nxt s (PProc x)) s =
     (if pid \<in> pid_of s ` set xs then Panic ''enqueue: push same pid'' else Ok ())"
    using Cons.prems(1) k(2) by (intro Cons.IH) auto
  with Cons.prems k(1) show ?case by auto
qed

lemma distinct_bound: "distinct xs \<Longrightarrow> (\<forall>x \<in> set xs. x < n) \<Longrightarrow> length xs \<le> (n :: nat)"
  using card_mono [of "{..<n}" "set xs"] by (auto simp: distinct_card)

section \<open>Effect of enqueue and dequeue\<close>

text \<open>What the queue operations never touch: everything of a process but its two links.\<close>

definition core :: "'z sched_state_scheme \<Rightarrow> pref \<Rightarrow> proc" where
  "core s q = (k_procs s q)\<lparr>p_next := PNull, p_prev := PNull\<rparr>"

lemma core_eqD:
  assumes "core s' q = core s q"
  shows "p_state (k_procs s' q) = p_state (k_procs s q)" "p_pid (k_procs s' q) = p_pid (k_procs s q)"
    "p_chan (k_procs s' q) = p_chan (k_procs s q)" "p_parent (k_procs s' q) = p_parent (k_procs s q)"
    "p_name (k_procs s' q) = p_name (k_procs s q)" "p_killed (k_procs s' q) = p_killed (k_procs s q)"
    "p_context (k_procs s' q) = p_context (k_procs s q)"
  using assms unfolding core_def by (cases "k_procs s q"; cases "k_procs s' q"; simp)+

definition enq_st :: "nat \<Rightarrow> nat \<Rightarrow> 'z sched_state_scheme \<Rightarrow> 'z sched_state_scheme" where
  "enq_st i y s =
     (let tail = prv s (PHead i);
          s = s\<lparr>k_rqsize := (k_rqsize s)(i := k_rqsize s i + 1)\<rparr>;
          s = upd_proc (PProc y) (\<lambda>x. x\<lparr>p_prev := tail\<rparr>) s;
          s = upd_proc (PProc y) (\<lambda>x. x\<lparr>p_next := PHead i\<rparr>) s;
          s = upd_proc (PHead i) (\<lambda>x. x\<lparr>p_prev := PProc y\<rparr>) s
      in upd_proc tail (\<lambda>x. x\<lparr>p_next := PProc y\<rparr>) s)"

definition deq_st :: "nat \<Rightarrow> nat \<Rightarrow> 'z sched_state_scheme \<Rightarrow> 'z sched_state_scheme" where
  "deq_st i x s =
     (let s = upd_proc (PHead i) (\<lambda>h. h\<lparr>p_next := nxt s (PProc x)\<rparr>) s;
          s = upd_proc (nxt s (PProc x)) (\<lambda>h. h\<lparr>p_prev := PHead i\<rparr>) s;
          s = upd_proc (PProc x) (\<lambda>h. h\<lparr>p_next := PNull\<rparr>) s;
          s = upd_proc (PProc x) (\<lambda>h. h\<lparr>p_prev := PNull\<rparr>) s
      in s\<lparr>k_rqsize := (k_rqsize s)(i := k_rqsize s i - 1)\<rparr>)"

lemma core_enq [simp]: "core (enq_st i y s) = core s"
  by (auto simp: core_def enq_st_def Let_def upd_proc_def fun_eq_iff)

lemma core_deq [simp]: "core (deq_st i y s) = core s"
  by (auto simp: core_def deq_st_def Let_def upd_proc_def fun_eq_iff)

lemma links_enq:
  assumes "prv s (PHead i) \<noteq> PProc y"
  shows "nxt (enq_st i y s) = (nxt s)(PProc y := PHead i, prv s (PHead i) := PProc y)"
    "prv (enq_st i y s) = (prv s)(PProc y := prv s (PHead i), PHead i := PProc y)"
  using assms by (auto simp: enq_st_def Let_def upd_proc_def fun_eq_iff)

lemma links_deq:
  assumes "nxt s (PProc x) \<noteq> PProc x"
  shows "nxt (deq_st i x s) = (nxt s)(PHead i := nxt s (PProc x), PProc x := PNull)"
    "prv (deq_st i x s) = (prv s)(nxt s (PProc x) := PHead i, PProc x := PNull)"
  using assms by (auto simp: deq_st_def Let_def upd_proc_def fun_eq_iff)

lemma rqsize_enq_deq [simp]:
  "k_rqsize (enq_st i y s) = (k_rqsize s)(i := k_rqsize s i + 1)"
  "k_rqsize (deq_st i y s) = (k_rqsize s)(i := k_rqsize s i - 1)"
  by (simp_all add: enq_st_def deq_st_def Let_def)

lemma machine_enq_deq [simp]:
  "m_cpus (enq_st i y s) = m_cpus s" "m_locks (enq_st i y s) = m_locks s" "m_ncpu (enq_st i y s) = m_ncpu s"
  "m_cpus (deq_st i y s) = m_cpus s" "m_locks (deq_st i y s) = m_locks s" "m_ncpu (deq_st i y s) = m_ncpu s"
  "m_hw (enq_st i y s) = m_hw s" "m_hw (deq_st i y s) = m_hw s"
  "k_mrq (enq_st i y s) = k_mrq s" "k_mrq (deq_st i y s) = k_mrq s"
  by (simp_all add: enq_st_def deq_st_def Let_def)

lemma rq_rep_tail:
  assumes "rq_rep s i xs"
  shows "prv s (PHead i) = (if xs = [] then PHead i else PProc (last xs))"
  using assms by (auto simp: rq_rep_def dest: dseg_last)

lemma rq_rep_enq:
  assumes "rq_rep s i xs" "y \<notin> set xs" "y < NPROC"
  shows "rq_rep (enq_st i y s) i (xs @ [y])"
proof -
  have "prv s (PHead i) \<noteq> PProc y"
    using assms(2) rq_rep_tail [OF assms(1)] by auto
  with assms show ?thesis
    using dseg_enq [of "nxt s" "prv s" i xs y] by (simp add: rq_rep_def links_enq)
qed

lemma rq_rep_deq:
  assumes "rq_rep s i (x # xs)"
  shows "rq_rep (deq_st i x s) i xs"
proof -
  have "nxt s (PProc x) \<noteq> PProc x"
    using assms by (cases xs) (auto simp: rq_rep_def)
  with assms show ?thesis
    using dseg_deq [of "nxt s" "prv s" i x xs] by (simp add: rq_rep_def links_deq)
qed

text \<open>Other queues are unaffected, as long as no process is on two of them.\<close>

lemma rq_rep_enq_other:
  assumes "rq_rep s i xs" "rq_rep s j zs" "i \<noteq> j" "set xs \<inter> set zs = {}" "y \<notin> set xs" "y \<notin> set zs"
  shows "rq_rep (enq_st i y s) j zs"
proof -
  have nt: "prv s (PHead i) \<noteq> PProc y"
    using assms(5) rq_rep_tail [OF assms(1)] by auto
  have "z \<noteq> last xs" if "z \<in> set zs" "xs \<noteq> []" for z
    using that assms(4) by (metis disjoint_iff last_in_set)
  then show ?thesis
    using assms(2,3,6) rq_rep_tail [OF assms(1)]
    unfolding rq_rep_def links_enq [OF nt] by (subst dseg_cong [of _ _ "nxt s" _ _ "prv s"]) auto
qed

lemma rq_rep_deq_other:
  assumes "rq_rep s i (x # xs)" "rq_rep s j zs" "i \<noteq> j" "set (x # xs) \<inter> set zs = {}"
  shows "rq_rep (deq_st i x s) j zs"
proof -
  have nx: "nxt s (PProc x) = (case xs of [] \<Rightarrow> PHead i | y # ys \<Rightarrow> PProc y)"
    using assms(1) by (cases xs) (auto simp: rq_rep_def)
  have ne: "nxt s (PProc x) \<noteq> PProc x"
    using assms(1) by (cases xs) (auto simp: rq_rep_def)
  show ?thesis
    using assms(2-4) nx
    unfolding rq_rep_def links_deq [OF ne]
    by (subst dseg_cong [of _ _ "nxt s" _ _ "prv s"]) (auto split: list.splits)
qed

text \<open>A lock taken and given back around code that does not look at the locks.\<close>

definition cycle_st :: "uchar \<Rightarrow> nat \<Rightarrow> lockid \<Rightarrow> 'z machine_scheme \<Rightarrow> 'z machine_scheme" where
  "cycle_st a c l s = rel_st a c l (acq_st a c l s)"

definition lock_free :: "uchar \<Rightarrow> nat \<Rightarrow> lockid \<Rightarrow> 'z machine_scheme \<Rightarrow> bool" where
  "lock_free a c l s \<longleftrightarrow> cli_ok a c s \<and> lk_locked (m_locks s l) = 0 \<and> lk_cpu (m_locks s l) = None"

lemma lock_free_eq: "lock_eq s t \<Longrightarrow> lock_free a c l t = lock_free a c l s"
  by (simp add: lock_free_def lock_eq_cli_ok) (simp add: lock_eq_def)

lemma lock_eq_cycle: "lock_free a c l s \<Longrightarrow> lock_eq s (cycle_st a c l s)"
  unfolding cycle_st_def lock_free_def by (rule critical_section(2)) auto

lemma m_ncpu_st [simp]:
  "m_ncpu (acq_st a c l s) = m_ncpu s" "m_ncpu (rel_st a c l s) = m_ncpu s" "m_ncpu (cycle_st a c l s) = m_ncpu s"
  by (simp_all add: cycle_st_def acq_st_def rel_st_def pop_st_def push_st_def save_st_def)

lemma cycle_frame [simp]:
  "k_procs (cycle_st a c l s) = k_procs s" "k_rqsize (cycle_st a c l s) = k_rqsize s"
  "k_mrq (cycle_st a c l s) = k_mrq s"
  by (simp_all add: cycle_st_def)

lemma rel_upd_proc: "rel_st a c l (upd_proc p f s) = upd_proc p f (rel_st a c l s)"
  by (simp add: rel_st_def pop_st_def machine_defs upd_proc_def)

lemma rq_rep_cong: "k_procs t = k_procs s \<Longrightarrow> k_rqsize t = k_rqsize s \<Longrightarrow> rq_rep t i xs = rq_rep s i xs"
  by (simp add: rq_rep_def)

lemma core_cong: "k_procs t = k_procs s \<Longrightarrow> core t = core s"
  by (simp add: core_def fun_eq_iff)

lemma core_lock [simp]:
  "core (cycle_st a c l s) = core s" "core (acq_st a c l s) = core s" "core (rel_st a c l s) = core s"
  by (rule core_cong; simp)+

lemma rq_rep_cycle [simp]: "rq_rep (cycle_st a c l s) i xs = rq_rep s i xs"
  by (rule rq_rep_cong) simp_all

lemma enqueue_run:
  assumes "rq_rep s i xs"
  shows "enqueue i (PProc y) s =
     (if pid_of s y \<in> pid_of s ` set xs then Panic ''enqueue: push same pid'' else Ok (enq_st i y s))"
proof -
  have seg: "dseg (nxt s) (prv s) (PHead i) xs (PHead i)" "length xs \<le> NPROC"
    using assms distinct_bound [of xs NPROC] by (auto simp: rq_rep_def)
  then have "enqueue_scan (NPROC + 1) (PHead i) (pid_of s y) (nxt s (PHead i)) s =
     (if pid_of s y \<in> pid_of s ` set xs then Panic ''enqueue: push same pid'' else Ok ())"
    by (intro enqueue_scan_run) auto
  moreover have "prv s (PHead i) \<noteq> PNull"
    using rq_rep_tail [OF assms] by auto
  ultimately show ?thesis
    by (simp add: enqueue_def enq_st_def Let_def del: enqueue_scan.simps)
qed

lemma dequeue_run:
  assumes "rq_rep s i (x # xs)" "lock_free a c PtableLock s"
  shows "dequeue a i s = Ok (PProc x, deq_st i x (cycle_st a c PtableLock s))"
proof -
  let ?u = "acq_st a c PtableLock s"
  have nx: "nxt s (PHead i) = PProc x" "nxt s (PProc x) \<noteq> PNull" "nxt s (PProc x) \<noteq> PProc x" "k_rqsize s i \<noteq> 0"
    using assms(1) by (cases xs; auto simp: rq_rep_def)+
  define v where "v = upd_proc (PProc x) (\<lambda>h. h\<lparr>p_prev := PNull\<rparr>) (upd_proc (PProc x) (\<lambda>h. h\<lparr>p_next := PNull\<rparr>)
      (upd_proc (nxt (upd_proc (PHead i) (\<lambda>h. h\<lparr>p_next := nxt ?u (PProc x)\<rparr>) ?u) (PProc x)) (\<lambda>h. h\<lparr>p_prev := PHead i\<rparr>)
      (upd_proc (PHead i) (\<lambda>h. h\<lparr>p_next := nxt ?u (PProc x)\<rparr>) ?u)))"
  have "lock_eq ?u v"
    unfolding v_def by (intro lock_eqI_machine) auto
  then have "release a PtableLock v = Ok (rel_st a c PtableLock v)"
    using assms(2) critical_section(1) by (auto simp: lock_free_def)
  moreover have "acquire a PtableLock s = Ok ?u"
    using assms(2) by (intro acquire_Ok) (auto simp: lock_free_def)
  ultimately show ?thesis
    using nx by (simp add: dequeue_def Let_def v_def rel_upd_proc deq_st_def cycle_st_def)
qed

lemma dequeue_empty: "rq_rep s i [] \<Longrightarrow> dequeue a i s = Panic ''dequeue : empty runqueue''"
  by (simp add: dequeue_def rq_rep_def)

text \<open>The run queue of one processor provides the queue interface: an element may be added if
  its identifier differs from those in the queue.\<close>

definition rq_holds :: "uchar \<Rightarrow> nat \<Rightarrow> nat \<Rightarrow> (nat \<Rightarrow> int) \<Rightarrow> 'z sched_state_scheme \<Rightarrow> pref list \<Rightarrow> bool" where
  "rq_holds a c i f s ps \<longleftrightarrow>
     (\<exists>xs. ps = map PProc xs \<and> rq_rep s i xs) \<and> lock_free a c PtableLock s \<and> (\<forall>x. pid_of s x = f x)"

definition rq_adm :: "(nat \<Rightarrow> int) \<Rightarrow> pref list \<Rightarrow> pref \<Rightarrow> bool" where
  "rq_adm f ps p \<longleftrightarrow> (\<exists>x < NPROC. p = PProc x \<and> (\<forall>y. PProc y \<in> set ps \<longrightarrow> f y \<noteq> f x))"

lemma lock_eq_enq_deq: "lock_eq s (enq_st i y s)" "lock_eq s (deq_st i y s)"
  by (rule lock_eqI_machine; simp)+

interpretation rq: fifo "enqueue i" "dequeue a i" "rq_holds a c i f" "rq_adm f" for a c i f
proof
  fix s :: "'a sched_state_scheme" and ps p
  assume rep: "rq_holds a c i f s ps" and adm: "rq_adm f ps p"
  from rep obtain xs where xs: "ps = map PProc xs" "rq_rep s i xs" by (auto simp: rq_holds_def)
  from adm xs obtain x where x: "x < NPROC" "p = PProc x" "\<forall>y \<in> set xs. f y \<noteq> f x"
    by (auto simp: rq_adm_def)
  have fx: "pid_of s y = f y" for y using rep by (simp add: rq_holds_def)
  then have "enqueue i p s = Ok (enq_st i x s)"
    using x by (auto simp: enqueue_run [OF xs(2)])
  moreover have "rq_holds a c i f (enq_st i x s) (ps @ [p])"
    using rep x xs fx rq_rep_enq [OF xs(2)] core_eqD(2) [of "enq_st i x s" _ s]
    by (auto simp: rq_holds_def lock_free_eq [OF lock_eq_enq_deq(1)] intro!: exI [of _ "xs @ [x]"])
  ultimately show "\<exists>t. enqueue i p s = Ok t \<and> rq_holds a c i f t (ps @ [p])" by blast
next
  fix s :: "'a sched_state_scheme" and p ps
  assume rep: "rq_holds a c i f s (p # ps)"
  then obtain x xs where x: "p = PProc x" "ps = map PProc xs" "rq_rep s i (x # xs)"
    by (auto simp: rq_holds_def Cons_eq_map_conv)
  have lf: "lock_free a c PtableLock s" using rep by (simp add: rq_holds_def)
  let ?t = "deq_st i x (cycle_st a c PtableLock s)"
  have "rq_rep (cycle_st a c PtableLock s) i (x # xs)"
    using x(3) by simp
  then have "rq_rep ?t i xs" by (rule rq_rep_deq)
  moreover have "lock_eq s ?t" using lock_eq_cycle [OF lf] lock_eq_enq_deq(2) lock_eq_trans by blast
  moreover have "core ?t = core s" by simp
  ultimately have "rq_holds a c i f ?t ps"
    using rep lf x(2) core_eqD(2) [of ?t _ s] lock_free_eq [of s ?t a c PtableLock]
    by (auto simp: rq_holds_def)
  with dequeue_run [OF x(3) lf] x(1) show "\<exists>t. dequeue a i s = Ok (p, t) \<and> rq_holds a c i f t ps" by blast
next
  fix s :: "'a sched_state_scheme"
  assume "rq_holds a c i f s []"
  then show "\<not> is_Ok (dequeue a i s)" by (auto simp: rq_holds_def dequeue_empty)
qed

section \<open>Work stealing\<close>

text \<open>All run queues at once: \<open>Q j\<close> lists the processes of queue \<open>j\<close>. No process is in two
  queues, and no two queued processes have the same identifier.\<close>

definition rq_all :: "'z sched_state_scheme \<Rightarrow> (nat \<Rightarrow> nat list) \<Rightarrow> bool" where
  "rq_all s Q \<longleftrightarrow>
     (\<forall>j < m_ncpu s. rq_rep s j (Q j)) \<and>
     (\<forall>i < m_ncpu s. \<forall>j < m_ncpu s. i \<noteq> j \<longrightarrow> set (Q i) \<inter> set (Q j) = {}) \<and>
     inj_on (pid_of s) (\<Union>j < m_ncpu s. set (Q j))"

definition longest_other :: "nat \<Rightarrow> nat \<Rightarrow> (nat \<Rightarrow> nat list) \<Rightarrow> nat \<Rightarrow> bool" where
  "longest_other n cur Q v \<longleftrightarrow>
     v < n \<and> v \<noteq> cur \<and> Q v \<noteq> [] \<and> (\<forall>j < n. j \<noteq> cur \<longrightarrow> length (Q j) \<le> length (Q v)) \<and>
     (\<forall>j < v. j \<noteq> cur \<longrightarrow> length (Q j) < length (Q v))"

lemma steal_scan_append:
  "steal_scan (xs @ ys) cur tgt mx s = (case steal_scan xs cur tgt mx s of (t, m) \<Rightarrow> steal_scan ys cur t m s)"
  by (induction xs arbitrary: tgt mx) auto

lemma steal_scan_spec:
  "case steal_scan [0..<n] cur None 0 s of (t, m) \<Rightarrow>
     (t = None \<and> m = 0 \<and> (\<forall>j < n. j \<noteq> cur \<longrightarrow> k_rqsize s j \<le> 0)) \<or>
     (\<exists>v < n. t = Some v \<and> v \<noteq> cur \<and> m = k_rqsize s v \<and> 0 < m \<and>
        (\<forall>j < n. j \<noteq> cur \<longrightarrow> k_rqsize s j \<le> m) \<and> (\<forall>j < v. j \<noteq> cur \<longrightarrow> k_rqsize s j < m))"
proof (induction n)
  case 0
  then show ?case by simp
next
  case (Suc n)
  obtain t m where tm: "steal_scan [0..<n] cur None 0 s = (t, m)" by force
  with Suc show ?case
    by (auto simp: steal_scan_append less_Suc_eq)
qed

lemma steal_scan_longest:
  assumes "rq_all s Q"
  shows "case fst (steal_scan [0..<m_ncpu s] cur None 0 s) of
      None \<Rightarrow> \<forall>v. \<not> longest_other (m_ncpu s) cur Q v
    | Some v \<Rightarrow> longest_other (m_ncpu s) cur Q v"
proof -
  have sz: "k_rqsize s j = int (length (Q j))" if "j < m_ncpu s" for j
    using assms that by (auto simp: rq_all_def rq_rep_def)
  obtain t m where "steal_scan [0..<m_ncpu s] cur None 0 s = (t, m)" by force
  with steal_scan_spec [of "m_ncpu s" cur s] sz show ?thesis
    by (auto simp: longest_other_def split: option.splits)
qed

lemma longest_other_unique: "longest_other n cur Q v \<Longrightarrow> longest_other n cur Q w \<Longrightarrow> v = w"
  unfolding longest_other_def by (cases v w rule: linorder_cases) (meson leD less_trans)+

lemma rq_all_cong:
  "k_procs t = k_procs s \<Longrightarrow> k_rqsize t = k_rqsize s \<Longrightarrow> m_ncpu t = m_ncpu s \<Longrightarrow> rq_all t Q = rq_all s Q"
  by (simp add: rq_all_def rq_rep_def)

lemma rq_all_deq:
  assumes all: "rq_all s Q" and i: "i < m_ncpu s" and q: "Q i = x # xs"
  shows "rq_all (deq_st i x s) (Q(i := xs))"
    and "x \<notin> (\<Union>j < m_ncpu s. set ((Q(i := xs)) j))"
    and "pid_of s x \<notin> pid_of s ` (\<Union>j < m_ncpu s. set ((Q(i := xs)) j))" "x < NPROC"
proof -
  have rep: "rq_rep s i (x # xs)" using all i q unfolding rq_all_def by metis
  have pid: "pid_of (deq_st i x s) y = pid_of s y" for y
    by (rule core_eqD(2)) simp
  have dis: "set (x # xs) \<inter> set (Q j) = {}" if "j < m_ncpu s" "j \<noteq> i" for j
    using all i q that unfolding rq_all_def by metis
  have sub: "(\<Union>j < m_ncpu s. set ((Q(i := xs)) j)) \<subseteq> (\<Union>j < m_ncpu s. set (Q j))"
    using i q by (auto split: if_splits)
  have inj: "inj_on (pid_of s) (\<Union>j < m_ncpu s. set (Q j))" using all by (simp add: rq_all_def)
  have "rq_rep (deq_st i x s) j ((Q(i := xs)) j)" if "j < m_ncpu s" for j
    using rq_rep_deq [OF rep] rq_rep_deq_other [OF rep] dis all that by (auto simp: rq_all_def)
  moreover have "set ((Q(i := xs)) k) \<inter> set ((Q(i := xs)) j) = {}" if "k < m_ncpu s" "j < m_ncpu s" "k \<noteq> j" for k j
    using dis [of j] dis [of k] all that by (auto simp: rq_all_def)
  ultimately show "rq_all (deq_st i x s) (Q(i := xs))"
    using inj_on_subset [OF inj sub] by (simp add: rq_all_def pid)
  show nx: "x \<notin> (\<Union>j < m_ncpu s. set ((Q(i := xs)) j))"
    using rep dis by (auto simp: rq_rep_def split: if_splits)
  have "x \<in> (\<Union>j < m_ncpu s. set (Q j))" using i q by force
  then show "pid_of s x \<notin> pid_of s ` (\<Union>j < m_ncpu s. set ((Q(i := xs)) j))"
    using nx inj_on_image_mem_iff [OF inj _ sub] by simp
  show "x < NPROC" using rep by (simp add: rq_rep_def)
qed

lemma rq_all_enq:
  assumes all: "rq_all s Q" and i: "i < m_ncpu s" and y: "y < NPROC" "y \<notin> (\<Union>j < m_ncpu s. set (Q j))"
    and pid: "pid_of s y \<notin> pid_of s ` (\<Union>j < m_ncpu s. set (Q j))"
  shows "enqueue i (PProc y) s = Ok (enq_st i y s)" "rq_all (enq_st i y s) (Q(i := Q i @ [y]))"
proof -
  have rep: "rq_rep s j (Q j)" if "j < m_ncpu s" for j using all that by (simp add: rq_all_def)
  have dis: "set (Q k) \<inter> set (Q j) = {}" if "k < m_ncpu s" "j < m_ncpu s" "k \<noteq> j" for k j
    using all that by (simp add: rq_all_def)
  have pids: "pid_of (enq_st i y s) z = pid_of s z" for z
    by (rule core_eqD(2)) simp
  show "enqueue i (PProc y) s = Ok (enq_st i y s)"
    using pid i by (auto simp: enqueue_run [OF rep [OF i]])
  have "rq_rep (enq_st i y s) j ((Q(i := Q i @ [y])) j)" if "j < m_ncpu s" for j
    using rq_rep_enq [OF rep [OF i]] rq_rep_enq_other [OF rep [OF i] rep [OF that]] dis [OF i that] y i that by auto
  moreover have "(\<Union>j < m_ncpu s. set ((Q(i := Q i @ [y])) j)) = insert y (\<Union>j < m_ncpu s. set (Q j))"
    using i by (auto split: if_splits)
  moreover have "inj_on (pid_of s) (insert y (\<Union>j < m_ncpu s. set (Q j)))"
    using all pid y(2) by (simp add: rq_all_def)
  ultimately show "rq_all (enq_st i y s) (Q(i := Q i @ [y]))"
    using dis y(2) i by (simp add: rq_all_def pids)
qed

lemma lock_free_acq: "lock_free a c l s \<Longrightarrow> l \<noteq> l' \<Longrightarrow> lock_free a c l (acq_st a c l' s)"
  by (simp add: lock_free_def cli_ok_acq m_locks_ops)

lemma locked_section:
  assumes "lock_free a c l s" "lock_eq (acq_st a c l s) t"
  shows "acquire a l s = Ok (acq_st a c l s)" "release a l t = Ok (rel_st a c l t)" "lock_eq s (rel_st a c l t)"
  using assms critical_section [of a c s l t] acquire_Ok [of a c s l] by (auto simp: lock_free_def)

lemma work_steal_some:
  assumes all: "rq_all s Q" and cur: "cur < m_ncpu s" and v: "v < m_ncpu s" "v \<noteq> cur" "Q v = x # xs"
    and tgt: "fst (steal_scan [0..<m_ncpu s] cur None 0 s) = Some v" "v \<noteq> 0"
    and free: "lock_free a c PtableLock s" "lock_free a c (RqLock v) s"
  shows "\<exists>s'. work_steal a cur s = Ok s' \<and> lock_eq s s' \<and> core s' = core s \<and>
     rq_all s' (Q(v := xs, cur := Q cur @ [x]))"
proof -
  let ?u = "acq_st a c (RqLock v) s"
  let ?d = "deq_st v x (cycle_st a c PtableLock ?u)"
  let ?w = "acq_st a c PtableLock ?d"
  let ?e = "enq_st cur x ?w"
  let ?t = "rel_st a c PtableLock ?e"
  have allu: "rq_all (cycle_st a c PtableLock ?u) Q"
    using all by (subst rq_all_cong [of _ s]) simp_all
  have n: "m_ncpu (cycle_st a c PtableLock ?u) = m_ncpu s" by simp
  note deq = rq_all_deq [OF allu, unfolded n, OF v(1) v(3)]
  have rep: "rq_rep ?u v (x # xs)"
    using all v by (subst rq_rep_cong [of _ s]) (auto simp: rq_all_def)
  have fu: "lock_free a c PtableLock ?u" using free(1) by (intro lock_free_acq) auto
  have ud: "lock_eq ?u ?d" using lock_eq_cycle [OF fu] lock_eq_enq_deq(2) lock_eq_trans by blast
  have fd: "lock_free a c PtableLock ?d" using fu lock_free_eq [OF ud] by simp
  note sec = locked_section [OF fd lock_eq_enq_deq(1) [of _ cur x]]
  have pid: "pid_of ?w y = pid_of s y" for y
    by (rule core_eqD(2)) simp
  have w: "rq_all ?w (Q(v := xs))" using deq(1) by (subst rq_all_cong [of _ ?d]) simp_all
  have "enqueue cur (PProc x) ?w = Ok ?e" "rq_all ?e ((Q(v := xs))(cur := (Q(v := xs)) cur @ [x]))"
    using rq_all_enq [OF w, of cur x] deq(2-4) cur n pid by (simp_all add: cycle_st_def)
  moreover have "lock_eq ?u ?t" using ud sec(3) lock_eq_trans by blast
  note out = locked_section [OF free(2) this]
  have "k_rqsize ?u v \<noteq> 0" using rep by (simp add: rq_rep_def)
  ultimately have "work_steal a cur s = Ok (rel_st a c (RqLock v) ?t)"
    using tgt v(2) out sec dequeue_run [OF rep fu] by (simp add: work_steal_def)
  moreover have "rq_all (rel_st a c (RqLock v) ?t) (Q(v := xs, cur := Q cur @ [x]))"
    using \<open>rq_all ?e _\<close> v(2) by (subst rq_all_cong [of _ ?e]) simp_all
  moreover have "core (rel_st a c (RqLock v) ?t) = core s" by simp
  ultimately show ?thesis using out(3) by blast
qed

section \<open>Initialisation\<close>

lemma init_queue_run:
  assumes "lock_free a c PtableLock s" "lock_free a c (RqLock i) s"
  shows "\<exists>t. init_queue a i s = Ok t \<and> lock_eq s t \<and> rq_rep t i [] \<and>
     (\<forall>q. q \<noteq> PHead i \<longrightarrow> k_procs t q = k_procs s q) \<and> (\<forall>j. j \<noteq> i \<longrightarrow> k_rqsize t j = k_rqsize s j) \<and>
     p_pid (k_procs t (PHead i)) = - (int i + 1)"
proof -
  let ?u = "acq_st a c (RqLock i) s"
  let ?f = "\<lambda>h. h\<lparr>p_pid := (-1) * (int i + 1), p_next := PHead i, p_prev := PHead i\<rparr>"
  let ?v = "upd_proc (PHead i) ?f (acq_st a c PtableLock ?u)"
  let ?w = "?v\<lparr>k_rqsize := (k_rqsize ?v)(i := 0)\<rparr>"
  have fu: "lock_free a c PtableLock ?u" using assms(1) by (intro lock_free_acq) auto
  have "lock_eq (acq_st a c PtableLock ?u) ?w" by (rule lock_eqI_machine) simp_all
  note inner = locked_section [OF fu this]
  note outer = locked_section [OF assms(2) inner(3)]
  have "init_queue a i s = Ok (rel_st a c (RqLock i) (rel_st a c PtableLock ?w))"
    using inner outer by (simp add: init_queue_def Let_def)
  then show ?thesis using outer(3) by (simp add: rq_rep_def)
qed

lemma init_queues_run:
  assumes "\<forall>l. lock_free a c l s" "distinct js"
  shows "\<exists>t. init_queues a js s = Ok t \<and> lock_eq s t \<and> (\<forall>i \<in> set js. rq_rep t i []) \<and>
     (\<forall>q. q \<notin> PHead ` set js \<longrightarrow> k_procs t q = k_procs s q) \<and> (\<forall>j. j \<notin> set js \<longrightarrow> k_rqsize t j = k_rqsize s j)"
  using assms
proof (induction js arbitrary: s)
  case Nil
  then show ?case by simp
next
  case (Cons i js)
  then obtain t where t: "init_queue a i s = Ok t" "lock_eq s t" "rq_rep t i []"
      "\<forall>q. q \<noteq> PHead i \<longrightarrow> k_procs t q = k_procs s q" "\<forall>j. j \<noteq> i \<longrightarrow> k_rqsize t j = k_rqsize s j"
    using init_queue_run [of a c s i] by auto
  have "\<forall>l. lock_free a c l t" using Cons.prems(1) lock_free_eq [OF t(2)] by auto
  then obtain u where u: "init_queues a js t = Ok u" "lock_eq t u" "\<forall>i \<in> set js. rq_rep u i []"
      "\<forall>q. q \<notin> PHead ` set js \<longrightarrow> k_procs u q = k_procs t q" "\<forall>j. j \<notin> set js \<longrightarrow> k_rqsize u j = k_rqsize t j"
    using Cons.IH [of t] Cons.prems(2) by auto
  have "rq_rep u i []" using t(3) u(4,5) Cons.prems(2) by (auto simp: rq_rep_def)
  with t u show ?case by (auto intro: lock_eq_trans)
qed

section \<open>Properties\<close>

text \<open>A state with empty queues in which slot \<open>n\<close> of the process table has identifier \<open>n + 1\<close>.\<close>

definition demo_procs :: "pref \<Rightarrow> proc" where
  "demo_procs q = (case q of
     PNull \<Rightarrow> bss_proc
   | PProc n \<Rightarrow> bss_proc\<lparr>p_pid := int n + 1, p_state := RUNNABLE\<rparr>
   | PHead i \<Rightarrow> bss_proc\<lparr>p_pid := - (int i + 1), p_next := PHead i, p_prev := PHead i\<rparr>)"

definition demo_state :: sched_state where
  "demo_state = (bss_state 2 True)\<lparr>k_procs := demo_procs\<rparr>"

lemma demo_state_ok:
  "rq_rep demo_state i []" "lock_free 0 0 l demo_state" "pid_of demo_state x = int x + 1" "m_ncpu demo_state = 2"
proof -
  show "rq_rep demo_state i []" "pid_of demo_state x = int x + 1" "m_ncpu demo_state = 2"
    by (simp_all add: rq_rep_def demo_state_def demo_procs_def bss_state_def)
  have "cli_ok 0 0 demo_state"
    using cli_ok_bss_state(1) cli_ok_cong [of demo_state "bss_state 2 True"] by (simp add: demo_state_def)
  then show "lock_free 0 0 l demo_state"
    by (simp add: lock_free_def) (simp add: demo_state_def bss_state_def bss_lock_def)
qed

lemma demo_all: "rq_all demo_state (\<lambda>_. [])"
  by (simp add: rq_all_def demo_state_ok)

text \<open>
  C1: A run queue delivers processes in the order they were added: from a queue that holds \<open>xs\<close>,
  adding \<open>ys\<close> with \<^verbatim>\<open>enqueue\<close> and then calling \<^verbatim>\<open>dequeue\<close> once per process returns \<open>xs @ ys\<close>
  and leaves the queue empty, whatever the list's links were before.
\<close>

theorem runqueue_fifo:
  assumes "rq_rep s i xs" "lock_free a c PtableLock s" "distinct (map (pid_of s) (xs @ ys))" "\<forall>y \<in> set ys. y < NPROC"
  shows "\<exists>t u. enq_list (enqueue i) (map PProc ys) s = Ok t \<and>
     deq_list (dequeue a i) (length xs + length ys) t = Ok (map PProc (xs @ ys), u) \<and> rq_rep u i []"
proof -
  have adm: "adm_list (rq_adm f) (map PProc xs) (map PProc ys)"
    if "distinct (map f (xs @ ys))" "\<forall>y \<in> set ys. y < NPROC" for f xs ys
    using that
  proof (induction ys arbitrary: xs)
    case (Cons y ys)
    then have "adm_list (rq_adm f) (map PProc (xs @ [y])) (map PProc ys)" by (intro Cons.IH) auto
    moreover have "rq_adm f (map PProc xs) (PProc y)"
      unfolding rq_adm_def using Cons.prems by (intro exI [of _ y]) (auto simp: image_iff)
    ultimately show ?case by simp
  qed simp
  have "rq_holds a c i (pid_of s) s (map PProc xs)"
    using assms(1,2) by (auto simp: rq_holds_def)
  from rq.delivery_order [OF this adm [OF assms(3,4)]] show ?thesis
    by (auto simp: rq_holds_def)
qed

theorem runqueue_fifo_witness:
  "\<exists>t u. enq_list (enqueue 1) [PProc 7, PProc 3] demo_state = Ok t \<and>
     deq_list (dequeue 0 1) 2 t = Ok ([PProc 7, PProc 3], u) \<and> rq_rep u 1 []"
  using runqueue_fifo [OF demo_state_ok(1) demo_state_ok(2), of "[7, 3]" 1] by (simp add: demo_state_ok numeral_2_eq_2)

text \<open>
  C15: \<^verbatim>\<open>enqueue\<close> of a process whose identifier is already in the queue panics and otherwise appends
  it; \<^verbatim>\<open>dequeue\<close> of an empty queue panics and otherwise removes the first process. Neither changes
  anything of a process but its links.
\<close>

theorem runqueue_ops:
  assumes "rq_rep s i xs" "lock_free a c PtableLock s" "y < NPROC"
  shows "(if pid_of s y \<in> pid_of s ` set xs then enqueue i (PProc y) s = Panic ''enqueue: push same pid''
          else \<exists>t. enqueue i (PProc y) s = Ok t \<and> rq_rep t i (xs @ [y]) \<and> core t = core s \<and> lock_eq s t) \<and>
         (case xs of
            [] \<Rightarrow> dequeue a i s = Panic ''dequeue : empty runqueue''
          | x # zs \<Rightarrow> \<exists>t. dequeue a i s = Ok (PProc x, t) \<and> rq_rep t i zs \<and> core t = core s \<and> lock_eq s t)"
proof (rule conjI)
  show "if pid_of s y \<in> pid_of s ` set xs then enqueue i (PProc y) s = Panic ''enqueue: push same pid''
    else \<exists>t. enqueue i (PProc y) s = Ok t \<and> rq_rep t i (xs @ [y]) \<and> core t = core s \<and> lock_eq s t"
    using enqueue_run [OF assms(1), of y] rq_rep_enq [OF assms(1) _ assms(3)] lock_eq_enq_deq(1) [of s i y]
    by (auto simp: image_iff)
  show "case xs of [] \<Rightarrow> dequeue a i s = Panic ''dequeue : empty runqueue''
    | x # zs \<Rightarrow> \<exists>t. dequeue a i s = Ok (PProc x, t) \<and> rq_rep t i zs \<and> core t = core s \<and> lock_eq s t"
  proof (cases xs)
    case Nil
    with assms(1) show ?thesis by (simp add: dequeue_empty)
  next
    case (Cons x zs)
    let ?u = "cycle_st a c PtableLock s"
    have "rq_rep (deq_st i x ?u) i zs" using assms(1) Cons by (intro rq_rep_deq) simp
    moreover have "lock_eq s (deq_st i x ?u)"
      using lock_eq_cycle [OF assms(2)] lock_eq_enq_deq(2) lock_eq_trans by blast
    ultimately show ?thesis using Cons dequeue_run [of s i x zs a c] assms(1,2) by simp
  qed
qed

theorem runqueue_ops_witness:
  "dequeue 0 1 demo_state = Panic ''dequeue : empty runqueue'' \<and>
   (\<exists>t. enqueue 1 (PProc 4) demo_state = Ok t \<and> rq_rep t 1 [4] \<and> core t = core demo_state \<and> lock_eq demo_state t)"
  using runqueue_ops [OF demo_state_ok(1) demo_state_ok(2), of 4 1] by simp

text \<open>
  C2: \<^verbatim>\<open>work_steal\<close>, with the locks it takes free, always returns and neither loses nor duplicates a
  process: if the first longest of the other queues is not empty and is not queue 0, its first
  process moves to the end of the caller's queue; otherwise nothing changes at all. In particular
  nothing is ever taken from queue 0 or while queue 0 is the first longest.
\<close>

theorem work_steal_correct:
  assumes "rq_all s Q" "cur < m_ncpu s" "lock_free a c PtableLock s"
    and "\<forall>j < m_ncpu s. j \<noteq> cur \<longrightarrow> lock_free a c (RqLock j) s"
  shows "\<exists>s'. work_steal a cur s = Ok s' \<and> lock_eq s s' \<and> core s' = core s \<and>
     (if \<exists>v > 0. longest_other (m_ncpu s) cur Q v
      then \<exists>v > 0. longest_other (m_ncpu s) cur Q v \<and> rq_all s' (Q(v := tl (Q v), cur := Q cur @ [hd (Q v)]))
      else s' = s)"
proof (cases "fst (steal_scan [0..<m_ncpu s] cur None 0 s)")
  case None
  then show ?thesis using steal_scan_longest [OF assms(1), of cur] by (simp add: work_steal_def)
next
  case (Some v)
  then have v: "longest_other (m_ncpu s) cur Q v" using steal_scan_longest [OF assms(1), of cur] by simp
  show ?thesis
  proof (cases "v = 0")
    case True
    then have "\<not> longest_other (m_ncpu s) cur Q w" if "0 < w" for w
      using that v longest_other_unique [of _ _ _ v w] by auto
    then show ?thesis using Some True by (simp add: work_steal_def cong: conj_cong)
  next
    case False
    obtain x xs where "Q v = x # xs" "v < m_ncpu s" "v \<noteq> cur"
      using v by (auto simp: longest_other_def neq_Nil_conv)
    then obtain s' where "work_steal a cur s = Ok s'" "lock_eq s s'" "core s' = core s"
        "rq_all s' (Q(v := tl (Q v), cur := Q cur @ [hd (Q v)]))"
      using work_steal_some [OF assms(1,2) _ _ _ Some False assms(3)] assms(4) by auto
    moreover have "\<exists>w > 0. longest_other (m_ncpu s) cur Q w" using v False by blast
    ultimately show ?thesis using v False by (simp only: if_True) blast
  qed
qed

definition demo_queued :: sched_state where
  "demo_queued = enq_st 1 5 (enq_st 1 4 demo_state)"

lemma demo_queued_ok:
  "rq_all demo_queued ((\<lambda>_. [])(1 := [4, 5]))" "lock_free 0 0 l demo_queued" "m_ncpu demo_queued = 2"
proof -
  have "rq_all (enq_st 1 4 demo_state) ((\<lambda>_. [])(1 := [4]))"
    using rq_all_enq(2) [OF demo_all, of 1 4] by (simp add: demo_state_ok)
  moreover have "pid_of (enq_st 1 4 demo_state) x = pid_of demo_state x" for x
    by (rule core_eqD(2)) simp
  moreover have "(6::int) \<notin> (\<lambda>a. 5) ` A" for A :: "nat set" by auto
  ultimately show "rq_all demo_queued ((\<lambda>_. [])(1 := [4, 5]))"
    using rq_all_enq(2) [of "enq_st 1 4 demo_state" "(\<lambda>_. [])(1 := [4])" 1 5]
    by (simp add: demo_state_ok demo_queued_def)
  have "lock_eq demo_state demo_queued" by (rule lock_eqI_machine) (simp_all add: demo_queued_def)
  then show "lock_free 0 0 l demo_queued" using lock_free_eq demo_state_ok(2) by blast
  show "m_ncpu demo_queued = 2" by (simp add: demo_queued_def demo_state_ok)
qed

theorem work_steal_correct_witness:
  "\<exists>s'. work_steal 0 0 demo_queued = Ok s' \<and> rq_all s' ((\<lambda>_. [])(1 := [5], 0 := [4]))"
proof -
  have l: "longest_other 2 0 ((\<lambda>_. [])(1 := [4, 5])) v \<longleftrightarrow> v = 1" for v
    by (auto simp: longest_other_def less_Suc_eq numeral_2_eq_2)
  show ?thesis
    using work_steal_correct [OF demo_queued_ok(1) _ demo_queued_ok(2), of 0, unfolded demo_queued_ok(3) l]
    by (auto simp: demo_queued_ok(2))
qed

text \<open>
  C32: \<^verbatim>\<open>runqueueinit\<close>, called with all locks free, returns with every processor's queue empty, the
  log's counter at 0 and every slot of the process table unchanged.
\<close>

theorem runqueueinit_empty:
  assumes "\<forall>l. lock_free a c l s"
  shows "\<exists>t. runqueueinit a s = Ok t \<and> (\<forall>i < m_ncpu s. rq_rep t i []) \<and> k_bufsize t = 0 \<and>
     (\<forall>x. k_procs t (PProc x) = k_procs s (PProc x))"
proof -
  obtain t where t: "init_queues a [0..<m_ncpu s] s = Ok t" "\<forall>i \<in> set [0..<m_ncpu s]. rq_rep t i []"
      "\<forall>q. q \<notin> PHead ` set [0..<m_ncpu s] \<longrightarrow> k_procs t q = k_procs s q"
    using init_queues_run [OF assms, of "[0..<m_ncpu s]"] by auto
  let ?u = "initlock BufsizeLock ''bufsize'' (t\<lparr>k_bufsize := 0\<rparr>)"
  have "k_procs ?u = k_procs t" "k_rqsize ?u = k_rqsize t" "k_bufsize ?u = 0"
    by (simp_all add: initlock_def upd_lock_def)
  moreover have "runqueueinit a s = Ok ?u" using t(1) by (simp add: runqueueinit_def)
  ultimately show ?thesis using t rq_rep_cong [of ?u t] by auto
qed

theorem runqueueinit_empty_witness:
  "\<exists>t. runqueueinit 0 (bss_state 2 True) = Ok t \<and> rq_rep t 0 [] \<and> rq_rep t 1 [] \<and> k_bufsize t = 0 \<and>
     (\<forall>x. k_procs t (PProc x) = bss_proc)"
proof -
  have "\<forall>l. lock_free 0 0 l (bss_state 2 True)"
    using cli_ok_bss_state(1) by (simp add: lock_free_def) (simp add: bss_state_def bss_lock_def)
  from runqueueinit_empty [OF this] show ?thesis by (auto simp: bss_state_def)
qed

end
