(* ===== verification/Sched.thy ===== *)
theory Sched
  imports SchedLog Runqueue
begin

text \<open>
  The scheduler of proc.c. A function that calls \<^verbatim>\<open>swtch\<close> is split there: \<open>f_enter\<close> is its code up to
  the switch, \<open>f_return\<close> the code after it, and what survives on the kernel stack in between is in
  \<^verbatim>\<open>p->context\<close>. The parts of \<^verbatim>\<open>fork\<close>, \<^verbatim>\<open>exit\<close> and \<^verbatim>\<open>wait\<close> that work on the process table are here;
  \<^verbatim>\<open>kfree\<close> and \<^verbatim>\<open>freevm\<close>, which \<^verbatim>\<open>wait\<close> calls, are arguments.
\<close>

section \<open>Switching\<close>

definition switchkvm :: "uchar \<Rightarrow> 'z sched_state_scheme \<Rightarrow> 'z sched_state_scheme" where
  "switchkvm a s = s\<lparr>k_cr3 := (k_cr3 s)(a := k_kpgdir s - KERNBASE)\<rparr>"

definition switchuvm :: "uchar \<Rightarrow> pref \<Rightarrow> 'z sched_state_scheme \<Rightarrow> 'z sched_state_scheme res" where
  "switchuvm a p s =
     (if p = PNull then Panic ''switchuvm: no process''
      else if p_kstack (k_procs s p) = 0 then Panic ''switchuvm: no kstack''
      else if p_pgdir (k_procs s p) = 0 then Panic ''switchuvm: no pgdir''
      else bindR (pushcli a s) (\<lambda>s.
           bindR (mycpu a s) (\<lambda>c.
             let s = s\<lparr>k_esp0 := (k_esp0 s)(c := p_kstack (k_procs s p) + KSTACKSIZE)\<rparr>;
                 s = s\<lparr>k_cr3 := (k_cr3 s)(a := p_pgdir (k_procs s p) - KERNBASE)\<rparr>
             in popcli a s)))"

definition sched_enter :: "uchar \<Rightarrow> (uint \<Rightarrow> nat \<Rightarrow> kcontext) \<Rightarrow> 'z sched_state_scheme \<Rightarrow> 'z sched_state_scheme res" where
  "sched_enter a ctx s =
     bindR (myproc a s) (\<lambda>(p, s).
     bindR (holding a PtableLock s) (\<lambda>(h, s).
       if \<not> h then Panic ''sched ptable.lock'' else
       bindR (mycpu a s) (\<lambda>c.
         if c_ncli (m_cpus s c) \<noteq> 1 then Panic ''sched locks''
         else if p = PNull then Undef ''sched: null pointer''
         else if p_state (k_procs s p) = RUNNING then Panic ''sched running''
         else if readeflags a s AND FL_IF \<noteq> 0 then Panic ''sched interruptible''
         else let intena = c_intena (m_cpus s c)
              in bindR (if k_mrq s
                        then bindR (writelog a (-1) ''test'' PTABLE_LOCK ACQUIRED RELEASED s) (release a PtableLock)
                        else Ok s) (\<lambda>s.
                 Ok (upd_proc p (\<lambda>x. x\<lparr>p_context := ctx intena c\<rparr>) s)))))"

definition sched_return :: "uchar \<Rightarrow> uint \<Rightarrow> nat \<Rightarrow> 'z sched_state_scheme \<Rightarrow> 'z sched_state_scheme res" where
  "sched_return a intena curcpu s =
     (if k_mrq s
      then bindR (writelog a (-1) ''test'' PTABLE_LOCK RELEASED ACQUIRED s) (\<lambda>s.
           bindR (acquire a PtableLock s) (\<lambda>s.
             Ok (upd_cpu curcpu (\<lambda>u. u\<lparr>c_intena := intena\<rparr>) s)))
      else bindR (mycpu a s) (\<lambda>c. Ok (upd_cpu c (\<lambda>u. u\<lparr>c_intena := intena\<rparr>) s)))"

text \<open>Adding a process to this processor's own queue, as \<^verbatim>\<open>yield\<close>, \<^verbatim>\<open>wakeup1\<close> and \<^verbatim>\<open>userinit\<close> do.\<close>

definition enqueue_here :: "uchar \<Rightarrow> pref \<Rightarrow> 'z sched_state_scheme \<Rightarrow> 'z sched_state_scheme res" where
  "enqueue_here a p s =
     bindR (mycpuid a s) (\<lambda>(c, s).
     bindR (acquire a (RqLock c) s) (\<lambda>s.
     bindR (enqueue c p s) (release a (RqLock c))))"

definition set_state :: "pref \<Rightarrow> procstate \<Rightarrow> 'z sched_state_scheme \<Rightarrow> 'z sched_state_scheme" where
  "set_state p st s = upd_proc p (\<lambda>x. x\<lparr>p_state := st\<rparr>) s"

definition log_proc :: "uchar \<Rightarrow> pref \<Rightarrow> events \<Rightarrow> procstate \<Rightarrow> 'z sched_state_scheme \<Rightarrow> 'z sched_state_scheme res" where
  "log_proc a p ev ns s =
     writelog a (p_pid (k_procs s p)) (p_name (k_procs s p)) ev (p_state (k_procs s p)) ns s"

definition log_lock :: "uchar \<Rightarrow> procstate \<Rightarrow> procstate \<Rightarrow> 'z sched_state_scheme \<Rightarrow> 'z sched_state_scheme res" where
  "log_lock a ps ns s = writelog a (-1) ''test'' PTABLE_LOCK ps ns s"

definition yield_enter :: "uchar \<Rightarrow> 'z sched_state_scheme \<Rightarrow> 'z sched_state_scheme res" where
  "yield_enter a s =
     bindR (myproc a s) (\<lambda>(p, s).
       if p = PNull then Undef ''yield: null pointer'' else
       bindR (log_proc a p YIELD RUNNABLE s) (\<lambda>s.
       bindR (log_lock a RELEASED ACQUIRED s) (\<lambda>s.
       bindR (acquire a PtableLock s) (\<lambda>s.
       bindR (if k_mrq s then enqueue_here a p s else Ok s) (\<lambda>s.
         sched_enter a CtxYield (set_state p RUNNABLE s))))))"

definition yield_return :: "uchar \<Rightarrow> uint \<Rightarrow> nat \<Rightarrow> 'z sched_state_scheme \<Rightarrow> 'z sched_state_scheme res" where
  "yield_return a intena curcpu s =
     bindR (sched_return a intena curcpu s) (\<lambda>s.
     bindR (log_lock a ACQUIRED RELEASED s) (release a PtableLock))"

text \<open>The result says whether \<^verbatim>\<open>iinit(ROOTDEV)\<close> and \<^verbatim>\<open>initlog(ROOTDEV)\<close> run next.\<close>

definition forkret :: "uchar \<Rightarrow> 'z sched_state_scheme \<Rightarrow> (bool \<times> 'z sched_state_scheme) res" where
  "forkret a s =
     bindR (if \<not> k_mrq s
            then bindR (log_lock a ACQUIRED RELEASED s) (release a PtableLock)
            else Ok s) (\<lambda>s.
       Ok (k_first s, s\<lparr>k_first := False\<rparr>))"

section \<open>Sleeping and waking\<close>

definition sleep_enter :: "uchar \<Rightarrow> chan \<Rightarrow> lockid option \<Rightarrow> 'z sched_state_scheme \<Rightarrow> 'z sched_state_scheme res" where
  "sleep_enter a chan lk s =
     bindR (myproc a s) (\<lambda>(p, s).
       if p = PNull then Panic ''sleep'' else
       case lk of
         None \<Rightarrow> Panic ''sleep without lk''
       | Some l \<Rightarrow>
           bindR (if l \<noteq> PtableLock
                  then bindR (log_lock a RELEASED ACQUIRED s) (\<lambda>s.
                       bindR (acquire a PtableLock s) (release a l))
                  else Ok s) (\<lambda>s.
           let s = upd_proc p (\<lambda>x. x\<lparr>p_chan := chan\<rparr>) s
           in bindR (log_proc a p SLEEP SLEEPING s) (\<lambda>s.
                sched_enter a (CtxSleep l) (set_state p SLEEPING s))))"

text \<open>After the switch: up to the release of \<^verbatim>\<open>ptable.lock\<close>, and taking the caller's lock again.\<close>

definition sleep_wake :: "uchar \<Rightarrow> pref \<Rightarrow> lockid \<Rightarrow> uint \<Rightarrow> nat \<Rightarrow> 'z sched_state_scheme \<Rightarrow> 'z sched_state_scheme res" where
  "sleep_wake a p l intena curcpu s =
     bindR (sched_return a intena curcpu s) (\<lambda>s.
       let s = upd_proc p (\<lambda>x. x\<lparr>p_chan := CNull\<rparr>) s
       in if l \<noteq> PtableLock
          then bindR (log_lock a ACQUIRED RELEASED s) (release a PtableLock)
          else Ok s)"

definition sleep_return :: "uchar \<Rightarrow> pref \<Rightarrow> lockid \<Rightarrow> uint \<Rightarrow> nat \<Rightarrow> 'z sched_state_scheme \<Rightarrow> 'z sched_state_scheme res" where
  "sleep_return a p l intena curcpu s =
     bindR (sleep_wake a p l intena curcpu s) (\<lambda>s.
       if l \<noteq> PtableLock then acquire a l s else Ok s)"

fun wakeup1_from :: "uchar \<Rightarrow> chan \<Rightarrow> nat list \<Rightarrow> 'z sched_state_scheme \<Rightarrow> 'z sched_state_scheme res" where
  "wakeup1_from a chan [] s = Ok s"
| "wakeup1_from a chan (i # js) s =
     (let p = PProc i
      in if p_state (k_procs s p) = SLEEPING \<and> p_chan (k_procs s p) = chan
         then bindR (log_proc a p WAKEUP RUNNABLE s) (\<lambda>s.
              bindR (if k_mrq s then enqueue_here a p s else Ok s) (\<lambda>s.
                wakeup1_from a chan js (set_state p RUNNABLE s)))
         else wakeup1_from a chan js s)"

definition wakeup1 :: "uchar \<Rightarrow> chan \<Rightarrow> 'z sched_state_scheme \<Rightarrow> 'z sched_state_scheme res" where
  "wakeup1 a chan s = wakeup1_from a chan [0..<NPROC] s"

definition wakeup :: "uchar \<Rightarrow> chan \<Rightarrow> 'z sched_state_scheme \<Rightarrow> 'z sched_state_scheme res" where
  "wakeup a chan s =
     bindR (holding a PtableLock s) (\<lambda>(h, s).
       if h then Panic (''already locked!'' @ [CHR 0x0A]) else
       bindR (log_lock a RELEASED ACQUIRED s) (\<lambda>s.
       bindR (acquire a PtableLock s) (\<lambda>s.
       bindR (wakeup1 a chan s) (\<lambda>s.
       bindR (log_lock a ACQUIRED RELEASED s) (release a PtableLock)))))"

definition find_proc :: "(proc \<Rightarrow> bool) \<Rightarrow> 'z sched_state_scheme \<Rightarrow> nat option" where
  "find_proc P s = List.find (\<lambda>i. P (k_procs s (PProc i))) [0..<NPROC]"

definition kill :: "uchar \<Rightarrow> int \<Rightarrow> 'z sched_state_scheme \<Rightarrow> (int \<times> 'z sched_state_scheme) res" where
  "kill a pid s =
     bindR (log_lock a RELEASED ACQUIRED s) (\<lambda>s.
     bindR (acquire a PtableLock s) (\<lambda>s.
       case find_proc (\<lambda>x. p_pid x = pid) s of
         Some i \<Rightarrow>
           let s = upd_proc (PProc i) (\<lambda>x. x\<lparr>p_killed := 1\<rparr>) s;
               s = (if p_state (k_procs s (PProc i)) = SLEEPING then set_state (PProc i) RUNNABLE s else s)
           in bindR (log_lock a ACQUIRED RELEASED s) (\<lambda>s.
              bindR (release a PtableLock s) (\<lambda>s. Ok (0, s)))
       | None \<Rightarrow>
           bindR (log_lock a ACQUIRED RELEASED s) (\<lambda>s.
           bindR (release a PtableLock s) (\<lambda>s. Ok (-1, s)))))"

section \<open>The scheduler loops\<close>

definition set_clock :: "int \<Rightarrow> nat \<Rightarrow> 'z sched_state_scheme \<Rightarrow> 'z sched_state_scheme res" where
  "set_clock pid k s =
     (if pid < 0 \<or> pid \<ge> int NPROC then Undef ''clock_log out of bounds''
      else let (cl, s) = rdtsc s
           in Ok (s\<lparr>k_clock_log := (k_clock_log s)(nat pid := (k_clock_log s (nat pid))(k := cl))\<rparr>))"

definition first_running :: "int \<Rightarrow> 'z sched_state_scheme \<Rightarrow> 'z sched_state_scheme res" where
  "first_running pid s =
     (if pid < 0 \<or> pid \<ge> int NPROC then Undef ''isnot_first_running out of bounds''
      else if k_first_run s (nat pid) = 0
      then bindR (set_clock pid 1 s) (\<lambda>s. Ok (s\<lparr>k_first_run := (k_first_run s)(nat pid := 1)\<rparr>))
      else Ok s)"

text \<open>What both loops do with the process they have chosen, up to the switch to it.\<close>

definition run_proc :: "uchar \<Rightarrow> nat \<Rightarrow> pref \<Rightarrow> 'z sched_state_scheme \<Rightarrow> 'z sched_state_scheme res" where
  "run_proc a c p s =
     (let s = upd_cpu c (\<lambda>u. u\<lparr>c_proc := p\<rparr>) s
      in bindR (switchuvm a p s) (\<lambda>s.
         bindR (first_running (p_pid (k_procs s p)) s) (\<lambda>s.
         bindR (log_proc a p TICK RUNNING s) (\<lambda>s.
           Ok (set_state p RUNNING s)))))"

definition sched_back :: "uchar \<Rightarrow> nat \<Rightarrow> 'z sched_state_scheme \<Rightarrow> 'z sched_state_scheme" where
  "sched_back a c s = upd_cpu c (\<lambda>u. u\<lparr>c_proc := PNull\<rparr>) (switchkvm a s)"

definition sched_start :: "uchar \<Rightarrow> 'z sched_state_scheme \<Rightarrow> (nat \<times> 'z sched_state_scheme) res" where
  "sched_start a s =
     bindR (mycpu a s) (\<lambda>c.
       let s = upd_cpu c (\<lambda>u. u\<lparr>c_proc := PNull\<rparr>) s
       in mycpuid a s)"

text \<open>One round of the loop over the own queue; null if it found no process.\<close>

definition mrq_round :: "uchar \<Rightarrow> nat \<Rightarrow> 'z sched_state_scheme \<Rightarrow> (pref \<times> 'z sched_state_scheme) res" where
  "mrq_round a c s =
     bindR (acquire a (RqLock c) (sti a s)) (\<lambda>s.
       if k_rqsize s c = 0
       then bindR (work_steal a c s) (\<lambda>s.
            bindR (release a (RqLock c) s) (\<lambda>s. Ok (PNull, s)))
       else bindR (dequeue a c s) (\<lambda>(p, s).
            bindR (release a (RqLock c) s) (\<lambda>s.
            bindR (run_proc a c p s) (\<lambda>s. Ok (p, s)))))"

text \<open>The loop over the process table: taking the lock, one slot of the scan, the end of the scan.\<close>

definition rr_enter :: "uchar \<Rightarrow> 'z sched_state_scheme \<Rightarrow> 'z sched_state_scheme res" where
  "rr_enter a s = bindR (log_lock a RELEASED ACQUIRED (sti a s)) (acquire a PtableLock)"

definition rr_slot :: "uchar \<Rightarrow> nat \<Rightarrow> nat \<Rightarrow> 'z sched_state_scheme \<Rightarrow> (bool \<times> 'z sched_state_scheme) res" where
  "rr_slot a c i s =
     (if p_state (k_procs s (PProc i)) = RUNNABLE
      then bindR (run_proc a c (PProc i) s) (\<lambda>s. Ok (True, s))
      else Ok (False, s))"

definition rr_leave :: "uchar \<Rightarrow> 'z sched_state_scheme \<Rightarrow> 'z sched_state_scheme res" where
  "rr_leave a s = bindR (log_lock a ACQUIRED RELEASED s) (release a PtableLock)"

section \<open>Process table parts of allocproc, fork, exit and wait\<close>

text \<open>\<^verbatim>\<open>nextpid\<close> is an \<^verbatim>\<open>int\<close>; incrementing the largest one is undefined.\<close>

definition allocproc_slot :: "uchar \<Rightarrow> 'z sched_state_scheme \<Rightarrow> (pref \<times> 'z sched_state_scheme) res" where
  "allocproc_slot a s =
     bindR (acquire a PtableLock s) (\<lambda>s.
     bindR (log_lock a RELEASED ACQUIRED s) (\<lambda>s.
       case find_proc (\<lambda>x. p_state x = UNUSED) s of
         None \<Rightarrow>
           bindR (log_lock a ACQUIRED RELEASED s) (\<lambda>s.
           bindR (release a PtableLock s) (\<lambda>s. Ok (PNull, s)))
       | Some i \<Rightarrow>
           if k_nextpid s = 2 ^ 31 - 1 then Undef ''nextpid: signed overflow'' else
           let p = PProc i;
               s = upd_proc p (\<lambda>x. x\<lparr>p_pid := k_nextpid s\<rparr>) s;
               s = s\<lparr>k_nextpid := k_nextpid s + 1\<rparr>
           in bindR (log_proc a p ALLOCPROC EMBRYO s) (\<lambda>s.
              bindR (log_lock a ACQUIRED RELEASED (set_state p EMBRYO s)) (\<lambda>s.
              bindR (release a PtableLock s) (\<lambda>s. Ok (p, s))))))"

text \<open>\<open>k\<close> is what \<^verbatim>\<open>kalloc()\<close> returned; the new context starts at \<^verbatim>\<open>forkret\<close>.\<close>

definition allocproc_stack :: "pref \<Rightarrow> uint \<Rightarrow> 'z sched_state_scheme \<Rightarrow> pref \<times> 'z sched_state_scheme" where
  "allocproc_stack p k s =
     (let s = upd_proc p (\<lambda>x. x\<lparr>p_kstack := k\<rparr>) s
      in if k = 0 then (PNull, set_state p UNUSED s)
         else (p, upd_proc p (\<lambda>x. x\<lparr>p_context := CtxForkret\<rparr>) s))"

fun fork_target :: "nat list \<Rightarrow> nat option \<Rightarrow> int \<Rightarrow> 'z sched_state_scheme \<Rightarrow> nat option" where
  "fork_target [] tgt mn s = tgt"
| "fork_target (i # js) tgt mn s =
     (if k_rqsize s i < mn then fork_target js (Some i) (k_rqsize s i) s else fork_target js tgt mn s)"

definition fork_commit :: "uchar \<Rightarrow> pref \<Rightarrow> 'z sched_state_scheme \<Rightarrow> (int \<times> 'z sched_state_scheme) res" where
  "fork_commit a np s =
     (let pid = p_pid (k_procs s np)
      in bindR (set_clock pid 0 s) (\<lambda>s.
         bindR (log_lock a RELEASED ACQUIRED s) (\<lambda>s.
         bindR (acquire a PtableLock s) (\<lambda>s.
         bindR (log_proc a np FORK RUNNABLE s) (\<lambda>s.
         let s = set_state np RUNNABLE s
         in bindR (if k_mrq s
                   then case fork_target [0..<m_ncpu s] None (int NPROC) s of
                          None \<Rightarrow> Panic ''target not exist''
                        | Some t \<Rightarrow> bindR (acquire a (RqLock t) s) (\<lambda>s.
                                    bindR (enqueue t np s) (release a (RqLock t)))
                   else Ok s) (\<lambda>s.
            bindR (release a PtableLock s) (\<lambda>s.
            bindR (log_lock a ACQUIRED RELEASED s) (\<lambda>s. Ok (pid, s)))))))))"

definition chan_of :: "pref \<Rightarrow> chan" where
  "chan_of p = (if p = PNull then CNull else CProc p)"

fun reparent_from :: "uchar \<Rightarrow> pref \<Rightarrow> nat list \<Rightarrow> 'z sched_state_scheme \<Rightarrow> 'z sched_state_scheme res" where
  "reparent_from a cur [] s = Ok s"
| "reparent_from a cur (i # js) s =
     (let p = PProc i
      in if p_parent (k_procs s p) = cur
         then let s = upd_proc p (\<lambda>x. x\<lparr>p_parent := k_initproc s\<rparr>) s
              in bindR (if p_state (k_procs s p) = ZOMBIE then wakeup1 a (chan_of (k_initproc s)) s else Ok s)
                   (reparent_from a cur js)
         else reparent_from a cur js s)"

definition exit_commit :: "uchar \<Rightarrow> pref \<Rightarrow> 'z sched_state_scheme \<Rightarrow> 'z sched_state_scheme res" where
  "exit_commit a cur s =
     bindR (log_lock a RELEASED ACQUIRED s) (\<lambda>s.
     bindR (acquire a PtableLock s) (\<lambda>s.
     bindR (wakeup1 a (chan_of (p_parent (k_procs s cur))) s) (\<lambda>s.
     bindR (reparent_from a cur [0..<NPROC] s) (\<lambda>s.
     bindR (set_clock (p_pid (k_procs s cur)) 2 s) (\<lambda>s.
     bindR (log_proc a cur EXIT ZOMBIE s) (\<lambda>s.
       sched_enter a CtxExit (set_state cur ZOMBIE s)))))))"

text \<open>The scan of \<^verbatim>\<open>wait\<close> from slot \<open>i\<close> on: \<open>Some pid\<close> if a dead child was found and freed (the lock is
  then released), else whether there is any child.\<close>

fun wait_scan ::
  "(uint \<Rightarrow> 'z sched_state_scheme \<Rightarrow> 'z sched_state_scheme res) \<Rightarrow>
   (uint \<Rightarrow> 'z sched_state_scheme \<Rightarrow> 'z sched_state_scheme res) \<Rightarrow>
   uchar \<Rightarrow> pref \<Rightarrow> nat list \<Rightarrow> bool \<Rightarrow> 'z sched_state_scheme \<Rightarrow> (int option \<times> bool \<times> 'z sched_state_scheme) res" where
  "wait_scan kfree freevm a cur [] havekids s = Ok (None, havekids, s)"
| "wait_scan kfree freevm a cur (i # js) havekids s =
     (let p = PProc i
      in if p_parent (k_procs s p) \<noteq> cur then wait_scan kfree freevm a cur js havekids s
         else if p_state (k_procs s p) = ZOMBIE
         then bindR (log_proc a p WAIT UNUSED s) (\<lambda>s.
              let pid = p_pid (k_procs s p)
              in bindR (kfree (p_kstack (k_procs s p)) s) (\<lambda>s.
                 let s = upd_proc p (\<lambda>x. x\<lparr>p_kstack := 0\<rparr>) s
                 in bindR (freevm (p_pgdir (k_procs s p)) s) (\<lambda>s.
                    let s = upd_proc p (\<lambda>x. x\<lparr>p_pid := 0, p_parent := PNull\<rparr>) s
                    in bindR (log_lock a ACQUIRED RELEASED s) (\<lambda>s.
                       let s = upd_proc p (\<lambda>x. x\<lparr>p_name := [], p_killed := 0, p_state := UNUSED\<rparr>) s
                       in bindR (release a PtableLock s) (\<lambda>s. Ok (Some pid, True, s))))))
         else wait_scan kfree freevm a cur js True s)"

text \<open>One round of the loop of \<^verbatim>\<open>wait\<close>, with \<^verbatim>\<open>ptable.lock\<close> held: \<open>Some v\<close> if \<^verbatim>\<open>wait\<close> returns \<open>v\<close>,
  \<open>None\<close> if the caller went to sleep.\<close>

definition wait_round ::
  "(uint \<Rightarrow> 'z sched_state_scheme \<Rightarrow> 'z sched_state_scheme res) \<Rightarrow>
   (uint \<Rightarrow> 'z sched_state_scheme \<Rightarrow> 'z sched_state_scheme res) \<Rightarrow>
   uchar \<Rightarrow> pref \<Rightarrow> 'z sched_state_scheme \<Rightarrow> (int option \<times> 'z sched_state_scheme) res" where
  "wait_round kfree freevm a cur s =
     bindR (wait_scan kfree freevm a cur [0..<NPROC] False s) (\<lambda>(r, havekids, s).
       case r of
         Some pid \<Rightarrow> Ok (Some pid, s)
       | None \<Rightarrow>
           if \<not> havekids \<or> p_killed (k_procs s cur) \<noteq> 0
           then bindR (log_lock a ACQUIRED RELEASED s) (\<lambda>s.
                bindR (release a PtableLock s) (\<lambda>s. Ok (Some (-1), s)))
           else bindR (sleep_enter a (chan_of cur) (Some PtableLock) s) (\<lambda>s. Ok (None, s)))"

definition wait_enter :: "uchar \<Rightarrow> 'z sched_state_scheme \<Rightarrow> (pref \<times> 'z sched_state_scheme) res" where
  "wait_enter a s =
     bindR (myproc a s) (\<lambda>(p, s).
     bindR (log_lock a RELEASED ACQUIRED s) (\<lambda>s.
     bindR (acquire a PtableLock s) (\<lambda>s. Ok (p, s))))"

end
