(* ===== verification/SchedView.thy ===== *)
theory SchedView
  imports Sched
begin

text \<open>
  The part of the state the scheduler's invariants speak of, and what each operation does to it when
  it returns: the effects of the operations of Sched.thy as equations over this view.
\<close>

record view =
  v_ncpu :: nat
  v_idx :: "uchar \<Rightarrow> nat option"
  v_ncli :: "nat \<Rightarrow> int"
  v_cproc :: "nat \<Rightarrow> pref"
  v_own :: "lockid \<Rightarrow> nat option"
  v_procs :: "pref \<Rightarrow> proc"
  v_nextpid :: int
  v_init :: pref
  v_mrq :: bool

definition vw :: "'z sched_state_scheme \<Rightarrow> view" where
  "vw s = \<lparr>v_ncpu = m_ncpu s, v_idx = (\<lambda>a. cpu_index a s), v_ncli = (\<lambda>i. c_ncli (m_cpus s i)),
           v_cproc = (\<lambda>i. c_proc (m_cpus s i)), v_own = (\<lambda>l. lk_cpu (m_locks s l)), v_procs = k_procs s,
           v_nextpid = k_nextpid s, v_init = k_initproc s, v_mrq = k_mrq s\<rparr>"

lemma vw_fields [simp]:
  "v_ncpu (vw s) = m_ncpu s" "v_idx (vw s) a = cpu_index a s" "v_ncli (vw s) i = c_ncli (m_cpus s i)"
  "v_cproc (vw s) i = c_proc (m_cpus s i)" "v_own (vw s) l = lk_cpu (m_locks s l)" "v_procs (vw s) = k_procs s"
  "v_nextpid (vw s) = k_nextpid s" "v_init (vw s) = k_initproc s" "v_mrq (vw s) = k_mrq s"
  by (simp_all add: vw_def)

text \<open>The processors' flags and the locks are consistent, and the log's counter is not negative.\<close>

definition mach_ok :: "'z machine_scheme \<Rightarrow> bool" where
  "mach_ok s \<longleftrightarrow>
     (\<forall>a i. cpu_index a s = Some i \<longrightarrow> cli_ok a i s) \<and>
     (\<forall>l. lk_locked (m_locks s l) = 0 \<longleftrightarrow> lk_cpu (m_locks s l) = None)"

definition vok :: "'z sched_state_scheme \<Rightarrow> bool" where
  "vok s \<longleftrightarrow> mach_ok s \<and> 0 \<le> k_bufsize s"

lemma mach_ok_cli: "mach_ok s \<Longrightarrow> cpu_index a s = Some i \<Longrightarrow> cli_ok a i s"
  by (simp add: mach_ok_def)

lemma mach_ok_only:
  assumes "mach_ok s" "cpu_index a s = Some i" "only_cpu a i s t" "cli_ok a i t"
    and "\<And>l. lk_locked (m_locks t l) = 0 \<longleftrightarrow> lk_cpu (m_locks t l) = None"
  shows "mach_ok t"
proof -
  have "cli_ok b j t" if "cpu_index b t = Some j" for b j
  proof (cases "b = a")
    case True
    with that assms show ?thesis by (auto simp: only_cpu_def)
  next
    case False
    from that assms(3) have jm: "cpu_index b s = Some j" by (auto simp: only_cpu_def)
    with False assms(2) have "j \<noteq> i" by (auto dest: cpu_index_inj)
    with jm False assms(1,3) show ?thesis by (auto simp: mach_ok_def only_cpu_def cli_ok_def)
  qed
  with assms(5) show ?thesis by (simp add: mach_ok_def)
qed

lemma mach_ok_lock_eq: "lock_eq s t \<Longrightarrow> mach_ok s \<Longrightarrow> mach_ok t"
  unfolding mach_ok_def using lock_eq_index [of s t] lock_eq_cli_ok [of s t] by (auto simp: lock_eq_def)

lemma vw_lock_eq:
  assumes "lock_eq s t" "k_procs t = k_procs s" "k_nextpid t = k_nextpid s" "k_initproc t = k_initproc s"
    "k_mrq t = k_mrq s"
  shows "vw t = vw s"
  using assms lock_eq_cpu [OF assms(1)] lock_eq_index [OF assms(1)] by (simp add: vw_def lock_eq_def)

lemma vw_log_frame: "log_frame s t \<Longrightarrow> vw t = vw s"
  by (rule vw_lock_eq) (auto simp: log_frame_def)

definition vtake :: "lockid \<Rightarrow> nat \<Rightarrow> view \<Rightarrow> view" where
  "vtake l c v = v\<lparr>v_ncli := (v_ncli v)(c := v_ncli v c + 1), v_own := (v_own v)(l := Some c)\<rparr>"

definition vdrop :: "lockid \<Rightarrow> nat \<Rightarrow> view \<Rightarrow> view" where
  "vdrop l c v = v\<lparr>v_ncli := (v_ncli v)(c := v_ncli v c - 1), v_own := (v_own v)(l := None)\<rparr>"

definition vproc :: "pref \<Rightarrow> (proc \<Rightarrow> proc) \<Rightarrow> view \<Rightarrow> view" where
  "vproc p f v = v\<lparr>v_procs := (v_procs v)(p := f (v_procs v p))\<rparr>"

lemma vtake_vdrop [simp]: "v_own v l = None \<Longrightarrow> vdrop l c (vtake l c v) = v"
  by (cases v) (auto simp: vtake_def vdrop_def)

lemma vlock_fields [simp]:
  "v_ncpu (vtake l c v) = v_ncpu v" "v_idx (vtake l c v) = v_idx v" "v_cproc (vtake l c v) = v_cproc v"
  "v_procs (vtake l c v) = v_procs v" "v_nextpid (vtake l c v) = v_nextpid v" "v_init (vtake l c v) = v_init v"
  "v_own (vtake l c v) = (v_own v)(l := Some c)" "v_ncli (vtake l c v) = (v_ncli v)(c := v_ncli v c + 1)"
  "v_ncpu (vdrop l c v) = v_ncpu v" "v_idx (vdrop l c v) = v_idx v" "v_cproc (vdrop l c v) = v_cproc v"
  "v_procs (vdrop l c v) = v_procs v" "v_nextpid (vdrop l c v) = v_nextpid v" "v_init (vdrop l c v) = v_init v"
  "v_own (vdrop l c v) = (v_own v)(l := None)" "v_ncli (vdrop l c v) = (v_ncli v)(c := v_ncli v c - 1)"
  "v_mrq (vtake l c v) = v_mrq v" "v_mrq (vdrop l c v) = v_mrq v"
  by (simp_all add: vtake_def vdrop_def)

lemma vproc_fields [simp]:
  "v_ncpu (vproc p f v) = v_ncpu v" "v_idx (vproc p f v) = v_idx v" "v_cproc (vproc p f v) = v_cproc v"
  "v_nextpid (vproc p f v) = v_nextpid v" "v_init (vproc p f v) = v_init v" "v_own (vproc p f v) = v_own v"
  "v_ncli (vproc p f v) = v_ncli v" "v_mrq (vproc p f v) = v_mrq v"
  "v_procs (vproc p f v) = (v_procs v)(p := f (v_procs v p))"
  by (simp_all add: vproc_def)

section \<open>Locks, log, current process\<close>

lemma vw_upd_proc: "vw (upd_proc p f s) = vproc p f (vw s)"
  by (simp add: vw_def vproc_def upd_proc_def cpu_index_def)

lemma vok_upd_proc [simp]: "vok (upd_proc p f s) = vok s"
  by (simp add: vok_def mach_ok_def upd_proc_def cpu_index_def cli_ok_def readeflags_def)

lemma vw_acq: "vw (acq_st a c l s) = vtake l c (vw s)"
  using only_cpu_ops(2) [of a c s l]
  by (simp add: vw_def vtake_def only_cpu_def) (simp add: acq_st_def push_st_def save_st_def machine_defs fun_eq_iff)

lemma vw_rel: "vw (rel_st a c l s) = vdrop l c (vw s)"
  using only_cpu_ops(4) [of a c s l]
  by (simp add: vw_def vdrop_def only_cpu_def) (simp add: rel_st_def pop_st_def machine_defs fun_eq_iff)

lemma acquire_vw:
  assumes "vok s" "cpu_index a s = Some c" "acquire a l s = Ok t"
  shows "vok t \<and> v_own (vw s) l = None \<and> vw t = vtake l c (vw s) \<and> v_ncli (vw t) c > 0"
proof -
  have ok: "cli_ok a c s" using assms by (auto simp: vok_def mach_ok_cli)
  note t = acquire_OkD [OF ok assms(3)]
  have "mach_ok t"
    unfolding t(2) using assms ok
    by (intro mach_ok_only [OF _ assms(2) only_cpu_ops(2)]) (auto simp: vok_def mach_ok_def cli_ok_acq m_locks_ops)
  moreover have "k_bufsize t = k_bufsize s"
    unfolding t(2) by (simp add: acq_st_def push_st_def save_st_def machine_defs)
  moreover have "0 \<le> c_ncli (m_cpus s c)" using ok by (simp add: cli_ok_def)
  ultimately show ?thesis
    using assms t(1) vw_acq [of a c l s] c_ncli_ops(1) [of a c l s]
    by (simp add: t(2) vok_def mach_ok_def)
qed

lemma release_Ok_ncli:
  assumes "cli_ok a c s" "release a l s = Ok t"
  shows "0 < c_ncli (m_cpus s c)"
proof (rule ccontr)
  assume "\<not> ?thesis"
  then have z: "c_ncli (m_cpus s c) = 0" using assms(1) by (simp add: cli_ok_def)
  have ix: "cpu_index a s = Some c" using assms(1) by (simp add: cli_ok_def)
  have "\<not> held_by c l s \<or> (\<exists>m. release a l s = Panic m)"
    using assms ix z
    by (auto simp: release_def holding_Ok popcli_def mycpu_def Let_def split: if_splits)
  then show False using assms(2) release_not_held [OF assms(1), of l] by auto
qed

lemma release_vw:
  assumes "vok s" "cpu_index a s = Some c" "release a l s = Ok t"
  shows "vok t \<and> v_own (vw s) l = Some c \<and> vw t = vdrop l c (vw s) \<and> 0 < v_ncli (vw s) c"
proof -
  have ok: "cli_ok a c s" using assms by (auto simp: vok_def mach_ok_cli)
  have pos: "0 < c_ncli (m_cpus s c)" using release_Ok_ncli [OF ok assms(3)] .
  note t = release_OkD [OF ok pos assms(3)]
  have "cli_ok a c (rel_st a c l s)"
    unfolding rel_st_def using ok pos by (intro cli_ok_pop) (auto simp: cli_ok_def)
  then have "mach_ok t"
    unfolding t(2) using assms
    by (intro mach_ok_only [OF _ assms(2) only_cpu_ops(4)]) (auto simp: vok_def mach_ok_def m_locks_ops)
  moreover have "k_bufsize t = k_bufsize s"
    unfolding t(2) by (simp add: rel_st_def pop_st_def machine_defs)
  ultimately show ?thesis
    using assms t(1) vw_rel [of a c l s] pos by (simp add: t(2) vok_def held_by_def)
qed

lemma writelog_vw:
  assumes "vok s" "cpu_index a s = Some c" "writelog a pid nm ev ps ns s = Ok t"
  shows "vok t \<and> vw t = vw s"
proof -
  have "log_frame s t \<and> 0 \<le> k_bufsize t"
    using assms writelog_OkD [of a pid nm ev ps ns s t c] by (auto simp: vok_def mach_ok_cli)
  then show ?thesis
    using assms(1) vw_log_frame mach_ok_lock_eq by (auto simp: vok_def log_frame_def)
qed

lemma save_vw: "vok s \<Longrightarrow> vok (save_st a c s) \<and> vw (save_st a c s) = vw s"
  using log_frame_save [of s a c] vw_log_frame mach_ok_lock_eq [OF lock_eq_save [of s a c]]
  by (auto simp: vok_def)

lemma cpu_index_vw: "vw t = vw s \<Longrightarrow> cpu_index a t = cpu_index a s"
  by (metis vw_fields(2))

lemma myproc_vw:
  assumes "vok s" "cpu_index a s = Some c" "myproc a s = Ok (p, t)"
  shows "vok t \<and> vw t = vw s \<and> p = v_cproc (vw s) c"
  using assms save_vw [OF assms(1), of a c] by (auto simp: vok_def mach_ok_cli myproc_run [of a c s])

lemma mycpuid_vw:
  assumes "vok s" "cpu_index a s = Some c" "mycpuid a s = Ok (d, t)"
  shows "vok t \<and> vw t = vw s \<and> d = c"
  using assms save_vw [OF assms(1), of a c] by (auto simp: vok_def mach_ok_cli mycpuid_run [of a c s])

lemma holding_vw:
  assumes "vok s" "cpu_index a s = Some c" "holding a l s = Ok (h, t)"
  shows "vok t \<and> vw t = vw s \<and> (h \<longleftrightarrow> v_own (vw s) l = Some c)"
proof -
  have "cli_ok a c s" using assms by (auto simp: vok_def mach_ok_cli)
  from holding_Ok [OF this, of l] show ?thesis
    using assms save_vw [OF assms(1), of a c] by (auto simp: held_by_def vok_def mach_ok_def)
qed

lemma mycpu_vw: "cpu_index a s = Some c \<Longrightarrow> mycpu a s = Ok d \<Longrightarrow> d = c"
  by (auto simp: mycpu_def split: if_splits)

text \<open>The same facts as forward rules along a chain of calls on one processor.\<close>

definition at_cpu :: "uchar \<Rightarrow> nat \<Rightarrow> 'z sched_state_scheme \<Rightarrow> bool" where
  "at_cpu a c s \<longleftrightarrow> vok s \<and> cpu_index a s = Some c"

lemma at_cpuI: "vok t \<Longrightarrow> v_idx (vw t) a = Some c \<Longrightarrow> at_cpu a c t"
  by (simp add: at_cpu_def)

lemma at_cpuD: "at_cpu a c s \<Longrightarrow> vok s" "at_cpu a c s \<Longrightarrow> v_idx (vw s) a = Some c" "at_cpu a c s \<Longrightarrow> cpu_index a s = Some c"
  by (simp_all add: at_cpu_def)

lemma acquire_at:
  "acquire a l s = Ok t \<Longrightarrow> at_cpu a c s \<Longrightarrow>
     at_cpu a c t \<and> v_own (vw s) l = None \<and> vw t = vtake l c (vw s)"
  using acquire_vw [of s a c l t] by (auto simp: at_cpu_def intro: cpu_index_vw dest: arg_cong [of _ _ "\<lambda>v. v_idx v a"])

lemma release_at:
  "release a l s = Ok t \<Longrightarrow> at_cpu a c s \<Longrightarrow>
     at_cpu a c t \<and> v_own (vw s) l = Some c \<and> vw t = vdrop l c (vw s)"
  using release_vw [of s a c l t] by (auto simp: at_cpu_def dest: arg_cong [of _ _ "\<lambda>v. v_idx v a"])

lemma writelog_at:
  "writelog a pid nm ev ps ns s = Ok t \<Longrightarrow> at_cpu a c s \<Longrightarrow> at_cpu a c t \<and> vw t = vw s"
  using writelog_vw [of s a c pid nm ev ps ns t] by (auto simp: at_cpu_def dest: arg_cong [of _ _ "\<lambda>v. v_idx v a"])

lemma log_at:
  "log_proc a p ev ns s = Ok t \<Longrightarrow> at_cpu a c s \<Longrightarrow> at_cpu a c t \<and> vw t = vw s"
  "log_lock a ps ns s = Ok t \<Longrightarrow> at_cpu a c s \<Longrightarrow> at_cpu a c t \<and> vw t = vw s"
  by (simp_all add: log_proc_def log_lock_def writelog_at)

lemma myproc_at:
  "myproc a s = Ok (p, t) \<Longrightarrow> at_cpu a c s \<Longrightarrow> at_cpu a c t \<and> vw t = vw s \<and> p = v_cproc (vw s) c"
  using myproc_vw [of s a c p t] by (auto simp: at_cpu_def dest: arg_cong [of _ _ "\<lambda>v. v_idx v a"])

lemma mycpuid_at:
  "mycpuid a s = Ok (d, t) \<Longrightarrow> at_cpu a c s \<Longrightarrow> at_cpu a c t \<and> vw t = vw s \<and> d = c"
  using mycpuid_vw [of s a c d t] by (auto simp: at_cpu_def dest: arg_cong [of _ _ "\<lambda>v. v_idx v a"])

lemma holding_at:
  "holding a l s = Ok (h, t) \<Longrightarrow> at_cpu a c s \<Longrightarrow>
     at_cpu a c t \<and> vw t = vw s \<and> (h \<longleftrightarrow> v_own (vw s) l = Some c)"
  using holding_vw [of s a c l h t] by (auto simp: at_cpu_def dest: arg_cong [of _ _ "\<lambda>v. v_idx v a"])

lemma mycpu_at: "mycpu a s = Ok d \<Longrightarrow> at_cpu a c s \<Longrightarrow> d = c"
  by (auto simp: at_cpu_def dest: mycpu_vw)

lemma at_upd_proc [simp]: "at_cpu a c (upd_proc p f s) = at_cpu a c s" "at_cpu a c (set_state p st s) = at_cpu a c s"
  by (simp_all add: at_cpu_def set_state_def) (simp_all add: upd_proc_def cpu_index_def)

lemma vw_set_state: "vw (set_state p st s) = vproc p (\<lambda>x. x\<lparr>p_state := st\<rparr>) (vw s)"
  by (simp add: set_state_def vw_upd_proc)

lemmas at_rules = acquire_at release_at writelog_at log_at myproc_at mycpuid_at holding_at

text \<open>From here on the view is not unfolded.\<close>

declare vw_fields [simp del]

lemma k_vw: "k_mrq s = v_mrq (vw s)" "k_procs s = v_procs (vw s)" "k_initproc s = v_init (vw s)"
    "k_nextpid s = v_nextpid (vw s)" "c_proc (m_cpus s c) = v_cproc (vw s) c" "c_ncli (m_cpus s c) = v_ncli (vw s) c"
  by (simp_all add: vw_fields)

section \<open>Effects of the scheduler's operations, round robin\<close>

lemma sched_enter_at:
  assumes "sched_enter a ctx s = Ok t" "at_cpu a c s" "\<not> v_mrq (vw s)"
  shows "at_cpu a c t \<and> v_own (vw s) PtableLock = Some c \<and> v_ncli (vw s) c = 1 \<and> v_cproc (vw s) c \<noteq> PNull \<and>
     p_state (v_procs (vw s) (v_cproc (vw s) c)) \<noteq> RUNNING \<and>
     (\<exists>e. vw t = vproc (v_cproc (vw s) c) (\<lambda>x. x\<lparr>p_context := ctx e c\<rparr>) (vw s))"
proof -
  obtain p s1 h s2 d where s1: "myproc a s = Ok (p, s1)" and s2: "holding a PtableLock s1 = Ok (h, s2)"
    and h: "h" and d: "mycpu a s2 = Ok d" "c_ncli (m_cpus s2 d) = 1" and p: "p \<noteq> PNull"
      "p_state (k_procs s2 p) \<noteq> RUNNING" and
      u: "bindR (if k_mrq s2
                 then bindR (writelog a (-1) ''test'' PTABLE_LOCK ACQUIRED RELEASED s2) (release a PtableLock)
                 else Ok s2) (\<lambda>s. Ok (upd_proc p (\<lambda>x. x\<lparr>p_context := ctx (c_intena (m_cpus s2 d)) d\<rparr>) s)) = Ok t"
    using assms(1) by (auto simp: sched_enter_def Let_def ok_iff split: if_splits)
  note e1 = myproc_at [OF s1 assms(2)]
  note e2 = holding_at [OF s2 conjunct1 [OF e1]]
  have dc: "d = c" using mycpu_at [OF d(1)] e2 by blast
  have v2: "vw s2 = vw s" using e1 e2 by simp
  then have "\<not> k_mrq s2" using assms(3) by (simp add: k_vw)
  then have t: "t = upd_proc p (\<lambda>x. x\<lparr>p_context := ctx (c_intena (m_cpus s2 d)) c\<rparr>) s2"
    using u dc by simp
  have "v_ncli (vw s) c = 1" "p_state (v_procs (vw s) p) \<noteq> RUNNING"
    using d(2) p(2) dc v2 by (simp_all add: k_vw)
  then show ?thesis
    using e1 e2 h p(1) v2 by (simp add: t vw_upd_proc) blast
qed

lemma upd_intena [simp]:
  "vw (upd_cpu d (\<lambda>u. u\<lparr>c_intena := e\<rparr>) s) = vw s"
  "at_cpu a c (upd_cpu d (\<lambda>u. u\<lparr>c_intena := e\<rparr>) s) = at_cpu a c s"
proof -
  let ?t = "upd_cpu d (\<lambda>u. u\<lparr>c_intena := e\<rparr>) s"
  have ix: "cpu_index b ?t = cpu_index b s" for b
    unfolding cpu_index_def by (rule arg_cong2 [of _ _ _ _ List.find]) (auto simp: upd_cpu_def fun_eq_iff)
  then show "vw ?t = vw s" by (simp add: vw_def) (simp add: upd_cpu_def fun_eq_iff)
  have "cli_ok b i ?t = cli_ok b i s" for b i
    using ix by (simp add: cli_ok_def upd_cpu_def readeflags_def)
  then show "at_cpu a c ?t = at_cpu a c s"
    using ix by (simp add: at_cpu_def vok_def mach_ok_def, simp add: upd_cpu_def)
qed

lemma sched_return_at:
  "sched_return a e cc s = Ok t \<Longrightarrow> at_cpu a c s \<Longrightarrow> \<not> v_mrq (vw s) \<Longrightarrow> at_cpu a c t \<and> vw t = vw s"
  by (auto simp: sched_return_def ok_iff k_vw)

lemma vproc_lock: "vproc p f (vtake l c v) = vtake l c (vproc p f v)"
  by (simp add: vproc_def vtake_def)

lemma vproc_vproc [simp]: "vproc p f (vproc p g v) = vproc p (\<lambda>x. f (g x)) v"
  by (simp add: vproc_def)

lemma yield_enter_at:
  assumes "yield_enter a s = Ok t" "at_cpu a c s" "\<not> v_mrq (vw s)"
  shows "at_cpu a c t \<and> v_own (vw s) PtableLock = None \<and> v_ncli (vw s) c = 0 \<and> v_cproc (vw s) c \<noteq> PNull \<and>
     (\<exists>e. vw t = vproc (v_cproc (vw s) c) (\<lambda>x. x\<lparr>p_state := RUNNABLE, p_context := CtxYield e c\<rparr>)
                   (vtake PtableLock c (vw s)))"
proof -
  obtain p s1 s2 s3 s4 where 1: "myproc a s = Ok (p, s1)" "p \<noteq> PNull" and 2: "log_proc a p YIELD RUNNABLE s1 = Ok s2"
    and 3: "log_lock a RELEASED ACQUIRED s2 = Ok s3" and 4: "acquire a PtableLock s3 = Ok s4"
    and 5: "bindR (if k_mrq s4 then enqueue_here a p s4 else Ok s4)
              (\<lambda>s. sched_enter a CtxYield (set_state p RUNNABLE s)) = Ok t"
    using assms(1) by (auto simp: yield_enter_def ok_iff split: if_splits)
  note e1 = myproc_at [OF 1(1) assms(2)]
  note e2 = log_at(1) [OF 2 conjunct1 [OF e1]]
  note e3 = log_at(2) [OF 3 conjunct1 [OF e2]]
  note e4 = acquire_at [OF 4 conjunct1 [OF e3]]
  have v3: "vw s3 = vw s" using e1 e2 e3 by simp
  have m: "\<not> v_mrq (vw s4)" using assms(3) e4 v3 by simp
  then have "sched_enter a CtxYield (set_state p RUNNABLE s4) = Ok t" using 5 by (simp add: k_vw)
  from sched_enter_at [OF this, of c] e4 m show ?thesis
    using e1 v3 1(2) by (auto simp: vw_set_state)
qed

lemma yield_return_at:
  "yield_return a e cc s = Ok t \<Longrightarrow> at_cpu a c s \<Longrightarrow> \<not> v_mrq (vw s) \<Longrightarrow>
     at_cpu a c t \<and> v_own (vw s) PtableLock = Some c \<and> vw t = vdrop PtableLock c (vw s)"
  by (auto simp: yield_return_def ok_iff dest!: sched_return_at log_at release_at)

lemma vw_k_first [simp]: "vw (s\<lparr>k_first := b\<rparr>) = vw s" "at_cpu a c (s\<lparr>k_first := b\<rparr>) = at_cpu a c s"
  by (simp_all add: vw_def cpu_index_def at_cpu_def vok_def mach_ok_def cli_ok_def readeflags_def)

lemma forkret_at:
  "forkret a s = Ok (b, t) \<Longrightarrow> at_cpu a c s \<Longrightarrow> \<not> v_mrq (vw s) \<Longrightarrow>
     at_cpu a c t \<and> v_own (vw s) PtableLock = Some c \<and> vw t = vdrop PtableLock c (vw s)"
  by (auto simp: forkret_def ok_iff k_vw dest!: log_at release_at)

lemma sleep_enter_at:
  assumes "sleep_enter a ch (Some l) s = Ok t" "at_cpu a c s" "\<not> v_mrq (vw s)"
  shows "at_cpu a c t \<and> v_cproc (vw s) c \<noteq> PNull \<and>
     (if l = PtableLock then v_own (vw s) PtableLock = Some c \<and> v_ncli (vw s) c = 1
      else v_own (vw s) PtableLock = None \<and> v_own (vw s) l = Some c \<and> v_ncli (vw s) c = 1) \<and>
     (\<exists>e. vw t = vproc (v_cproc (vw s) c) (\<lambda>x. x\<lparr>p_chan := ch, p_state := SLEEPING, p_context := CtxSleep l e c\<rparr>)
        (if l = PtableLock then vw s else vdrop l c (vtake PtableLock c (vw s))))"
proof -
  let ?v = "if l = PtableLock then vw s else vdrop l c (vtake PtableLock c (vw s))"
  obtain p s1 s2 s3 where 1: "myproc a s = Ok (p, s1)" "p \<noteq> PNull"
    and 2: "(if l \<noteq> PtableLock then bindR (log_lock a RELEASED ACQUIRED s1) (\<lambda>s. bindR (acquire a PtableLock s) (release a l))
             else Ok s1) = Ok s2"
    and 3: "log_proc a p SLEEP SLEEPING (upd_proc p (\<lambda>x. x\<lparr>p_chan := ch\<rparr>) s2) = Ok s3"
    and 4: "sched_enter a (CtxSleep l) (set_state p SLEEPING s3) = Ok t"
    using assms(1) unfolding sleep_enter_def bindR_Ok_iff Let_def
    by (auto simp: bindR_Ok_iff Let_def split: if_split_asm)
  note e1 = myproc_at [OF 1(1) assms(2)]
  have e2: "at_cpu a c s2 \<and> vw s2 = ?v \<and>
      (l \<noteq> PtableLock \<longrightarrow> v_own (vw s) PtableLock = None \<and> v_own (vw s) l = Some c)"
    using 2 e1 by (auto simp: ok_iff split: if_splits dest!: log_at acquire_at release_at)
  have e3: "at_cpu a c s3 \<and> vw s3 = vproc p (\<lambda>x. x\<lparr>p_chan := ch\<rparr>) ?v"
    using log_at(1) [OF 3, of c] e2 by (simp add: vw_upd_proc)
  have "\<not> v_mrq (vw s3)" using assms(3) e3 by simp
  then show ?thesis
    using sched_enter_at [OF 4, of c] e1 e2 e3 1(2) by (auto simp: vw_set_state)
qed

lemma sleep_wake_at:
  "sleep_wake a p l e cc s = Ok t \<Longrightarrow> at_cpu a c s \<Longrightarrow> \<not> v_mrq (vw s) \<Longrightarrow>
     at_cpu a c t \<and> (l \<noteq> PtableLock \<longrightarrow> v_own (vw s) PtableLock = Some c) \<and>
     vw t = (if l = PtableLock then vproc p (\<lambda>x. x\<lparr>p_chan := CNull\<rparr>) (vw s)
             else vdrop PtableLock c (vproc p (\<lambda>x. x\<lparr>p_chan := CNull\<rparr>) (vw s)))"
  by (auto simp: sleep_wake_def ok_iff Let_def vw_upd_proc split: if_splits
      dest!: sched_return_at log_at release_at)

definition woken :: "chan \<Rightarrow> proc \<Rightarrow> proc" where
  "woken ch x = (if p_state x = SLEEPING \<and> p_chan x = ch then x\<lparr>p_state := RUNNABLE\<rparr> else x)"

definition wake_fn :: "chan \<Rightarrow> nat set \<Rightarrow> (pref \<Rightarrow> proc) \<Rightarrow> pref \<Rightarrow> proc" where
  "wake_fn ch A g q = (if q \<in> PProc ` A then woken ch (g q) else g q)"

definition vwake :: "chan \<Rightarrow> nat set \<Rightarrow> view \<Rightarrow> view" where
  "vwake ch A v = v\<lparr>v_procs := wake_fn ch A (v_procs v)\<rparr>"

lemma woken_woken [simp]: "woken ch (woken ch x) = woken ch x"
  by (auto simp: woken_def)

lemma vwake_fields [simp]:
  "v_ncpu (vwake ch A v) = v_ncpu v" "v_idx (vwake ch A v) = v_idx v" "v_ncli (vwake ch A v) = v_ncli v"
  "v_cproc (vwake ch A v) = v_cproc v" "v_own (vwake ch A v) = v_own v" "v_nextpid (vwake ch A v) = v_nextpid v"
  "v_init (vwake ch A v) = v_init v" "v_mrq (vwake ch A v) = v_mrq v"
  "v_procs (vwake ch A v) = wake_fn ch A (v_procs v)"
  by (simp_all add: vwake_def)

lemma vwake_lock: "vwake ch A (vtake l c v) = vtake l c (vwake ch A v)"
  by (simp add: vwake_def vtake_def)

lemma vwake_insert:
  "vwake ch (insert i A) v =
     (if p_state (v_procs v (PProc i)) = SLEEPING \<and> p_chan (v_procs v (PProc i)) = ch
      then vwake ch A (vproc (PProc i) (\<lambda>x. x\<lparr>p_state := RUNNABLE\<rparr>) v) else vwake ch A v)"
proof -
  have "wake_fn ch (insert i A) g = wake_fn ch A (g(PProc i := woken ch (g (PProc i))))" for g
    by (rule ext) (simp add: wake_fn_def)
  then show ?thesis by (simp add: vwake_def vproc_def woken_def)
qed

lemma wakeup1_from_at:
  "wakeup1_from a ch js s = Ok t \<Longrightarrow> at_cpu a c s \<Longrightarrow> \<not> v_mrq (vw s) \<Longrightarrow>
     at_cpu a c t \<and> vw t = vwake ch (set js) (vw s)"
proof (induction js arbitrary: s)
  case Nil
  then show ?case by (simp add: vwake_def wake_fn_def [abs_def])
next
  case (Cons i js)
  show ?case
  proof (cases "p_state (k_procs s (PProc i)) = SLEEPING \<and> p_chan (k_procs s (PProc i)) = ch")
    case True
    then obtain s1 where 1: "log_proc a (PProc i) WAKEUP RUNNABLE s = Ok s1"
      and 2: "bindR (if k_mrq s1 then enqueue_here a (PProc i) s1 else Ok s1)
                (\<lambda>s. wakeup1_from a ch js (set_state (PProc i) RUNNABLE s)) = Ok t"
      using Cons.prems(1) by (auto simp: ok_iff Let_def)
    note e1 = log_at(1) [OF 1 Cons.prems(2)]
    then have "wakeup1_from a ch js (set_state (PProc i) RUNNABLE s1) = Ok t"
      using 2 Cons.prems(3) by (simp add: k_vw)
    from Cons.IH [OF this] e1 Cons.prems(3) True show ?thesis
      by (simp add: vw_set_state vwake_insert k_vw)
  next
    case False
    then have "wakeup1_from a ch js s = Ok t" using Cons.prems(1) by (simp only: wakeup1_from.simps Let_def if_False)
    from Cons.IH [OF this Cons.prems(2,3)] False show ?thesis by (auto simp: vwake_insert k_vw)
  qed
qed

lemma wakeup1_at:
  "wakeup1 a ch s = Ok t \<Longrightarrow> at_cpu a c s \<Longrightarrow> \<not> v_mrq (vw s) \<Longrightarrow>
     at_cpu a c t \<and> vw t = vwake ch {..<NPROC} (vw s)"
  unfolding wakeup1_def using wakeup1_from_at [of a ch "[0..<NPROC]" s t c] by (simp add: atLeast0LessThan)

lemma wakeup_at:
  "wakeup a ch s = Ok t \<Longrightarrow> at_cpu a c s \<Longrightarrow> \<not> v_mrq (vw s) \<Longrightarrow>
     at_cpu a c t \<and> v_own (vw s) PtableLock = None \<and> vw t = vwake ch {..<NPROC} (vw s)"
  by (auto simp: wakeup_def ok_iff vwake_lock split: if_splits
      dest!: holding_at log_at acquire_at release_at wakeup1_at)

definition vfind :: "(proc \<Rightarrow> bool) \<Rightarrow> view \<Rightarrow> nat option" where
  "vfind P v = List.find (\<lambda>i. P (v_procs v (PProc i))) [0..<NPROC]"

lemma find_proc_vw: "find_proc P s = vfind P (vw s)"
  by (simp add: find_proc_def vfind_def k_vw)

lemma vfind_lock [simp]: "vfind P (vtake l c v) = vfind P v"
  by (simp add: vfind_def)

definition vkill :: "int \<Rightarrow> view \<Rightarrow> view" where
  "vkill pid v = (case vfind (\<lambda>x. p_pid x = pid) v of None \<Rightarrow> v
     | Some i \<Rightarrow> vproc (PProc i) (\<lambda>x. x\<lparr>p_killed := 1, p_state := if p_state x = SLEEPING then RUNNABLE else p_state x\<rparr>) v)"

lemma kill_at:
  assumes "kill a pid s = Ok (r, t)" "at_cpu a c s"
  shows "at_cpu a c t \<and> v_own (vw s) PtableLock = None \<and> vw t = vkill pid (vw s)"
proof -
  obtain s1 s2 where 1: "log_lock a RELEASED ACQUIRED s = Ok s1" and 2: "acquire a PtableLock s1 = Ok s2"
    and 3: "(case find_proc (\<lambda>x. p_pid x = pid) s2 of
         Some i \<Rightarrow>
           let s = upd_proc (PProc i) (\<lambda>x. x\<lparr>p_killed := 1\<rparr>) s2;
               s = (if p_state (k_procs s (PProc i)) = SLEEPING then set_state (PProc i) RUNNABLE s else s)
           in bindR (log_lock a ACQUIRED RELEASED s) (\<lambda>s. bindR (release a PtableLock s) (\<lambda>s. Ok (0, s)))
       | None \<Rightarrow>
           bindR (log_lock a ACQUIRED RELEASED s2) (\<lambda>s. bindR (release a PtableLock s) (\<lambda>s. Ok (-1, s)))) = Ok (r, t)"
    using assms(1) unfolding kill_def bindR_Ok_iff by blast
  have e2: "at_cpu a c s2" "vw s2 = vtake PtableLock c (vw s)" "v_own (vw s) PtableLock = None"
    using log_at(2) [OF 1 assms(2)] acquire_at [OF 2, of c] by auto
  show ?thesis
  proof (cases "vfind (\<lambda>x. p_pid x = pid) (vw s)")
    case None
    then show ?thesis
      using 3 e2 by (auto simp: find_proc_vw vkill_def ok_iff dest!: log_at release_at)
  next
    case (Some i)
    define u where "u = upd_proc (PProc i) (\<lambda>x. x\<lparr>p_killed := 1\<rparr>) s2"
    define w where "w = (if p_state (k_procs u (PProc i)) = SLEEPING then set_state (PProc i) RUNNABLE u else u)"
    have w: "at_cpu a c w" "vw w = vtake PtableLock c (vproc (PProc i)
       (\<lambda>x. x\<lparr>p_killed := 1, p_state := if p_state x = SLEEPING then RUNNABLE else p_state x\<rparr>) (vw s))"
      using e2 by (simp_all add: w_def u_def vw_set_state vw_upd_proc vproc_lock k_vw)
    have "bindR (log_lock a ACQUIRED RELEASED w) (\<lambda>s. bindR (release a PtableLock s) (\<lambda>s. Ok (0, s))) = Ok (r, t)"
      using 3 Some e2 by (simp add: find_proc_vw Let_def u_def w_def split: if_splits)
    then show ?thesis
      using w e2 Some by (auto simp: ok_iff vkill_def dest!: log_at release_at)
  qed
qed

lemma set_clock_at:
  "set_clock pid k s = Ok t \<Longrightarrow> at_cpu a c s \<Longrightarrow> at_cpu a c t \<and> vw t = vw s"
  by (auto simp: set_clock_def rdtsc_def Let_def ok_iff split: if_splits)
     (simp_all add: vw_def cpu_index_def at_cpu_def vok_def mach_ok_def cli_ok_def readeflags_def)

lemma first_running_at:
  "first_running pid s = Ok t \<Longrightarrow> at_cpu a c s \<Longrightarrow> at_cpu a c t \<and> vw t = vw s"
proof -
  have *: "vw (s\<lparr>k_first_run := f\<rparr>) = vw s" "at_cpu a c (s\<lparr>k_first_run := f\<rparr>) = at_cpu a c s"
    for s :: "'a sched_state_scheme" and f
    by (simp_all add: vw_def cpu_index_def at_cpu_def vok_def mach_ok_def cli_ok_def readeflags_def)
  show "first_running pid s = Ok t \<Longrightarrow> at_cpu a c s \<Longrightarrow> at_cpu a c t \<and> vw t = vw s"
    by (auto simp: first_running_def ok_iff * split: if_splits dest!: set_clock_at)
qed

definition vcur :: "nat \<Rightarrow> pref \<Rightarrow> view \<Rightarrow> view" where
  "vcur c p v = v\<lparr>v_cproc := (v_cproc v)(c := p)\<rparr>"

lemma vcur_fields [simp]:
  "v_ncpu (vcur c p v) = v_ncpu v" "v_idx (vcur c p v) = v_idx v" "v_ncli (vcur c p v) = v_ncli v"
  "v_procs (vcur c p v) = v_procs v" "v_own (vcur c p v) = v_own v" "v_nextpid (vcur c p v) = v_nextpid v"
  "v_init (vcur c p v) = v_init v" "v_mrq (vcur c p v) = v_mrq v" "v_cproc (vcur c p v) = (v_cproc v)(c := p)"
  by (simp_all add: vcur_def)

lemma upd_cproc:
  "vw (upd_cpu d (\<lambda>u. u\<lparr>c_proc := p\<rparr>) s) = vcur d p (vw s)"
  "at_cpu a c (upd_cpu d (\<lambda>u. u\<lparr>c_proc := p\<rparr>) s) = at_cpu a c s"
proof -
  let ?t = "upd_cpu d (\<lambda>u. u\<lparr>c_proc := p\<rparr>) s"
  have ix: "cpu_index b ?t = cpu_index b s" for b
    unfolding cpu_index_def by (rule arg_cong2 [of _ _ _ _ List.find]) (auto simp: upd_cpu_def fun_eq_iff)
  then show "vw ?t = vcur d p (vw s)" by (simp add: vw_def vcur_def) (simp add: upd_cpu_def fun_eq_iff)
  have "cli_ok b i ?t = cli_ok b i s" for b i
    using ix by (simp add: cli_ok_def upd_cpu_def readeflags_def)
  then show "at_cpu a c ?t = at_cpu a c s"
    using ix by (simp add: at_cpu_def vok_def mach_ok_def, simp add: upd_cpu_def)
qed

lemma pushcli_popcli_at:
  fixes s s1 s2 t :: "'z sched_state_scheme"
  assumes "at_cpu a c s" "pushcli a s = Ok s1"
    and "m_cpus s2 = m_cpus s1" "m_hw s2 = m_hw s1" "m_locks s2 = m_locks s1" "m_ncpu s2 = m_ncpu s1"
      "k_procs s2 = k_procs s1" "k_nextpid s2 = k_nextpid s1" "k_initproc s2 = k_initproc s1" "k_mrq s2 = k_mrq s1"
      "k_bufsize s2 = k_bufsize s1"
    and "popcli a s2 = Ok t"
  shows "at_cpu a c t \<and> vw t = vw s"
proof -
  have ok: "cli_ok a c s" "cpu_index a s = Some c" using assms(1) by (auto simp: at_cpu_def vok_def mach_ok_cli)
  have s1: "s1 = push_st a c s" using assms(2) ok by (simp add: pushcli_Ok)
  have "popcli a (push_st a c s) = Ok (save_st a c s)" using ok(1) by (rule popcli_push)
  have "cpu_index a s2 = cpu_index a s1" "readeflags a s2 = readeflags a s1"
    using assms(3,4,6) by (simp_all add: cpu_index_def readeflags_def)
  then have t: "t = pop_st a c s2"
    using assms(3,12) ok by (auto simp: s1 cli_ok_def popcli_Ok)
  have f: "m_cpus t = m_cpus (save_st a c s)" "m_hw t = m_hw (save_st a c s)" "m_locks t = m_locks (save_st a c s)"
      "m_ncpu t = m_ncpu (save_st a c s)"
    unfolding t pop_push [OF ok(1), symmetric] using assms(3-6) by (simp_all add: s1 pop_st_def machine_defs)
  have "lock_eq (save_st a c s) t" using f by (intro lock_eqI_machine) auto
  then have le: "lock_eq s t" using lock_eq_save lock_eq_trans by blast
  moreover have "k_procs t = k_procs s" "k_nextpid t = k_nextpid s" "k_initproc t = k_initproc s"
      "k_mrq t = k_mrq s" "k_bufsize t = k_bufsize s"
    unfolding t using assms(7-11) by (simp_all add: s1 pop_st_def push_st_def save_st_def machine_defs)
  ultimately show ?thesis
    using assms(1) lock_eq_index [OF le, of a] vw_lock_eq [OF le] mach_ok_lock_eq [OF le]
    by (auto simp: at_cpu_def vok_def)
qed

lemma switchuvm_at:
  assumes "switchuvm a p s = Ok t" "at_cpu a c s"
  shows "p \<noteq> PNull \<and> at_cpu a c t \<and> vw t = vw s"
proof -
  obtain s1 d where "p \<noteq> PNull" "pushcli a s = Ok s1"
      "popcli a (s1\<lparr>k_esp0 := (k_esp0 s1)(d := p_kstack (k_procs s1 p) + KSTACKSIZE),
                    k_cr3 := (k_cr3 s1)(a := p_pgdir (k_procs s1 p) - KERNBASE)\<rparr>) = Ok t"
    using assms(1) by (auto simp: switchuvm_def ok_iff Let_def split: if_splits)
  from pushcli_popcli_at [OF assms(2) this(2) _ _ _ _ _ _ _ _ _ this(3)] this(1) show ?thesis by simp
qed

lemma run_proc_at:
  assumes "run_proc a c p s = Ok t" "at_cpu a c s"
  shows "p \<noteq> PNull \<and> at_cpu a c t \<and> vw t = vproc p (\<lambda>x. x\<lparr>p_state := RUNNING\<rparr>) (vcur c p (vw s))"
  using assms
  by (auto simp: run_proc_def Let_def ok_iff vw_set_state upd_cproc dest!: switchuvm_at first_running_at log_at)

lemma sched_back_at: "at_cpu a c (sched_back b d s) = at_cpu a c s" "vw (sched_back b d s) = vcur d PNull (vw s)"
proof -
  have "vw (switchkvm b s) = vw s" "at_cpu a c (switchkvm b s) = at_cpu a c s"
    by (simp_all add: switchkvm_def vw_def cpu_index_def at_cpu_def vok_def mach_ok_def cli_ok_def readeflags_def)
  then show "at_cpu a c (sched_back b d s) = at_cpu a c s" "vw (sched_back b d s) = vcur d PNull (vw s)"
    by (simp_all add: sched_back_def upd_cproc)
qed

lemma sti_at:
  assumes "at_cpu a c s" "v_ncli (vw s) c = 0"
  shows "at_cpu a c (sti a s) \<and> vw (sti a s) = vw s"
proof -
  have "mach_ok (sti a s)"
    using assms
    by (intro mach_ok_only [OF _ _ only_cpu_ops(5), of s a c])
       (auto simp: at_cpu_def vok_def mach_ok_def cli_ok_def vw_fields)
  then show ?thesis
    using assms(1) by (auto simp: at_cpu_def vok_def vw_def sti_def cpu_index_def)
qed

lemma cli_at:
  assumes "at_cpu a c s"
  shows "at_cpu a c (cli a s) \<and> vw (cli a s) = vw s"
proof -
  have "mach_ok (cli a s)"
    using assms
    by (intro mach_ok_only [OF _ _ only_cpu_ops(6), of s a c])
       (auto simp: at_cpu_def vok_def mach_ok_def cli_ok_def vw_fields)
  then show ?thesis
    using assms(1) by (auto simp: at_cpu_def vok_def vw_def cli_def cpu_index_def)
qed

lemma rr_enter_at:
  "rr_enter a s = Ok t \<Longrightarrow> at_cpu a c s \<Longrightarrow> v_ncli (vw s) c = 0 \<Longrightarrow>
     at_cpu a c t \<and> v_own (vw s) PtableLock = None \<and> vw t = vtake PtableLock c (vw s)"
  using sti_at [of a c s] by (auto simp: rr_enter_def ok_iff dest!: log_at acquire_at)

lemma rr_slot_at:
  "rr_slot a c i s = Ok (b, t) \<Longrightarrow> at_cpu a c s \<Longrightarrow>
     at_cpu a c t \<and> (b \<longleftrightarrow> p_state (v_procs (vw s) (PProc i)) = RUNNABLE) \<and>
     vw t = (if b then vproc (PProc i) (\<lambda>x. x\<lparr>p_state := RUNNING\<rparr>) (vcur c (PProc i) (vw s)) else vw s)"
  by (auto simp: rr_slot_def ok_iff k_vw split: if_splits dest!: run_proc_at)

lemma rr_leave_at:
  "rr_leave a s = Ok t \<Longrightarrow> at_cpu a c s \<Longrightarrow>
     at_cpu a c t \<and> v_own (vw s) PtableLock = Some c \<and> vw t = vdrop PtableLock c (vw s)"
  by (auto simp: rr_leave_def ok_iff dest!: log_at release_at)

section \<open>Effects of the table parts of fork, exit and wait\<close>

definition vpid :: "int \<Rightarrow> view \<Rightarrow> view" where
  "vpid n v = v\<lparr>v_nextpid := n\<rparr>"

lemma vpid_fields [simp]:
  "v_ncpu (vpid n v) = v_ncpu v" "v_idx (vpid n v) = v_idx v" "v_ncli (vpid n v) = v_ncli v"
  "v_procs (vpid n v) = v_procs v" "v_own (vpid n v) = v_own v" "v_nextpid (vpid n v) = n"
  "v_init (vpid n v) = v_init v" "v_mrq (vpid n v) = v_mrq v" "v_cproc (vpid n v) = v_cproc v"
  by (simp_all add: vpid_def)

lemma vpid_lock: "vpid n (vtake l c v) = vtake l c (vpid n v)"
  by (simp add: vpid_def vtake_def)

lemma upd_nextpid: "vw (s\<lparr>k_nextpid := n\<rparr>) = vpid n (vw s)" "at_cpu a c (s\<lparr>k_nextpid := n\<rparr>) = at_cpu a c s"
  by (simp_all add: vw_def vpid_def cpu_index_def at_cpu_def vok_def mach_ok_def cli_ok_def readeflags_def)

definition valloc :: "nat \<Rightarrow> view \<Rightarrow> view" where
  "valloc i v = vproc (PProc i) (\<lambda>x. x\<lparr>p_pid := v_nextpid v, p_state := EMBRYO\<rparr>) (vpid (v_nextpid v + 1) v)"

lemma allocproc_slot_at:
  assumes "allocproc_slot a s = Ok (p, t)" "at_cpu a c s"
  shows "at_cpu a c t \<and> v_own (vw s) PtableLock = None \<and>
     (case vfind (\<lambda>x. p_state x = UNUSED) (vw s) of
        None \<Rightarrow> p = PNull \<and> vw t = vw s
      | Some i \<Rightarrow> p = PProc i \<and> vw t = valloc i (vw s))"
proof -
  obtain s1 s2 where 1: "acquire a PtableLock s = Ok s1" and 2: "log_lock a RELEASED ACQUIRED s1 = Ok s2"
    and 3: "(case find_proc (\<lambda>x. p_state x = UNUSED) s2 of
         None \<Rightarrow>
           bindR (log_lock a ACQUIRED RELEASED s2) (\<lambda>s.
           bindR (release a PtableLock s) (\<lambda>s. Ok (PNull, s)))
       | Some i \<Rightarrow>
           if k_nextpid s2 = 2 ^ 31 - 1 then Undef ''nextpid: signed overflow'' else
           let p = PProc i;
               s = upd_proc p (\<lambda>x. x\<lparr>p_pid := k_nextpid s2\<rparr>) s2;
               s = s\<lparr>k_nextpid := k_nextpid s + 1\<rparr>
           in bindR (log_proc a p ALLOCPROC EMBRYO s) (\<lambda>s.
              bindR (log_lock a ACQUIRED RELEASED (set_state p EMBRYO s)) (\<lambda>s.
              bindR (release a PtableLock s) (\<lambda>s. Ok (p, s))))) = Ok (p, t)"
    using assms(1) unfolding allocproc_slot_def bindR_Ok_iff by blast
  have e2: "at_cpu a c s2" "vw s2 = vtake PtableLock c (vw s)" "v_own (vw s) PtableLock = None"
    using acquire_at [OF 1 assms(2)] log_at(2) [OF 2, of c] by auto
  show ?thesis
  proof (cases "vfind (\<lambda>x. p_state x = UNUSED) (vw s)")
    case None
    then show ?thesis using 3 e2 by (auto simp: find_proc_vw ok_iff dest!: log_at release_at)
  next
    case (Some i)
    then show ?thesis
      using 3 e2
      by (auto simp: find_proc_vw ok_iff Let_def vw_set_state vw_upd_proc upd_nextpid k_vw vproc_lock vpid_lock valloc_def
          split: if_splits dest!: log_at release_at)
  qed
qed

lemma fork_commit_at:
  assumes "fork_commit a np s = Ok (pid, t)" "at_cpu a c s" "\<not> v_mrq (vw s)"
  shows "at_cpu a c t \<and> v_own (vw s) PtableLock = None \<and> vw t = vproc np (\<lambda>x. x\<lparr>p_state := RUNNABLE\<rparr>) (vw s)"
proof -
  obtain s1 s2 s3 s4 where 1: "set_clock (p_pid (k_procs s np)) 0 s = Ok s1" "log_lock a RELEASED ACQUIRED s1 = Ok s2"
      "acquire a PtableLock s2 = Ok s3" "log_proc a np FORK RUNNABLE s3 = Ok s4"
    and 2: "bindR (if k_mrq (set_state np RUNNABLE s4)
                   then case fork_target [0..<m_ncpu (set_state np RUNNABLE s4)] None (int NPROC) (set_state np RUNNABLE s4) of
                          None \<Rightarrow> Panic ''target not exist''
                        | Some t \<Rightarrow> bindR (acquire a (RqLock t) (set_state np RUNNABLE s4)) (\<lambda>s.
                                    bindR (enqueue t np s) (release a (RqLock t)))
                   else Ok (set_state np RUNNABLE s4)) (\<lambda>s.
            bindR (release a PtableLock s) (\<lambda>s.
            bindR (log_lock a ACQUIRED RELEASED s) (\<lambda>s. Ok (p_pid (k_procs s4 np), s)))) = Ok (pid, t)
            \<or> p_pid (k_procs s4 np) \<noteq> p_pid (k_procs s np)"
    using assms(1) unfolding fork_commit_def bindR_Ok_iff Let_def by fastforce
  have e4: "at_cpu a c s4" "vw s4 = vtake PtableLock c (vw s)" "v_own (vw s) PtableLock = None"
    using set_clock_at [OF 1(1) assms(2)] log_at(2) [OF 1(2), of c] acquire_at [OF 1(3), of c] log_at(1) [OF 1(4), of c]
    by auto
  moreover have "p_pid (k_procs s4 np) = p_pid (k_procs s np)" "\<not> k_mrq (set_state np RUNNABLE s4)"
    using e4 assms(3) by (simp_all add: k_vw vw_set_state)
  ultimately show ?thesis
    using 2 by (auto simp: ok_iff vw_set_state vproc_lock dest!: log_at release_at)
qed

definition vparent :: "pref \<Rightarrow> pref \<Rightarrow> nat \<Rightarrow> view \<Rightarrow> view" where
  "vparent cur ini i v =
     (if p_parent (v_procs v (PProc i)) = cur
      then (if p_state (v_procs v (PProc i)) = ZOMBIE then vwake (chan_of ini) {..<NPROC} else id)
             (vproc (PProc i) (\<lambda>x. x\<lparr>p_parent := ini\<rparr>) v)
      else v)"

primrec vparents :: "pref \<Rightarrow> pref \<Rightarrow> nat list \<Rightarrow> view \<Rightarrow> view" where
  "vparents cur ini [] v = v"
| "vparents cur ini (i # js) v = vparents cur ini js (vparent cur ini i v)"

lemma vparent_fields [simp]:
  "v_ncpu (vparent cur ini i v) = v_ncpu v" "v_idx (vparent cur ini i v) = v_idx v" "v_ncli (vparent cur ini i v) = v_ncli v"
  "v_own (vparent cur ini i v) = v_own v" "v_nextpid (vparent cur ini i v) = v_nextpid v"
  "v_init (vparent cur ini i v) = v_init v" "v_mrq (vparent cur ini i v) = v_mrq v" "v_cproc (vparent cur ini i v) = v_cproc v"
  by (simp_all add: vparent_def)

lemma vparents_fields [simp]:
  "v_ncpu (vparents cur ini js v) = v_ncpu v" "v_idx (vparents cur ini js v) = v_idx v"
  "v_ncli (vparents cur ini js v) = v_ncli v" "v_own (vparents cur ini js v) = v_own v"
  "v_nextpid (vparents cur ini js v) = v_nextpid v" "v_init (vparents cur ini js v) = v_init v"
  "v_mrq (vparents cur ini js v) = v_mrq v" "v_cproc (vparents cur ini js v) = v_cproc v"
  by (induction js arbitrary: v) simp_all

lemma reparent_from_at:
  "reparent_from a cur js s = Ok t \<Longrightarrow> at_cpu a c s \<Longrightarrow> \<not> v_mrq (vw s) \<Longrightarrow>
     at_cpu a c t \<and> vw t = vparents cur (v_init (vw s)) js (vw s)"
proof (induction js arbitrary: s)
  case Nil
  then show ?case by simp
next
  case (Cons i js)
  show ?case
  proof (cases "p_parent (v_procs (vw s) (PProc i)) = cur")
    case False
    then show ?thesis using Cons.IH [of s] Cons.prems by (simp add: k_vw vparent_def)
  next
    case True
    define u where "u = upd_proc (PProc i) (\<lambda>x. x\<lparr>p_parent := v_init (vw s)\<rparr>) s"
    have u: "at_cpu a c u" "vw u = vproc (PProc i) (\<lambda>x. x\<lparr>p_parent := v_init (vw s)\<rparr>) (vw s)"
      using Cons.prems(2) by (simp_all add: u_def vw_upd_proc)
    obtain w where w: "(if p_state (k_procs u (PProc i)) = ZOMBIE then wakeup1 a (chan_of (k_initproc u)) u else Ok u) = Ok w"
        "reparent_from a cur js w = Ok t"
    proof -
      have "p_parent (k_procs s (PProc i)) = cur" "k_initproc s = v_init (vw s)" using True by (simp_all add: k_vw)
      then have "bindR (if p_state (k_procs u (PProc i)) = ZOMBIE then wakeup1 a (chan_of (k_initproc u)) u else Ok u)
          (reparent_from a cur js) = Ok t"
        using Cons.prems(1) by (simp only: reparent_from.simps Let_def if_True u_def simp_thms)
      then show thesis using that by (auto simp only: bindR_Ok_iff)
    qed
    have "at_cpu a c w \<and> vw w = vparent cur (v_init (vw s)) i (vw s)"
      using w(1) u True Cons.prems(3) by (auto simp: k_vw vparent_def split: if_splits dest!: wakeup1_at)
    with Cons.IH [OF w(2)] Cons.prems(3) show ?thesis by simp
  qed
qed

lemma exit_commit_at:
  assumes "exit_commit a cur s = Ok t" "at_cpu a c s" "\<not> v_mrq (vw s)"
  shows "\<exists>e. at_cpu a c t \<and> v_own (vw s) PtableLock = None \<and> v_ncli (vw s) c = 0 \<and> v_cproc (vw s) c \<noteq> PNull \<and>
     vw t = vproc (v_cproc (vw s) c) (\<lambda>x. x\<lparr>p_context := CtxExit e c\<rparr>)
       (vproc cur (\<lambda>x. x\<lparr>p_state := ZOMBIE\<rparr>)
         (vparents cur (v_init (vw s)) [0..<NPROC]
           (vwake (chan_of (p_parent (v_procs (vw s) cur))) {..<NPROC} (vtake PtableLock c (vw s)))))"
proof -
  obtain s1 s2 s3 s4 s5 s6 where 1: "log_lock a RELEASED ACQUIRED s = Ok s1" and 2: "acquire a PtableLock s1 = Ok s2"
    and 3: "wakeup1 a (chan_of (p_parent (k_procs s2 cur))) s2 = Ok s3"
    and 4: "reparent_from a cur [0..<NPROC] s3 = Ok s4" and 5: "set_clock (p_pid (k_procs s4 cur)) 2 s4 = Ok s5"
    and 6: "log_proc a cur EXIT ZOMBIE s5 = Ok s6" and 7: "sched_enter a CtxExit (set_state cur ZOMBIE s6) = Ok t"
    using assms(1) unfolding exit_commit_def bindR_Ok_iff by blast
  have e2: "at_cpu a c s2 \<and> vw s2 = vtake PtableLock c (vw s) \<and> v_own (vw s) PtableLock = None"
    using log_at(2) [OF 1 assms(2)] acquire_at [OF 2, of c] by auto
  have e3: "at_cpu a c s3 \<and> vw s3 = vwake (chan_of (p_parent (v_procs (vw s) cur))) {..<NPROC} (vtake PtableLock c (vw s))"
    using wakeup1_at [OF 3, of c] e2 assms(3) by (simp add: k_vw)
  have e4: "at_cpu a c s4 \<and> vw s4 = vparents cur (v_init (vw s)) [0..<NPROC] (vw s3)"
    using reparent_from_at [OF 4, of c] e3 assms(3) by simp
  have e6: "at_cpu a c s6 \<and> vw s6 = vw s4"
    using set_clock_at [OF 5, of a c] log_at(1) [OF 6, of c] e4 by auto
  have "\<not> v_mrq (vw (set_state cur ZOMBIE s6))" using assms(3) e6 e4 e3 by (simp add: vw_set_state)
  moreover have "at_cpu a c (set_state cur ZOMBIE s6)" using e6 by simp
  ultimately obtain e where "at_cpu a c t" "v_ncli (vw (set_state cur ZOMBIE s6)) c = 1"
      "v_cproc (vw (set_state cur ZOMBIE s6)) c \<noteq> PNull"
      "vw t = vproc (v_cproc (vw (set_state cur ZOMBIE s6)) c) (\<lambda>x. x\<lparr>p_context := CtxExit e c\<rparr>) (vw (set_state cur ZOMBIE s6))"
    using sched_enter_at [OF 7] by blast
  moreover have "vw (set_state cur ZOMBIE s6) = vproc cur (\<lambda>x. x\<lparr>p_state := ZOMBIE\<rparr>) (vparents cur (v_init (vw s)) [0..<NPROC]
      (vwake (chan_of (p_parent (v_procs (vw s) cur))) {..<NPROC} (vtake PtableLock c (vw s))))"
    using e3 e4 e6 by (simp only: vw_set_state)
  ultimately show ?thesis using e2 by (intro exI [of _ e]) simp
qed

end
