(* ===== verification/SchedInv.thy ===== *)
theory SchedInv
  imports SchedView
begin

text \<open>
  The whole scheduler under interleaving, for the round robin configuration that proc.h ships: each
  processor is in its scheduler loop or runs a process, which may yield, sleep, wake others, kill,
  take and release spin locks, fork, exit and wait; any processor may take the next step, and an
  interrupt may come between two steps whenever the interrupt flag is set. The
  invariant shows that a process runs on at most one processor and that identifiers are unique.
\<close>

section \<open>The transition system\<close>

text \<open>
  Where a process is in the kernel: anywhere outside the following (user code included); waking up in \<^verbatim>\<open>sleep\<close>,
  about to take its lock again; in the loop of \<^verbatim>\<open>wait\<close>; in \<^verbatim>\<open>fork\<close>, with a new slot allocated; in a trap
  handler that has interrupted it there.
\<close>

datatype ploc =
    PRun
  | PRelock lockid
  | PWait
  | PFork nat
  | PIntr ploc

text \<open>
  Where a processor is: at the top of the loop of \<^verbatim>\<open>scheduler\<close>; in a trap handler that has interrupted it there; in
  its scan of the table, about to look at a slot; running the process in a slot.
\<close>

datatype loc =
    LTop
  | LIdle
  | LScan nat
  | LProc nat ploc

text \<open>The code in which a processor calls \<^verbatim>\<open>wakeup\<close> and takes and releases locks: processes and handlers.\<close>

fun in_code :: "loc \<Rightarrow> bool" where
  "in_code LIdle = True"
| "in_code (LProc i PRun) = True"
| "in_code (LProc i (PFork j)) = True"
| "in_code (LProc i (PIntr p)) = True"
| "in_code _ = False"

text \<open>\<^verbatim>\<open>yield\<close> is called by system calls and, on a tick of the clock, by the trap handler.\<close>

fun may_yield :: "ploc \<Rightarrow> bool" where
  "may_yield PRun = True"
| "may_yield (PIntr p) = True"
| "may_yield _ = False"

text \<open>\<^verbatim>\<open>exit\<close>, which may sleep on its way, is called by a system call and, for a killed process in user space, by the trap handler.\<close>

fun may_exit :: "ploc \<Rightarrow> bool" where
  "may_exit PRun = True"
| "may_exit (PIntr p) = (p = PRun)"
| "may_exit _ = False"

text \<open>The switch to a process: it continues where its context says; \<open>q\<close> is where it called \<^verbatim>\<open>yield\<close>.\<close>

definition resume :: "uchar \<Rightarrow> nat \<Rightarrow> ploc \<Rightarrow> kcontext \<Rightarrow> 'z sched_state_scheme \<Rightarrow> ('z sched_state_scheme \<times> ploc) res" where
  "resume a i q ctx s =
     (case ctx of
        CtxNone \<Rightarrow> Undef ''no context''
      | CtxForkret \<Rightarrow> bindR (forkret a s) (\<lambda>(b, s). Ok (s, PRun))
      | CtxYield e cc \<Rightarrow> bindR (yield_return a e cc s) (\<lambda>s. Ok (s, q))
      | CtxSleep l e cc \<Rightarrow>
          bindR (sleep_wake a (PProc i) l e cc s) (\<lambda>s. Ok (s, if l = PtableLock then PWait else PRelock l))
      | CtxExit e cc \<Rightarrow> Panic ''zombie exit'')"

text \<open>The assignments of \<^verbatim>\<open>fork\<close> to the new process; \<open>pgdir\<close>, \<open>ofile\<close> and \<open>cwd\<close> are what
  \<^verbatim>\<open>copyuvm\<close>, \<^verbatim>\<open>filedup\<close> and \<^verbatim>\<open>idup\<close> returned.\<close>

definition fork_fill ::
  "pref \<Rightarrow> pref \<Rightarrow> uint \<Rightarrow> (nat \<Rightarrow> nat option) \<Rightarrow> nat option \<Rightarrow> 'z sched_state_scheme \<Rightarrow> 'z sched_state_scheme" where
  "fork_fill np cur pgdir ofile cwd s =
     upd_proc np (\<lambda>x. x\<lparr>p_pgdir := pgdir, p_sz := p_sz (k_procs s cur), p_parent := cur,
        p_tf := (p_tf (k_procs s cur))\<lparr>tf_eax := 0\<rparr>, p_ofile := ofile, p_cwd := cwd,
        p_name := p_name (k_procs s cur)\<rparr>) s"

definition fork_undo :: "pref \<Rightarrow> 'z sched_state_scheme \<Rightarrow> 'z sched_state_scheme" where
  "fork_undo np s = upd_proc np (\<lambda>x. x\<lparr>p_pgdir := 0, p_kstack := 0, p_state := UNUSED\<rparr>) s"

text \<open>
  The steps, on the state, the locations of the processors and, for each process, where it called \<^verbatim>\<open>yield\<close> last. A trap clears
  the interrupt flag, and the return from it sets it again; the handler has released its locks by then.
\<close>

inductive sys_step ::
  "(uint \<Rightarrow> 'z sched_state_scheme \<Rightarrow> 'z sched_state_scheme res) \<Rightarrow>
   (uint \<Rightarrow> 'z sched_state_scheme \<Rightarrow> 'z sched_state_scheme res) \<Rightarrow>
   'z sched_state_scheme \<times> (nat \<Rightarrow> loc) \<times> (nat \<Rightarrow> ploc) \<Rightarrow> 'z sched_state_scheme \<times> (nat \<Rightarrow> loc) \<times> (nat \<Rightarrow> ploc) \<Rightarrow> bool"
  for kfree freevm where
  ss_sti: "cpu_index a s = Some c \<Longrightarrow> L c = LTop \<Longrightarrow> sys_step kfree freevm (s, L, Q) (sti a s, L, Q)"
| ss_intr_idle: "cpu_index a s = Some c \<Longrightarrow> L c = LTop \<Longrightarrow> readeflags a s AND FL_IF \<noteq> 0 \<Longrightarrow>
     sys_step kfree freevm (s, L, Q) (cli a s, L(c := LIdle), Q)"
| ss_iret_idle: "cpu_index a s = Some c \<Longrightarrow> L c = LIdle \<Longrightarrow> c_ncli (m_cpus s c) = 0 \<Longrightarrow>
     sys_step kfree freevm (s, L, Q) (sti a s, L(c := LTop), Q)"
| ss_intr: "cpu_index a s = Some c \<Longrightarrow> L c = LProc i p \<Longrightarrow> readeflags a s AND FL_IF \<noteq> 0 \<Longrightarrow>
     sys_step kfree freevm (s, L, Q) (cli a s, L(c := LProc i (PIntr p)), Q)"
| ss_iret: "cpu_index a s = Some c \<Longrightarrow> L c = LProc i (PIntr p) \<Longrightarrow> c_ncli (m_cpus s c) = 0 \<Longrightarrow>
     sys_step kfree freevm (s, L, Q) (sti a s, L(c := LProc i p), Q)"
| ss_enter: "cpu_index a s = Some c \<Longrightarrow> L c = LTop \<Longrightarrow> rr_enter a s = Ok t \<Longrightarrow>
     sys_step kfree freevm (s, L, Q) (t, L(c := LScan 0), Q)"
| ss_skip: "cpu_index a s = Some c \<Longrightarrow> L c = LScan i \<Longrightarrow> i < NPROC \<Longrightarrow> rr_slot a c i s = Ok (False, t) \<Longrightarrow>
     sys_step kfree freevm (s, L, Q) (t, L(c := LScan (Suc i)), Q)"
| ss_run: "cpu_index a s = Some c \<Longrightarrow> L c = LScan i \<Longrightarrow> i < NPROC \<Longrightarrow> rr_slot a c i s = Ok (True, t) \<Longrightarrow>
     resume a i (Q i) (p_context (k_procs t (PProc i))) t = Ok (u, p) \<Longrightarrow>
     sys_step kfree freevm (s, L, Q) (u, L(c := LProc i p), Q(i := PRun))"
| ss_leave: "cpu_index a s = Some c \<Longrightarrow> L c = LScan NPROC \<Longrightarrow> rr_leave a s = Ok t \<Longrightarrow>
     sys_step kfree freevm (s, L, Q) (t, L(c := LTop), Q)"
| ss_relock: "cpu_index a s = Some c \<Longrightarrow> L c = LProc i (PRelock l) \<Longrightarrow> l \<noteq> PtableLock \<Longrightarrow> acquire a l s = Ok t \<Longrightarrow>
     sys_step kfree freevm (s, L, Q) (t, L(c := LProc i PRun), Q)"
| ss_yield: "cpu_index a s = Some c \<Longrightarrow> L c = LProc i p \<Longrightarrow> may_yield p \<Longrightarrow> yield_enter a s = Ok t \<Longrightarrow>
     sys_step kfree freevm (s, L, Q) (sched_back a c t, L(c := LScan (Suc i)), Q(i := p))"
| ss_sleep: "cpu_index a s = Some c \<Longrightarrow> L c = LProc i p \<Longrightarrow> may_exit p \<Longrightarrow> l \<noteq> PtableLock \<Longrightarrow> sleep_enter a ch (Some l) s = Ok t \<Longrightarrow>
     sys_step kfree freevm (s, L, Q) (sched_back a c t, L(c := LScan (Suc i)), Q)"
| ss_wakeup: "cpu_index a s = Some c \<Longrightarrow> in_code (L c) \<Longrightarrow> wakeup a ch s = Ok t \<Longrightarrow>
     sys_step kfree freevm (s, L, Q) (t, L, Q)"
| ss_kill: "cpu_index a s = Some c \<Longrightarrow> L c = LProc i PRun \<Longrightarrow> kill a pid s = Ok (r, t) \<Longrightarrow>
     sys_step kfree freevm (s, L, Q) (t, L, Q)"
| ss_lock: "cpu_index a s = Some c \<Longrightarrow> in_code (L c) \<Longrightarrow> l \<noteq> PtableLock \<Longrightarrow> acquire a l s = Ok t \<Longrightarrow>
     sys_step kfree freevm (s, L, Q) (t, L, Q)"
| ss_unlock: "cpu_index a s = Some c \<Longrightarrow> in_code (L c) \<Longrightarrow> l \<noteq> PtableLock \<Longrightarrow> release a l s = Ok t \<Longrightarrow>
     sys_step kfree freevm (s, L, Q) (t, L, Q)"
| ss_alloc: "cpu_index a s = Some c \<Longrightarrow> L c = LProc i PRun \<Longrightarrow> allocproc_slot a s = Ok (PProc j, t) \<Longrightarrow>
     sys_step kfree freevm (s, L, Q) (t, L(c := LProc i (PFork j)), Q)"
| ss_full: "cpu_index a s = Some c \<Longrightarrow> L c = LProc i PRun \<Longrightarrow> allocproc_slot a s = Ok (PNull, t) \<Longrightarrow>
     sys_step kfree freevm (s, L, Q) (t, L, Q)"
| ss_nostack: "cpu_index a s = Some c \<Longrightarrow> L c = LProc i (PFork j) \<Longrightarrow> allocproc_stack (PProc j) 0 s = (p, t) \<Longrightarrow>
     sys_step kfree freevm (s, L, Q) (t, L(c := LProc i PRun), Q)"
| ss_nomem: "cpu_index a s = Some c \<Longrightarrow> L c = LProc i (PFork j) \<Longrightarrow>
     sys_step kfree freevm (s, L, Q) (fork_undo (PProc j) s, L(c := LProc i PRun), Q)"
| ss_fork: "cpu_index a s = Some c \<Longrightarrow> L c = LProc i (PFork j) \<Longrightarrow> k \<noteq> 0 \<Longrightarrow> allocproc_stack (PProc j) k s = (p, t) \<Longrightarrow>
     fork_commit a (PProc j) (fork_fill (PProc j) (PProc i) pgdir ofile cwd t) = Ok (pid, u) \<Longrightarrow>
     sys_step kfree freevm (s, L, Q) (u, L(c := LProc i PRun), Q)"
| ss_exit: "cpu_index a s = Some c \<Longrightarrow> L c = LProc i p \<Longrightarrow> may_exit p \<Longrightarrow> exit_commit a (PProc i) s = Ok t \<Longrightarrow>
     sys_step kfree freevm (s, L, Q) (sched_back a c t, L(c := LScan (Suc i)), Q)"
| ss_wait: "cpu_index a s = Some c \<Longrightarrow> L c = LProc i PRun \<Longrightarrow> wait_enter a s = Ok (p, t) \<Longrightarrow>
     sys_step kfree freevm (s, L, Q) (t, L(c := LProc i PWait), Q)"
| ss_waited: "cpu_index a s = Some c \<Longrightarrow> L c = LProc i PWait \<Longrightarrow> wait_round kfree freevm a (PProc i) s = Ok (Some r, t) \<Longrightarrow>
     sys_step kfree freevm (s, L, Q) (t, L(c := LProc i PRun), Q)"
| ss_waits: "cpu_index a s = Some c \<Longrightarrow> L c = LProc i PWait \<Longrightarrow> wait_round kfree freevm a (PProc i) s = Ok (None, t) \<Longrightarrow>
     sys_step kfree freevm (s, L, Q) (sched_back a c t, L(c := LScan (Suc i)), Q)"

section \<open>The invariant\<close>

fun runs :: "loc \<Rightarrow> nat option" where
  "runs (LProc i p) = Some i"
| "runs _ = None"

fun plocked :: "ploc \<Rightarrow> bool" where
  "plocked PWait = True"
| "plocked (PIntr p) = plocked p"
| "plocked _ = False"

fun locked :: "loc \<Rightarrow> bool" where
  "locked (LScan i) = True"
| "locked (LProc i p) = plocked p"
| "locked _ = False"

definition cur_of :: "loc \<Rightarrow> pref" where
  "cur_of l = (case runs l of None \<Rightarrow> PNull | Some i \<Rightarrow> PProc i)"

text \<open>
  The slot that a process in \<^verbatim>\<open>fork\<close> has allocated. A processor holds it while the process runs there, and the
  process itself (\<open>Inr\<close>) while it is preempted.
\<close>

fun pfork :: "ploc \<Rightarrow> nat option" where
  "pfork (PFork j) = Some j"
| "pfork (PIntr p) = pfork p"
| "pfork _ = None"

fun embryo :: "loc \<Rightarrow> nat option" where
  "embryo (LProc i p) = pfork p"
| "embryo _ = None"

definition hold :: "(nat \<Rightarrow> loc) \<Rightarrow> (nat \<Rightarrow> ploc) \<Rightarrow> nat + nat \<Rightarrow> nat option" where
  "hold L Q x = (case x of Inl c \<Rightarrow> embryo (L c) | Inr i \<Rightarrow> pfork (Q i))"

abbreviation vstate :: "view \<Rightarrow> nat \<Rightarrow> procstate" where
  "vstate v i \<equiv> p_state (v_procs v (PProc i))"

abbreviation vpids :: "view \<Rightarrow> nat \<Rightarrow> int" where
  "vpids v i \<equiv> p_pid (v_procs v (PProc i))"

definition pid_ok :: "view \<Rightarrow> bool" where
  "pid_ok v \<longleftrightarrow> 0 < v_nextpid v \<and>
     (\<forall>i < NPROC. vstate v i \<noteq> UNUSED \<longrightarrow> 0 < vpids v i \<and> vpids v i < v_nextpid v) \<and>
     (\<forall>i < NPROC. \<forall>j < NPROC. vstate v i \<noteq> UNUSED \<longrightarrow> vstate v j \<noteq> UNUSED \<longrightarrow> vpids v i = vpids v j \<longrightarrow> i = j)"

definition cpu_inv :: "view \<Rightarrow> nat \<Rightarrow> loc \<Rightarrow> bool" where
  "cpu_inv v c l \<longleftrightarrow>
     v_cproc v c = cur_of l \<and> (v_own v PtableLock = Some c \<longleftrightarrow> locked l) \<and>
     (l = LTop \<longrightarrow> v_ncli v c = 0) \<and> ((\<exists>i. l = LScan i) \<longrightarrow> v_ncli v c = 1) \<and>
     (locked l \<longrightarrow> 0 < v_ncli v c) \<and> (\<forall>i p. l = LProc i (PIntr p) \<longrightarrow> \<not> locked l) \<and>
     (\<forall>i. runs l = Some i \<longrightarrow> i < NPROC \<and> vstate v i = RUNNING)"

definition emb_inv :: "view \<Rightarrow> (nat + nat \<Rightarrow> nat option) \<Rightarrow> bool" where
  "emb_inv v H \<longleftrightarrow> (\<forall>x j. H x = Some j \<longrightarrow> j < NPROC \<and> vstate v j = EMBRYO) \<and>
     (\<forall>x y j. H x = Some j \<longrightarrow> H y = Some j \<longrightarrow> x = y)"

definition sys_inv :: "view \<Rightarrow> (nat \<Rightarrow> loc) \<Rightarrow> (nat \<Rightarrow> ploc) \<Rightarrow> bool" where
  "sys_inv v L Q \<longleftrightarrow>
     \<not> v_mrq v \<and> pid_ok v \<and> (\<forall>c. cpu_inv v c (L c)) \<and>
     (\<forall>c d i. runs (L c) = Some i \<longrightarrow> runs (L d) = Some i \<longrightarrow> c = d) \<and>
     (\<forall>i. vstate v i = RUNNING \<longrightarrow> (\<exists>c. runs (L c) = Some i)) \<and> emb_inv v (hold L Q)"

lemma hold_simps [simp]:
  "hold L Q (Inl d) = embryo (L d)" "hold L Q (Inr i) = pfork (Q i)"
  by (simp_all add: hold_def)

lemma emb_invD:
  assumes "emb_inv v H"
  shows "H x = Some j \<Longrightarrow> j < NPROC" "H x = Some j \<Longrightarrow> vstate v j = EMBRYO" "H x = Some j \<Longrightarrow> H y = Some j \<Longrightarrow> x = y"
  using assms by (auto simp: emb_inv_def)

text \<open>Every holder after a step was one before it, perhaps under another name.\<close>

definition renames :: "(nat + nat \<Rightarrow> nat option) \<Rightarrow> (nat + nat \<Rightarrow> nat option) \<Rightarrow> bool" where
  "renames H H' \<longleftrightarrow> (\<exists>f. (\<forall>x j. H' x = Some j \<longrightarrow> H (f x) = Some j) \<and>
     (\<forall>x y j. H' x = Some j \<longrightarrow> H' y = Some j \<longrightarrow> f x = f y \<longrightarrow> x = y))"

lemma renames_keep: "(\<And>x j. H' x = Some j \<Longrightarrow> H x = Some j) \<Longrightarrow> renames H H'"
  unfolding renames_def by (intro exI [of _ "\<lambda>x. x"]) auto

lemma renames_scan: "renames (hold L Q) (hold (L(c := LScan n)) Q)"
  by (rule renames_keep) (auto simp: hold_def split: sum.splits if_splits)

lemma renames_yield: "L c = LProc i p \<Longrightarrow> renames (hold L Q) (hold (L(c := LScan n)) (Q(i := p)))"
  unfolding renames_def
  by (intro exI [of _ "\<lambda>x. if x = Inr i then Inl c else x"]) (auto simp: hold_def split: sum.splits if_splits)

lemma renames_run: "pfork p = None \<or> p = Q i \<Longrightarrow> renames (hold L Q) (hold (L(c := LProc i p)) (Q(i := PRun)))"
  unfolding renames_def
  by (intro exI [of _ "\<lambda>x. if x = Inl c then Inr i else x"]) (auto simp: hold_def split: sum.splits if_splits)

lemma emb_invI:
  assumes inv: "emb_inv v H" and ren: "renames H H'" and new: "\<And>x j. H x = Some j \<Longrightarrow> vstate v' j = EMBRYO"
  shows "emb_inv v' H'"
proof -
  obtain f where f: "\<And>x j. H' x = Some j \<Longrightarrow> H (f x) = Some j"
      "\<And>x y j. H' x = Some j \<Longrightarrow> H' y = Some j \<Longrightarrow> f x = f y \<Longrightarrow> x = y"
    using ren unfolding renames_def by blast
  show ?thesis unfolding emb_inv_def
  proof (intro conjI allI impI)
    fix x y j assume x: "H' x = Some j"
    note s = f(1) [OF x]
    show "j < NPROC" by (rule emb_invD(1) [OF inv s])
    show "vstate v' j = EMBRYO" by (rule new [OF s])
    assume y: "H' y = Some j"
    show "x = y" by (rule f(2) [OF x y emb_invD(3) [OF inv s f(1) [OF y]]])
  qed
qed

text \<open>A step of processor \<open>c\<close> that keeps the invariant of the others.\<close>

lemma sys_invI:
  assumes inv: "sys_inv v L Q"
    and other: "\<And>d. d \<noteq> c \<Longrightarrow> v_cproc v' d = v_cproc v d \<and> v_ncli v' d = v_ncli v d \<and>
        (v_own v' PtableLock = Some d \<longleftrightarrow> v_own v PtableLock = Some d)"
    and mine: "v_mrq v' = v_mrq v" "pid_ok v'" "cpu_inv v' c l"
    and run: "\<And>i. vstate v' i = RUNNING \<longleftrightarrow> runs l = Some i \<or> vstate v i = RUNNING \<and> runs (L c) \<noteq> Some i"
    and fresh: "\<And>i. runs l = Some i \<Longrightarrow> runs (L c) = Some i \<or> vstate v i \<noteq> RUNNING"
    and emb: "emb_inv v' (hold (L(c := l)) Q')"
  shows "sys_inv v' (L(c := l)) Q'"
proof -
  have ci: "cpu_inv v d (L d)" for d using inv by (simp add: sys_inv_def)
  have uniq: "runs (L d) = Some i \<Longrightarrow> runs (L e) = Some i \<Longrightarrow> d = e" for d e i
    using inv by (auto simp: sys_inv_def)
  have runc: "runs (L d) = Some i \<Longrightarrow> vstate v i = RUNNING" for d i using ci [of d] by (simp add: cpu_inv_def)
  have keep: "runs l \<noteq> Some i" "runs (L c) \<noteq> Some i" if "d \<noteq> c" "runs (L d) = Some i" for d i
    using that fresh [of i] runc [of d i] uniq [of d i c] by auto
  have "cpu_inv v' d (L d)" if "d \<noteq> c" for d
    using ci [of d] other [OF that] run keep [OF that] by (auto simp: cpu_inv_def)
  moreover have "\<exists>d. runs ((L(c := l)) d) = Some i" if "vstate v' i = RUNNING" for i
  proof (cases "runs l = Some i")
    case True
    then show ?thesis by (intro exI [of _ c]) simp
  next
    case False
    with that run have "vstate v i = RUNNING" "runs (L c) \<noteq> Some i" by auto
    moreover obtain d where "runs (L d) = Some i" using inv calculation(1) unfolding sys_inv_def by blast
    ultimately have "runs (L d) = Some i" "d \<noteq> c" by auto
    then show ?thesis by (intro exI [of _ d]) simp
  qed
  moreover have "d = e" if "runs ((L(c := l)) d) = Some i" "runs ((L(c := l)) e) = Some i" for d e i
    using that uniq [of d i e] keep [of d i] keep [of e i] by (simp split: if_splits)
  moreover have "\<not> v_mrq v'" using mine(1) inv by (simp add: sys_inv_def)
  moreover have "cpu_inv v' d ((L(c := l)) d)" for d using calculation(1) mine(3) by simp
  ultimately show ?thesis using mine(2) emb unfolding sys_inv_def by blast
qed

text \<open>Wakening, killing and giving up children change only states between sleeping and runnable.\<close>

definition calm :: "view \<Rightarrow> view \<Rightarrow> bool" where
  "calm v v' \<longleftrightarrow>
     v_ncpu v' = v_ncpu v \<and> v_idx v' = v_idx v \<and> v_cproc v' = v_cproc v \<and> v_ncli v' = v_ncli v \<and> v_own v' = v_own v \<and>
     v_nextpid v' = v_nextpid v \<and> v_init v' = v_init v \<and> v_mrq v' = v_mrq v \<and>
     (\<forall>q. p_pid (v_procs v' q) = p_pid (v_procs v q) \<and>
        (\<forall>st. st \<noteq> SLEEPING \<longrightarrow> st \<noteq> RUNNABLE \<longrightarrow> (p_state (v_procs v' q) = st \<longleftrightarrow> p_state (v_procs v q) = st)))"

lemma calm_refl [simp]: "calm v v"
  by (simp add: calm_def)

lemma calm_trans: "calm u v \<Longrightarrow> calm v w \<Longrightarrow> calm u w"
  by (simp add: calm_def)

lemma calm_vwake: "calm v (vwake ch A v)"
  by (auto simp: calm_def wake_fn_def woken_def)

lemma calm_vkill: "calm v (vkill pid v)"
  by (auto simp: calm_def vkill_def split: option.splits)

lemma calm_vparent: "calm v (vparent cur ini i v)"
proof -
  have "calm v (vproc (PProc i) (\<lambda>x. x\<lparr>p_parent := ini\<rparr>) v)" by (auto simp: calm_def)
  then show ?thesis using calm_vwake calm_trans by (auto simp: vparent_def)
qed

lemma calm_vparents: "calm v (vparents cur ini js v)"
  by (induction js arbitrary: v) (auto intro: calm_trans calm_vparent)

lemma calm_state:
  "calm v v' \<Longrightarrow> st \<noteq> SLEEPING \<Longrightarrow> st \<noteq> RUNNABLE \<Longrightarrow> p_state (v_procs v' q) = st \<longleftrightarrow> p_state (v_procs v q) = st"
  by (simp add: calm_def)

lemma calm_pid_ok: "calm v v' \<Longrightarrow> pid_ok v \<Longrightarrow> pid_ok v'"
  unfolding pid_ok_def using calm_state [of v v' UNUSED] by (simp add: calm_def)

lemma calm_inv: "calm v v' \<Longrightarrow> sys_inv v L Q \<Longrightarrow> sys_inv v' L Q"
  unfolding sys_inv_def cpu_inv_def emb_inv_def
  using calm_pid_ok [of v v'] calm_state [of v v' RUNNING] calm_state [of v v' EMBRYO]
  by (simp add: calm_def)

lemma pid_ok_lock [simp]: "pid_ok (vtake l c v) = pid_ok v" "pid_ok (vdrop l c v) = pid_ok v" "pid_ok (vcur c p v) = pid_ok v"
  by (simp_all add: pid_ok_def)

lemma pid_ok_proc:
  assumes "pid_ok v" "\<And>x. p_pid (f x) = p_pid x" "p_state (f (v_procs v p)) = UNUSED \<longleftrightarrow> p_state (v_procs v p) = UNUSED"
  shows "pid_ok (vproc p f v)"
proof -
  have "p_state (v_procs (vproc p f v) q) = UNUSED \<longleftrightarrow> p_state (v_procs v q) = UNUSED"
       "p_pid (v_procs (vproc p f v) q) = p_pid (v_procs v q)" for q
    using assms(2,3) by auto
  with assms(1) show ?thesis unfolding pid_ok_def by simp
qed

lemma pid_ok_free:
  assumes "pid_ok v" "p_state (f (v_procs v p)) = UNUSED"
  shows "pid_ok (vproc p f v)"
  using assms unfolding pid_ok_def by auto

text \<open>What the invariant says of one processor.\<close>

lemma sys_invD:
  assumes "sys_inv v L Q"
  shows "\<not> v_mrq v" "pid_ok v" "v_cproc v c = cur_of (L c)" "v_own v PtableLock = Some c \<longleftrightarrow> locked (L c)"
    "L c = LTop \<Longrightarrow> v_ncli v c = 0" "L c = LScan i \<Longrightarrow> v_ncli v c = 1"
    "runs (L c) = Some i \<Longrightarrow> i < NPROC \<and> vstate v i = RUNNING" "locked (L c) \<Longrightarrow> 0 < v_ncli v c"
    "L c = LProc i (PIntr p) \<Longrightarrow> \<not> locked (L c)"
  using assms by (auto simp: sys_inv_def cpu_inv_def)

lemma sys_inv_emb: "sys_inv v L Q \<Longrightarrow> emb_inv v (hold L Q)"
  by (simp add: sys_inv_def)

lemmas sys_inv_holdD = emb_invD [OF sys_inv_emb]

text \<open>A process gives up its processor: it leaves the state RUNNING, the processor holds
  \<^verbatim>\<open>ptable.lock\<close> and is back in its scan.\<close>

lemma sys_inv_switch:
  assumes inv: "sys_inv v L Q" and run: "runs (L c) = Some i" "renames (hold L Q) (hold (L(c := LScan n)) Q')"
    and calm: "calm (vcur c (cur_of (L c)) v) w" "v_own u PtableLock = Some c" "v_ncli u c = 1"
    and other: "\<And>d. d \<noteq> c \<Longrightarrow> v_ncli u d = v_ncli w d \<and> (v_own u PtableLock \<noteq> Some d \<and> v_own v PtableLock \<noteq> Some d)"
    and u: "v_cproc u = v_cproc w" "v_mrq u = v_mrq w" "v_nextpid u = v_nextpid w"
      "v_procs u = (v_procs w)(PProc i := f (v_procs w (PProc i)))"
    and f: "\<And>x. p_pid (f x) = p_pid x" "\<And>x. p_state (f x) = st" "st \<noteq> RUNNING" "st \<noteq> UNUSED" "st \<noteq> EMBRYO"
  shows "sys_inv (vcur c PNull u) (L(c := LScan n)) Q'"
proof -
  have ri: "i < NPROC" "vstate v i = RUNNING" using sys_invD(7) [OF inv run(1)] by auto
  have w: "v_cproc w = v_cproc v" "v_ncli w = v_ncli v" "v_own w = v_own v" "v_nextpid w = v_nextpid v" "v_mrq w = v_mrq v"
    using calm(1) sys_invD(3) [OF inv, of c] by (auto simp: calm_def)
  have st: "vstate w j = s \<longleftrightarrow> vstate v j = s" if "s \<noteq> SLEEPING" "s \<noteq> RUNNABLE" for j s
    using calm_state [OF calm(1), of s "PProc j"] that by simp
  have "pid_ok (vcur c (cur_of (L c)) v)" using sys_invD(2) [OF inv] by simp
  then have "pid_ok w" by (rule calm_pid_ok [OF calm(1)])
  moreover have "vstate w i \<noteq> UNUSED" using st [of UNUSED i] ri by simp
  ultimately have "pid_ok (vproc (PProc i) f w)" using f by (intro pid_ok_proc) auto
  then have pid: "pid_ok (vcur c PNull u)" using u by (simp add: pid_ok_def)
  show ?thesis
  proof (rule sys_invI [OF inv, where c = c])
    fix d assume "d \<noteq> c"
    then show "v_cproc (vcur c PNull u) d = v_cproc v d \<and> v_ncli (vcur c PNull u) d = v_ncli v d \<and>
        (v_own (vcur c PNull u) PtableLock = Some d \<longleftrightarrow> v_own v PtableLock = Some d)"
      using other [of d] u(1) w by simp
  next
    show "v_mrq (vcur c PNull u) = v_mrq v" using u w by simp
    show "pid_ok (vcur c PNull u)" by (rule pid)
    show "cpu_inv (vcur c PNull u) c (LScan n)" using calm(2,3) by (simp add: cpu_inv_def cur_of_def)
  next
    fix j
    show "vstate (vcur c PNull u) j = RUNNING \<longleftrightarrow>
        runs (LScan n) = Some j \<or> vstate v j = RUNNING \<and> runs (L c) \<noteq> Some j"
      using u(4) f(2,3) st [of RUNNING j] run(1) by auto
    show "runs (LScan n) = Some j \<Longrightarrow> runs (L c) = Some j \<or> vstate v j \<noteq> RUNNING" by simp
  next
    have "vstate (vcur c PNull u) j = EMBRYO" if "hold L Q x = Some j" for x j
      using sys_inv_holdD(2) [OF inv that] u(4) st [of EMBRYO j] ri by auto
    then show "emb_inv (vcur c PNull u) (hold (L(c := LScan n)) Q')"
      by (rule emb_invI [OF sys_inv_emb [OF inv] run(2)])
  qed
qed

text \<open>A step that leaves the processes alone but for slot \<open>j\<close>, which is neither running before nor
  after, and belongs to no other \<^verbatim>\<open>fork\<close>.\<close>

lemma hold_upd: "x \<noteq> Inl c \<Longrightarrow> hold (L(c := l)) Q x = hold L Q x"
  by (auto simp: hold_def split: sum.splits)

lemma emb_inv_slot:
  assumes inv: "emb_inv v (hold L Q)" and procs: "\<And>i. i \<noteq> j \<Longrightarrow> vstate v' i = vstate v i"
    and free: "\<And>x. x \<noteq> Inl c \<Longrightarrow> hold L Q x \<noteq> Some j"
    and emb: "embryo l = None \<or> embryo l = embryo (L c) \<and> embryo l \<noteq> Some j \<or>
        embryo l = Some j \<and> j < NPROC \<and> vstate v' j = EMBRYO"
  shows "emb_inv v' (hold (L(c := l)) Q)"
proof -
  have old: "hold L Q x = Some k" if "hold (L(c := l)) Q x = Some k" "k \<noteq> j" for x k
    using that emb by (cases "x = Inl c") (auto simp: hold_upd)
  have mine: "x = Inl c \<and> j < NPROC \<and> vstate v' j = EMBRYO" if "hold (L(c := l)) Q x = Some j" for x
    using that emb free [of x] by (cases "x = Inl c") (auto simp: hold_upd)
  show ?thesis unfolding emb_inv_def
  proof (intro conjI allI impI)
    fix x y k assume x: "hold (L(c := l)) Q x = Some k"
    show "k < NPROC" using mine [of x] old [OF x] x emb_invD(1) [OF inv] by (cases "k = j") auto
    show "vstate v' k = EMBRYO" using mine [of x] old [OF x] x emb_invD(2) [OF inv] procs [of k] by (cases "k = j") auto
    assume y: "hold (L(c := l)) Q y = Some k"
    show "x = y"
      using mine [of x] mine [of y] old [OF x] old [OF y] x y emb_invD(3) [OF inv, of x k y] by (cases "k = j") auto
  qed
qed

lemma sys_inv_slot:
  assumes inv: "sys_inv v L Q" and same: "runs l = runs (L c)" "v_cproc v' = v_cproc v" "v_mrq v' = v_mrq v"
    and others: "\<And>d. d \<noteq> c \<Longrightarrow> v_ncli v' d = v_ncli v d \<and> (v_own v' PtableLock = Some d \<longleftrightarrow> v_own v PtableLock = Some d)"
    and own: "v_own v' PtableLock = Some c \<longleftrightarrow> locked l"
    and ncli: "l = LTop \<Longrightarrow> v_ncli v' c = 0" "\<And>i. l = LScan i \<Longrightarrow> v_ncli v' c = 1" "locked l \<Longrightarrow> 0 < v_ncli v' c"
    and intr: "\<And>i p. l = LProc i (PIntr p) \<Longrightarrow> \<not> locked l"
    and procs: "\<And>i. i \<noteq> j \<Longrightarrow> v_procs v' (PProc i) = v_procs v (PProc i)"
    and slot: "vstate v j \<noteq> RUNNING" "vstate v' j \<noteq> RUNNING" "\<And>x. x \<noteq> Inl c \<Longrightarrow> hold L Q x \<noteq> Some j"
    and emb: "embryo l = None \<or> embryo l = embryo (L c) \<and> embryo l \<noteq> Some j \<or>
        embryo l = Some j \<and> j < NPROC \<and> vstate v' j = EMBRYO"
    and pid: "pid_ok v'"
  shows "sys_inv v' (L(c := l)) Q"
proof (rule sys_invI [OF inv])
  have st: "vstate v' i = RUNNING \<longleftrightarrow> vstate v i = RUNNING" for i
    using procs [of i] slot(1,2) by (cases "i = j") auto
  have rc: "runs (L c) = Some i \<Longrightarrow> i < NPROC \<and> vstate v i = RUNNING" for i by (rule sys_invD(7) [OF inv])
  fix d
  show "d \<noteq> c \<Longrightarrow> v_cproc v' d = v_cproc v d \<and> v_ncli v' d = v_ncli v d \<and>
      (v_own v' PtableLock = Some d \<longleftrightarrow> v_own v PtableLock = Some d)"
    using others same by simp
  show "v_mrq v' = v_mrq v" "pid_ok v'" using same pid by auto
  have "cur_of l = cur_of (L c)" using same by (simp add: cur_of_def)
  then show "cpu_inv v' c l"
    using sys_invD(3) [OF inv, of c] same own ncli intr rc st by (auto simp: cpu_inv_def)
  fix i
  show "vstate v' i = RUNNING \<longleftrightarrow> runs l = Some i \<or> vstate v i = RUNNING \<and> runs (L c) \<noteq> Some i"
    using st [of i] rc [of i] same by auto
  show "runs l = Some i \<Longrightarrow> runs (L c) = Some i \<or> vstate v i \<noteq> RUNNING" using same by simp
  show "emb_inv v' (hold (L(c := l)) Q)"
    using procs by (intro emb_inv_slot [OF sys_inv_emb [OF inv] _ slot(3) emb]) simp
qed

text \<open>The scheduler starts a runnable process.\<close>

lemma sys_inv_run:
  assumes inv: "sys_inv v L Q" and c: "L c = LScan n" "l = LProc i p" "pfork p = None \<or> p = Q i" "i < NPROC" "vstate v i = RUNNABLE"
    and u: "v_cproc u = (v_cproc v)(c := PProc i)" "v_mrq u = v_mrq v" "v_nextpid u = v_nextpid v"
      "v_procs u = (v_procs v)(PProc i := f (v_procs v (PProc i)))"
      "\<And>d. d \<noteq> c \<Longrightarrow> v_ncli u d = v_ncli v d" "v_own u PtableLock = (if locked l then Some c else None)"
      "locked l \<Longrightarrow> 0 < v_ncli u c" "\<And>i q. p = PIntr q \<Longrightarrow> \<not> plocked q"
    and f: "\<And>x. p_pid (f x) = p_pid x" "\<And>x. p_state (f x) = RUNNING"
  shows "sys_inv u (L(c := l)) (Q(i := PRun))"
proof (rule sys_invI [OF inv])
  have own: "v_own v PtableLock = Some c" using sys_invD(4) [OF inv, of c] c(1) by simp
  have "pid_ok (vproc (PProc i) f v)"
    using sys_invD(2) [OF inv] f c(5) by (intro pid_ok_proc) auto
  then show "pid_ok u" using u by (simp add: pid_ok_def)
  have "cur_of l = PProc i" using c(2) by (simp add: cur_of_def)
  then show "cpu_inv u c l" using c(2,4) u f(2) by (auto simp: cpu_inv_def)
  show "v_mrq u = v_mrq v" by (rule u(2))
  fix d
  show "d \<noteq> c \<Longrightarrow> v_cproc u d = v_cproc v d \<and> v_ncli u d = v_ncli v d \<and>
      (v_own u PtableLock = Some d \<longleftrightarrow> v_own v PtableLock = Some d)"
    using u own by auto
  fix j
  show "vstate u j = RUNNING \<longleftrightarrow> runs l = Some j \<or> vstate v j = RUNNING \<and> runs (L c) \<noteq> Some j"
    using u(4) f(2) c(1,2) by auto
  show "runs l = Some j \<Longrightarrow> runs (L c) = Some j \<or> vstate v j \<noteq> RUNNING" using c(2,5) by auto
  have "vstate u k = EMBRYO" if "hold L Q x = Some k" for x k
    using sys_inv_holdD(2) [OF inv that] u(4) c(5) by auto
  then show "emb_inv u (hold (L(c := l)) (Q(i := PRun)))"
    unfolding c(2) by (rule emb_invI [OF sys_inv_emb [OF inv] renames_run [of p Q i L c, OF c(3)]])
qed

lemma find_Some_vfind:
  assumes "vfind P v = Some j"
  shows "j < NPROC" "P (v_procs v (PProc j))"
  using assms by (auto simp: vfind_def find_Some_iff)

lemma pid_ok_valloc:
  assumes "pid_ok v"
  shows "pid_ok (valloc j v)"
  using assms unfolding pid_ok_def valloc_def by (auto simp: less_le)

section \<open>Releasing memory\<close>

text \<open>
  What the scheduler relies on of \<^verbatim>\<open>kfree\<close> and \<^verbatim>\<open>freevm\<close>, which \<^verbatim>\<open>wait\<close> calls with \<^verbatim>\<open>ptable.lock\<close> held:
  they leave the processes, the locks and the processors as they are.
\<close>

locale page_release =
  fixes kfree :: "uint \<Rightarrow> 'z sched_state_scheme \<Rightarrow> 'z sched_state_scheme res"
    and freevm :: "uint \<Rightarrow> 'z sched_state_scheme \<Rightarrow> 'z sched_state_scheme res"
  assumes kfree_quiet: "kfree p s = Ok t \<Longrightarrow> at_cpu a c s \<Longrightarrow> at_cpu a c t \<and> vw t = vw s"
    and freevm_quiet: "freevm p s = Ok t \<Longrightarrow> at_cpu a c s \<Longrightarrow> at_cpu a c t \<and> vw t = vw s"
begin

lemma wait_reap_at:
  assumes "log_proc a p WAIT UNUSED s = Ok s1" "kfree (p_kstack (k_procs s1 p)) s1 = Ok s2"
    and "freevm (p_pgdir (k_procs (upd_proc p (\<lambda>x. x\<lparr>p_kstack := 0\<rparr>) s2) p)) (upd_proc p (\<lambda>x. x\<lparr>p_kstack := 0\<rparr>) s2) = Ok s3"
    and "log_lock a ACQUIRED RELEASED (upd_proc p (\<lambda>x. x\<lparr>p_pid := 0, p_parent := PNull\<rparr>) s3) = Ok s4"
    and "release a PtableLock (upd_proc p (\<lambda>x. x\<lparr>p_name := [], p_killed := 0, p_state := UNUSED\<rparr>) s4) = Ok t"
    and "at_cpu a c s"
  shows "at_cpu a c t \<and> v_own (vw s) PtableLock = Some c \<and> vw t = vdrop PtableLock c (vproc p
     (\<lambda>x. x\<lparr>p_kstack := 0, p_pid := 0, p_parent := PNull, p_name := [], p_killed := 0, p_state := UNUSED\<rparr>) (vw s))"
proof -
  note e1 = log_at(1) [OF assms(1,6)]
  note e2 = kfree_quiet [OF assms(2) conjunct1 [OF e1]]
  have e3: "at_cpu a c s3 \<and> vw s3 = vproc p (\<lambda>x. x\<lparr>p_kstack := 0\<rparr>) (vw s)"
    using freevm_quiet [OF assms(3), of a c] e1 e2 by (simp add: vw_upd_proc)
  have e4: "at_cpu a c s4 \<and> vw s4 = vproc p (\<lambda>x. x\<lparr>p_kstack := 0, p_pid := 0, p_parent := PNull\<rparr>) (vw s)"
    using log_at(2) [OF assms(4), of c] e3 by (simp add: vw_upd_proc)
  show ?thesis
    using release_at [OF assms(5), of c] e4 by (simp add: vw_upd_proc)
qed

lemma wait_scan_at:
  "wait_scan kfree freevm a cur js hk s = Ok (r, hk', t) \<Longrightarrow> at_cpu a c s \<Longrightarrow>
     at_cpu a c t \<and>
     (case r of
        None \<Rightarrow> vw t = vw s
      | Some pid \<Rightarrow> \<exists>i \<in> set js. vstate (vw s) i = ZOMBIE \<and> p_parent (v_procs (vw s) (PProc i)) = cur \<and>
          pid = vpids (vw s) i \<and> v_own (vw s) PtableLock = Some c \<and> vw t = vdrop PtableLock c (vproc (PProc i)
          (\<lambda>x. x\<lparr>p_kstack := 0, p_pid := 0, p_parent := PNull, p_name := [], p_killed := 0, p_state := UNUSED\<rparr>) (vw s)))"
proof (induction js arbitrary: hk)
  case Nil
  then show ?case by simp
next
  case (Cons i js)
  show ?case
  proof (cases "p_parent (k_procs s (PProc i)) = cur \<and> p_state (k_procs s (PProc i)) = ZOMBIE")
    case False
    then have "\<exists>hk. wait_scan kfree freevm a cur js hk s = Ok (r, hk', t)"
      using Cons.prems(1) by (auto simp: Let_def split: if_splits)
    then show ?thesis using Cons.IH Cons.prems(2) by (fastforce split: option.splits)
  next
    case True
    obtain s1 s2 s3 s4 where 1: "log_proc a (PProc i) WAIT UNUSED s = Ok s1"
      and 2: "kfree (p_kstack (k_procs s1 (PProc i))) s1 = Ok s2"
      and 3: "freevm (p_pgdir (k_procs (upd_proc (PProc i) (\<lambda>x. x\<lparr>p_kstack := 0\<rparr>) s2) (PProc i)))
             (upd_proc (PProc i) (\<lambda>x. x\<lparr>p_kstack := 0\<rparr>) s2) = Ok s3"
      and 4: "log_lock a ACQUIRED RELEASED (upd_proc (PProc i) (\<lambda>x. x\<lparr>p_pid := 0, p_parent := PNull\<rparr>) s3) = Ok s4"
      and 5: "release a PtableLock (upd_proc (PProc i) (\<lambda>x. x\<lparr>p_name := [], p_killed := 0, p_state := UNUSED\<rparr>) s4) = Ok t"
      and r: "r = Some (p_pid (k_procs s1 (PProc i)))"
      using Cons.prems(1) True by (auto simp: Let_def bindR_Ok_iff)
    have "vw s1 = vw s" using log_at(1) [OF 1 Cons.prems(2)] by simp
    then show ?thesis
      using wait_reap_at [OF 1 2 3 4 5 Cons.prems(2)] r True by (auto simp: k_vw)
  qed
qed

lemma wait_round_at:
  assumes "wait_round kfree freevm a (PProc i) s = Ok (r, t)" "at_cpu a c s" "\<not> v_mrq (vw s)"
  shows "at_cpu a c t \<and> v_own (vw s) PtableLock = Some c \<and>
     (case r of
        None \<Rightarrow> v_cproc (vw s) c \<noteq> PNull \<and> v_ncli (vw s) c = 1 \<and>
          (\<exists>e. vw t = vproc (v_cproc (vw s) c)
             (\<lambda>x. x\<lparr>p_chan := CProc (PProc i), p_state := SLEEPING, p_context := CtxSleep PtableLock e c\<rparr>) (vw s))
      | Some n \<Rightarrow> vw t = vdrop PtableLock c (vw s) \<or>
          (\<exists>j < NPROC. vstate (vw s) j = ZOMBIE \<and> vw t = vdrop PtableLock c (vproc (PProc j)
          (\<lambda>x. x\<lparr>p_kstack := 0, p_pid := 0, p_parent := PNull, p_name := [], p_killed := 0, p_state := UNUSED\<rparr>) (vw s))))"
proof -
  obtain q hk u where sc: "wait_scan kfree freevm a (PProc i) [0..<NPROC] False s = Ok (q, hk, u)"
    and rest: "(case q of
         Some pid \<Rightarrow> Ok (Some pid, u)
       | None \<Rightarrow>
           if \<not> hk \<or> p_killed (k_procs u (PProc i)) \<noteq> 0
           then bindR (log_lock a ACQUIRED RELEASED u) (\<lambda>s.
                bindR (release a PtableLock s) (\<lambda>s. Ok (Some (-1), s)))
           else bindR (sleep_enter a (chan_of (PProc i)) (Some PtableLock) u) (\<lambda>s. Ok (None, s))) = Ok (r, t)"
    using assms(1) by (auto simp: wait_round_def bindR_Ok_iff)
  note e = wait_scan_at [OF sc assms(2)]
  show ?thesis
  proof (cases q)
    case (Some pid)
    with e rest show ?thesis by (auto intro!: bexI)
  next
    case None
    then have u: "at_cpu a c u" "vw u = vw s" using e by auto
    show ?thesis
    proof (cases "\<not> hk \<or> p_killed (k_procs u (PProc i)) \<noteq> 0")
      case True
      with rest None u show ?thesis by (auto simp: bindR_Ok_iff dest!: log_at release_at)
    next
      case False
      with rest None have "sleep_enter a (CProc (PProc i)) (Some PtableLock) u = Ok t" "r = None"
        by (auto simp: bindR_Ok_iff chan_of_def)
      with sleep_enter_at [OF this(1) u(1)] u(2) assms(3) show ?thesis by simp
    qed
  qed
qed

end

section \<open>Every step keeps the invariant\<close>

definition good :: "'z sched_state_scheme \<times> (nat \<Rightarrow> loc) \<times> (nat \<Rightarrow> ploc) \<Rightarrow> bool" where
  "good x \<longleftrightarrow> (case x of (s, L, Q) \<Rightarrow> vok s \<and> sys_inv (vw s) L Q \<and> (\<forall>i. \<not> plocked (Q i)))"

lemma goodI: "good (s, L, Q) \<Longrightarrow> at_cpu a c t \<Longrightarrow> sys_inv (vw t) L' Q' \<Longrightarrow> (\<And>i. Q' i = Q i \<or> \<not> plocked (Q' i)) \<Longrightarrow> good (t, L', Q')"
  unfolding good_def at_cpu_def split by metis

lemma goodD:
  assumes "good (s, L, Q)" "cpu_index a s = Some c"
  shows "at_cpu a c s" "sys_inv (vw s) L Q" "\<not> plocked (Q i)"
  using assms by (simp_all add: good_def at_cpu_def)

text \<open>The steps that only take or release locks, or change the interrupt flag.\<close>

lemma good_locks:
  assumes g: "good (s, L, Q)" and c: "cpu_index a s = Some c" and t: "at_cpu a c t"
    and v: "v_procs (vw t) = v_procs (vw s)" "v_cproc (vw t) = v_cproc (vw s)" "v_mrq (vw t) = v_mrq (vw s)"
      "v_nextpid (vw t) = v_nextpid (vw s)"
      "\<And>d. d \<noteq> c \<Longrightarrow> v_ncli (vw t) d = v_ncli (vw s) d \<and>
         (v_own (vw t) PtableLock = Some d \<longleftrightarrow> v_own (vw s) PtableLock = Some d)"
    and l: "runs l = runs (L c)" "embryo l = embryo (L c)" "v_own (vw t) PtableLock = Some c \<longleftrightarrow> locked l"
      "l = LTop \<Longrightarrow> v_ncli (vw t) c = 0" "\<And>i. l = LScan i \<Longrightarrow> v_ncli (vw t) c = 1" "locked l \<Longrightarrow> 0 < v_ncli (vw t) c"
      "\<And>i p. l = LProc i (PIntr p) \<Longrightarrow> \<not> locked l"
  shows "good (t, L(c := l), Q)"
proof -
  note D = goodD [OF g c(1)]
  have no: "hold L Q x \<noteq> Some NPROC" for x using sys_inv_holdD(1) [OF D(2), of x NPROC] by auto
  have "sys_inv (vw t) (L(c := l)) Q"
  proof (rule sys_inv_slot [OF D(2), where j = NPROC])
    show "vstate (vw s) NPROC \<noteq> RUNNING" "vstate (vw t) NPROC \<noteq> RUNNING"
      using D(2) v(1) by (auto simp: sys_inv_def dest: sys_invD(7) [OF D(2)])
    show "\<And>x. x \<noteq> Inl c \<Longrightarrow> hold L Q x \<noteq> Some NPROC" by (rule no)
    show "embryo l = None \<or> embryo l = embryo (L c) \<and> embryo l \<noteq> Some NPROC \<or>
        embryo l = Some NPROC \<and> NPROC < NPROC \<and> vstate (vw t) NPROC = EMBRYO"
      using no [of "Inl c"] l(2) by simp
    show "pid_ok (vw t)" using sys_invD(2) [OF D(2)] v by (simp add: pid_ok_def)
  qed (use v l in auto)
  with t show ?thesis by (blast intro: goodI [OF g])
qed

lemma not_owner: "good (s, L, Q) \<Longrightarrow> cpu_index a s = Some c \<Longrightarrow> \<not> locked (L c) \<Longrightarrow> v_own (vw s) PtableLock \<noteq> Some c"
  using goodD(2) sys_invD(4) by blast

lemma ncli_at:
  assumes "at_cpu a c s"
  shows "0 \<le> v_ncli (vw s) c" "readeflags a s AND FL_IF \<noteq> 0 \<Longrightarrow> v_ncli (vw s) c = 0"
proof -
  have "cli_ok a c s" using assms by (auto simp: at_cpu_def vok_def mach_ok_def)
  then show "0 \<le> v_ncli (vw s) c" "readeflags a s AND FL_IF \<noteq> 0 \<Longrightarrow> v_ncli (vw s) c = 0"
    by (auto simp: cli_ok_def vw_fields)
qed

text \<open>An interrupt finds no lock held on its processor, and changes nothing but the flag.\<close>

lemma good_intr:
  assumes g: "good (s, L, Q)" and c: "cpu_index a s = Some c" "readeflags a s AND FL_IF \<noteq> 0"
    and l: "runs l = runs (L c)" "embryo l = embryo (L c)" "locked l = locked (L c)" "l \<noteq> LTop" "\<And>i. l \<noteq> LScan i"
  shows "good (cli a s, L(c := l), Q)"
proof -
  note D = goodD [OF g c(1)]
  note e = cli_at [OF D(1)]
  have "v_ncli (vw s) c = 0" by (rule ncli_at(2) [OF D(1) c(2)])
  then have "\<not> locked (L c)" using sys_invD(8) [OF D(2), of c] by auto
  then show ?thesis
    by (intro good_locks [OF g c(1)]) (use e l not_owner [OF g c(1)] in auto)
qed

lemma good_iret:
  assumes g: "good (s, L, Q)" and c: "cpu_index a s = Some c" "c_ncli (m_cpus s c) = 0"
    and l: "runs l = runs (L c)" "embryo l = embryo (L c)" "locked l = locked (L c)" "\<And>i. l \<noteq> LScan i"
  shows "good (sti a s, L(c := l), Q)"
proof -
  have n: "v_ncli (vw s) c = 0" using c(2) by (simp add: vw_fields)
  note e = sti_at [OF goodD(1) [OF g c(1)] n]
  have "\<not> locked (L c)" using sys_invD(8) [OF goodD(2) [OF g c(1)], of c] n by auto
  note e = this e
  show ?thesis by (rule good_locks [OF g c(1)]) (use e n l not_owner [OF g c(1)] in auto)
qed

lemma good_enter:
  assumes g: "good (s, L, Q)" and c: "cpu_index a s = Some c" "L c = LTop" and op: "rr_enter a s = Ok t"
  shows "good (t, L(c := LScan 0), Q)"
proof -
  note D = goodD [OF g c(1)]
  have n: "v_ncli (vw s) c = 0" by (rule sys_invD(5) [OF D(2) c(2)])
  note e = rr_enter_at [OF op D(1) n]
  show ?thesis by (rule good_locks [OF g c(1)]) (use e c n in auto)
qed

lemma good_skip:
  assumes g: "good (s, L, Q)" and c: "cpu_index a s = Some c" "L c = LScan i" and op: "rr_slot a c i s = Ok (False, t)"
  shows "good (t, L(c := LScan j), Q)"
proof -
  note D = goodD [OF g c(1)]
  note e = rr_slot_at [OF op D(1)]
  show ?thesis
    by (rule good_locks [OF g c(1)]) (use e c sys_invD(6) [OF D(2) c(2)] sys_invD(4) [OF D(2), of c] in auto)
qed

lemma good_leave:
  assumes g: "good (s, L, Q)" and c: "cpu_index a s = Some c" "L c = LScan i" and op: "rr_leave a s = Ok t"
  shows "good (t, L(c := LTop), Q)"
proof -
  note D = goodD [OF g c(1)]
  note e = rr_leave_at [OF op D(1)]
  show ?thesis by (rule good_locks [OF g c(1)]) (use e c sys_invD(6) [OF D(2) c(2)] in auto)
qed

lemma good_calm: "good (s, L, Q) \<Longrightarrow> at_cpu a c t \<Longrightarrow> calm (vw s) (vw t) \<Longrightarrow> good (t, L, Q)"
  by (auto simp: good_def at_cpu_def intro: calm_inv)

lemma good_run:
  assumes g: "good (s, L, Q)" and c: "cpu_index a s = Some c" "L c = LScan i" "i < NPROC"
    and op: "rr_slot a c i s = Ok (True, t)" "resume a i (Q i) ctx t = Ok (u, p)"
  shows "good (u, L(c := LProc i p), Q(i := PRun))"
proof -
  note D = goodD [OF g c(1)]
  have "\<not> plocked (Q i)" by (rule D(3))
  note e = this rr_slot_at [OF op(1) D(1)]
  have own: "v_own (vw s) PtableLock = Some c" using sys_invD(4) [OF D(2), of c] c(2) by simp
  have n: "v_ncli (vw s) c = 1" by (rule sys_invD(6) [OF D(2) c(2)])
  have m: "\<not> v_mrq (vw t)" using sys_invD(1) [OF D(2)] e by simp
  have r: "at_cpu a c u \<and> (pfork p = None \<or> p = Q i) \<and> v_cproc (vw u) = v_cproc (vw t) \<and> v_mrq (vw u) = v_mrq (vw t) \<and>
     v_nextpid (vw u) = v_nextpid (vw t) \<and> v_own (vw u) PtableLock = (if plocked p then Some c else None) \<and>
     (\<forall>d. d \<noteq> c \<longrightarrow> v_ncli (vw u) d = v_ncli (vw t) d) \<and> (\<forall>q. p = PIntr q \<longrightarrow> \<not> plocked q) \<and> (plocked p \<longrightarrow> v_ncli (vw u) c = 1) \<and>
     (\<exists>ch. v_procs (vw u) = (v_procs (vw t))(PProc i := (v_procs (vw t) (PProc i))\<lparr>p_chan := ch\<rparr>))"
  proof (cases ctx)
    case CtxForkret
    then show ?thesis
      using op(2) e m forkret_at [of a t _ u c] own
      by (auto simp: resume_def bindR_Ok_iff intro!: exI [of _ "p_chan (v_procs (vw t) (PProc i))"])
  next
    case (CtxYield x y)
    then show ?thesis
      using op(2) e m yield_return_at [of a x y t u c] own
      by (auto simp: resume_def bindR_Ok_iff intro!: exI [of _ "p_chan (v_procs (vw t) (PProc i))"])
  next
    case (CtxSleep k x y)
    then show ?thesis
      using op(2) e m n sleep_wake_at [of a "PProc i" k x y t u c] own
      by (cases "k = PtableLock") (auto simp: resume_def bindR_Ok_iff intro!: exI [of _ CNull])
  qed (use op(2) in \<open>auto simp: resume_def\<close>)
  obtain ch where "v_procs (vw u) = (v_procs (vw t))(PProc i := (v_procs (vw t) (PProc i))\<lparr>p_chan := ch\<rparr>)" using r by blast
  then have "sys_inv (vw u) (L(c := LProc i p)) (Q(i := PRun))"
    by (intro sys_inv_run [OF D(2) c(2) refl, where f = "\<lambda>x. x\<lparr>p_state := RUNNING, p_chan := ch\<rparr>"])
       (use r e c(3) in auto)
  with r show ?thesis using goodI [OF g, of a c u _ "Q(i := PRun)"] by auto
qed

lemma good_switch:
  assumes g: "good (s, L, Q)" and c: "cpu_index a s = Some c" "runs (L c) = Some i"
      "renames (hold L Q) (hold (L(c := LScan n)) Q')"
    and t: "at_cpu a c t" "v_own (vw s) PtableLock = None \<or> v_own (vw s) PtableLock = Some c"
    and w: "calm (vw s) w" "vw t = u" "v_own u PtableLock = Some c" "v_ncli u c = 1"
    and other: "\<And>d. d \<noteq> c \<Longrightarrow> v_ncli u d = v_ncli w d"
    and u: "v_cproc u = v_cproc w" "v_mrq u = v_mrq w" "v_nextpid u = v_nextpid w"
      "v_procs u = (v_procs w)(PProc i := f (v_procs w (PProc i)))"
    and f: "\<And>x. p_pid (f x) = p_pid x" "\<And>x. p_state (f x) = st" "st \<noteq> RUNNING" "st \<noteq> UNUSED" "st \<noteq> EMBRYO"
    and Q: "\<And>i. Q' i = Q i \<or> \<not> plocked (Q' i)"
  shows "good (sched_back a c t, L(c := LScan n), Q')"
proof -
  note D = goodD [OF g c(1)]
  have "vcur c (cur_of (L c)) (vw s) = vw s"
    using sys_invD(3) [OF D(2), of c] by (simp add: vcur_def fun_upd_idem)
  then have "sys_inv (vcur c PNull u) (L(c := LScan n)) Q'"
    using D(2) c w other u f t(2) by (intro sys_inv_switch [where i = i and w = w and f = f and st = st]) auto
  then show ?thesis using t(1) w(2) goodI [OF g, of a c "sched_back a c t" _ Q'] Q by (simp add: sched_back_at)
qed

lemma cur_run: "good (s, L, Q) \<Longrightarrow> cpu_index a s = Some c \<Longrightarrow> runs (L c) = Some i \<Longrightarrow> v_cproc (vw s) c = PProc i"
  using goodD(2) sys_invD(3) by (fastforce simp: cur_of_def)

lemma good_yield:
  assumes g: "good (s, L, Q)" and c: "cpu_index a s = Some c" "L c = LProc i p" and op: "yield_enter a s = Ok t"
  shows "good (sched_back a c t, L(c := LScan n), Q(i := p))"
proof -
  note D = goodD [OF g c(1)]
  have cur: "v_cproc (vw s) c = PProc i" using cur_run [OF g c(1)] c(2) by simp
  from yield_enter_at [OF op D(1) sys_invD(1) [OF D(2)]] obtain e where e: "at_cpu a c t"
      "v_own (vw s) PtableLock = None" "v_ncli (vw s) c = 0"
      "vw t = vproc (PProc i) (\<lambda>x. x\<lparr>p_state := RUNNABLE, p_context := CtxYield e c\<rparr>) (vtake PtableLock c (vw s))"
    using cur by auto
  have np: "\<not> plocked p" using sys_invD(4) [OF D(2), of c] e(2) c(2) by simp
  show ?thesis
    by (rule good_switch [OF g c(1), where i = i and w = "vw s" and u = "vw t" and st = RUNNABLE and
          f = "\<lambda>x. x\<lparr>p_state := RUNNABLE, p_context := CtxYield e c\<rparr>"])
       (use e c(2) np renames_yield [of L c i p Q n] in auto)
qed

lemma good_sleep:
  assumes g: "good (s, L, Q)" and c: "cpu_index a s = Some c" "runs (L c) = Some i" "l \<noteq> PtableLock"
    and op: "sleep_enter a ch (Some l) s = Ok t"
  shows "good (sched_back a c t, L(c := LScan n), Q)"
proof -
  note D = goodD [OF g c(1)]
  have cur: "v_cproc (vw s) c = PProc i" using cur_run [OF g c(1)] c(2) by simp
  from sleep_enter_at [OF op D(1) sys_invD(1) [OF D(2)]] obtain e where e: "at_cpu a c t"
      "v_own (vw s) PtableLock = None" "v_ncli (vw s) c = 1"
      "vw t = vproc (PProc i) (\<lambda>x. x\<lparr>p_chan := ch, p_state := SLEEPING, p_context := CtxSleep l e c\<rparr>)
         (vdrop l c (vtake PtableLock c (vw s)))"
    using cur c(3) by auto
  show ?thesis
    by (rule good_switch [OF g c(1), where i = i and w = "vw s" and u = "vw t" and st = SLEEPING and
          f = "\<lambda>x. x\<lparr>p_chan := ch, p_state := SLEEPING, p_context := CtxSleep l e c\<rparr>"])
       (use e c(2,3) renames_scan in auto)
qed

lemma good_exit:
  assumes g: "good (s, L, Q)" and c: "cpu_index a s = Some c" "runs (L c) = Some i" and op: "exit_commit a (PProc i) s = Ok t"
  shows "good (sched_back a c t, L(c := LScan n), Q)"
proof -
  note D = goodD [OF g c(1)]
  have cur: "v_cproc (vw s) c = PProc i" using cur_run [OF g c(1)] c(2) by simp
  define w where "w = vparents (PProc i) (v_init (vw s)) [0..<NPROC]
      (vwake (chan_of (p_parent (v_procs (vw s) (PProc i)))) {..<NPROC} (vw s))"
  have com: "vparents p ini js (vtake k c x) = vtake k c (vparents p ini js x)" for p ini js k c x
  proof (induction js arbitrary: x)
    case (Cons j js)
    have "vparent p ini j (vtake k c x) = vtake k c (vparent p ini j x)"
      by (simp add: vparent_def vproc_lock vwake_lock)
    then show ?case using Cons.IH by simp
  qed simp
  from exit_commit_at [OF op D(1) sys_invD(1) [OF D(2)]] obtain e where e: "at_cpu a c t"
      "v_own (vw s) PtableLock = None" "v_ncli (vw s) c = 0"
      "vw t = vproc (PProc i) (\<lambda>x. x\<lparr>p_state := ZOMBIE, p_context := CtxExit e c\<rparr>) (vtake PtableLock c w)"
    using cur by (auto simp: w_def com vwake_lock)
  have calm: "calm (vw s) w" unfolding w_def by (blast intro: calm_trans calm_vwake calm_vparents)
  then have "v_own w = v_own (vw s)" "v_ncli w = v_ncli (vw s)" by (simp_all add: calm_def)
  with e calm c(2) renames_scan show ?thesis
    by (intro good_switch [OF g c(1), where i = i and w = w and u = "vw t" and st = ZOMBIE and
          f = "\<lambda>x. x\<lparr>p_state := ZOMBIE, p_context := CtxExit e c\<rparr>"]) auto
qed

lemma good_alloc:
  assumes g: "good (s, L, Q)" and c: "cpu_index a s = Some c" "L c = LProc i PRun" and op: "allocproc_slot a s = Ok (PProc j, t)"
  shows "good (t, L(c := LProc i (PFork j)), Q)"
proof -
  note D = goodD [OF g c(1)]
  from allocproc_slot_at [OF op D(1)] have e: "at_cpu a c t" "v_own (vw s) PtableLock = None"
      "vfind (\<lambda>x. p_state x = UNUSED) (vw s) = Some j" "vw t = valloc j (vw s)"
    by (auto split: option.splits)
  note j = find_Some_vfind [OF e(3)]
  have "sys_inv (vw t) (L(c := LProc i (PFork j))) Q"
  proof (rule sys_inv_slot [OF D(2), where j = j])
    show "pid_ok (vw t)" using e(4) sys_invD(2) [OF D(2)] by (simp add: pid_ok_valloc)
    show "\<And>x. x \<noteq> Inl c \<Longrightarrow> hold L Q x \<noteq> Some j" using j by (auto dest: sys_inv_holdD(2) [OF D(2)])
  qed (use e j c(2) in \<open>auto simp: valloc_def\<close>)
  with e(1) show ?thesis by (blast intro: goodI [OF g])
qed

text \<open>The new slot of a \<^verbatim>\<open>fork\<close> becomes runnable, or unused again.\<close>

lemma good_forked:
  assumes g: "good (s, L, Q)" and c: "cpu_index a s = Some c" "L c = LProc i (PFork j)" and t: "at_cpu a c t"
    and v: "vw t = vproc (PProc j) f (vw s)" "\<And>x. p_pid (f x) = p_pid x" "p_state (f (v_procs (vw s) (PProc j))) \<in> {RUNNABLE, UNUSED}"
    and own: "v_own (vw s) PtableLock \<noteq> Some c"
  shows "good (t, L(c := LProc i PRun), Q)"
proof -
  note D = goodD [OF g c(1)]
  have j: "j < NPROC" "vstate (vw s) j = EMBRYO" using sys_inv_holdD(1,2) [OF D(2), of "Inl c" j] c(2) by auto
  have "sys_inv (vw t) (L(c := LProc i PRun)) Q"
  proof (rule sys_inv_slot [OF D(2), where j = j])
    show "pid_ok (vw t)"
      using v j sys_invD(2) [OF D(2)] pid_ok_free [of "vw s" f "PProc j"] pid_ok_proc [of "vw s" f "PProc j"] by auto
    show "\<And>x. x \<noteq> Inl c \<Longrightarrow> hold L Q x \<noteq> Some j" using sys_inv_holdD(3) [OF D(2), of "Inl c" j] c(2) by auto
  qed (use v j own c(2) in auto)
  with t show ?thesis by (blast intro: goodI [OF g])
qed

lemma good_fork:
  assumes g: "good (s, L, Q)" and c: "cpu_index a s = Some c" "L c = LProc i (PFork j)" "k \<noteq> 0"
    and op: "allocproc_stack (PProc j) k s = (p, t)"
      "fork_commit a (PProc j) (fork_fill (PProc j) (PProc i) pgdir ofile cwd t) = Ok (pid, u)"
  shows "good (u, L(c := LProc i PRun), Q)"
proof -
  note D = goodD [OF g c(1)]
  let ?w = "fork_fill (PProc j) (PProc i) pgdir ofile cwd t"
  have t: "t = upd_proc (PProc j) (\<lambda>x. x\<lparr>p_kstack := k, p_context := CtxForkret\<rparr>) s"
    using op(1) c(3) by (auto simp: allocproc_stack_def Let_def upd_proc_def)
  obtain f where f: "vw ?w = vproc (PProc j) f (vw s)" "\<And>x. p_pid (f x) = p_pid x" "at_cpu a c ?w"
    using D(1) by (auto simp: fork_fill_def vw_upd_proc t)
  have "\<not> v_mrq (vw ?w)" using f(1) sys_invD(1) [OF D(2)] by simp
  note e = fork_commit_at [OF op(2) f(3) this]
  show ?thesis
    by (rule good_forked [OF g c(1,2), where f = "\<lambda>x. (f x)\<lparr>p_state := RUNNABLE\<rparr>"])
       (use e f not_owner [OF g c(1)] c(2) in auto)
qed

lemma good_unfork:
  assumes g: "good (s, L, Q)" and c: "cpu_index a s = Some c" "L c = LProc i (PFork j)"
  shows "good (fork_undo (PProc j) s, L(c := LProc i PRun), Q)"
    and "allocproc_stack (PProc j) 0 s = (p, t) \<Longrightarrow> good (t, L(c := LProc i PRun), Q)"
proof -
  note D = goodD [OF g c(1)]
  show "good (fork_undo (PProc j) s, L(c := LProc i PRun), Q)"
    by (rule good_forked [OF g c, where f = "\<lambda>x. x\<lparr>p_pgdir := 0, p_kstack := 0, p_state := UNUSED\<rparr>"])
       (use D(1) not_owner [OF g c(1)] c(2) in \<open>auto simp: fork_undo_def vw_upd_proc\<close>)
  assume "allocproc_stack (PProc j) 0 s = (p, t)"
  then have "t = set_state (PProc j) UNUSED (upd_proc (PProc j) (\<lambda>x. x\<lparr>p_kstack := 0\<rparr>) s)"
    by (simp add: allocproc_stack_def Let_def)
  then show "good (t, L(c := LProc i PRun), Q)"
    by (intro good_forked [OF g c, where f = "\<lambda>x. x\<lparr>p_kstack := 0, p_state := UNUSED\<rparr>"])
       (use D(1) not_owner [OF g c(1)] c(2) in \<open>auto simp: vw_set_state vw_upd_proc\<close>)
qed

lemma wait_enter_at:
  "wait_enter a s = Ok (p, t) \<Longrightarrow> at_cpu a c s \<Longrightarrow>
     at_cpu a c t \<and> v_own (vw s) PtableLock = None \<and> vw t = vtake PtableLock c (vw s)"
  by (auto simp: wait_enter_def ok_iff dest!: myproc_at log_at acquire_at)

lemma good_relock:
  assumes g: "good (s, L, Q)" and c: "cpu_index a s = Some c" "L c = LProc i (PRelock l)" "l \<noteq> PtableLock" and op: "acquire a l s = Ok t"
  shows "good (t, L(c := LProc i PRun), Q)"
proof -
  note e = acquire_at [OF op goodD(1) [OF g c(1)]]
  show ?thesis by (rule good_locks [OF g c(1)]) (use e c not_owner [OF g c(1)] in auto)
qed

lemma good_lock:
  assumes g: "good (s, L, Q)" and c: "cpu_index a s = Some c" "in_code (L c)" "l \<noteq> PtableLock"
    and op: "acquire a l s = Ok t \<or> release a l s = Ok t"
  shows "good (t, L, Q)"
proof -
  have "at_cpu a c t \<and> (vw t = vtake l c (vw s) \<or> vw t = vdrop l c (vw s))"
    using op acquire_at [OF _ goodD(1) [OF g c(1)]] release_at [OF _ goodD(1) [OF g c(1)]] by blast
  moreover have "\<not> locked (L c)" "L c \<noteq> LTop"
    using c(2) sys_invD(9) [OF goodD(2) [OF g c(1)], of c] by (auto elim: in_code.elims)
  ultimately have "good (t, L(c := L c), Q)"
    by (intro good_locks [OF g c(1)]) (use c(3) not_owner [OF g c(1)] in auto)
  then show ?thesis by simp
qed

lemma good_wakeup:
  assumes g: "good (s, L, Q)" and c: "cpu_index a s = Some c" and op: "wakeup a ch s = Ok t"
  shows "good (t, L, Q)"
proof -
  note D = goodD [OF g c]
  note e = wakeup_at [OF op D(1) sys_invD(1) [OF D(2)]]
  show ?thesis by (rule good_calm [OF g]) (use e calm_vwake in auto)
qed

lemma good_kill:
  assumes g: "good (s, L, Q)" and c: "cpu_index a s = Some c" and op: "kill a pid s = Ok (r, t)"
  shows "good (t, L, Q)"
proof -
  note e = kill_at [OF op goodD(1) [OF g c]]
  show ?thesis by (rule good_calm [OF g]) (use e calm_vkill in auto)
qed

lemma good_full:
  assumes g: "good (s, L, Q)" and c: "cpu_index a s = Some c" and op: "allocproc_slot a s = Ok (PNull, t)"
  shows "good (t, L, Q)"
proof -
  have "at_cpu a c t \<and> vw t = vw s"
    using allocproc_slot_at [OF op goodD(1) [OF g c]] by (auto split: option.splits)
  then show ?thesis using good_calm [OF g, of a c t] by simp
qed

lemma good_wait:
  assumes g: "good (s, L, Q)" and c: "cpu_index a s = Some c" "L c = LProc i PRun" and op: "wait_enter a s = Ok (p, t)"
  shows "good (t, L(c := LProc i PWait), Q)"
proof -
  note e = wait_enter_at [OF op goodD(1) [OF g c(1)]]
  show ?thesis by (rule good_locks [OF g c(1)]) (use e c ncli_at(1) [OF goodD(1) [OF g c(1)]] in auto)
qed

section \<open>Reachable states\<close>

text \<open>The processors enter \<^verbatim>\<open>scheduler\<close>: none runs a process or holds \<^verbatim>\<open>ptable.lock\<close>.\<close>

definition sys_init :: "'z sched_state_scheme \<times> (nat \<Rightarrow> loc) \<times> (nat \<Rightarrow> ploc) \<Rightarrow> bool" where
  "sys_init x \<longleftrightarrow> (case x of (s, L, Q) \<Rightarrow>
     vok s \<and> \<not> k_mrq s \<and> pid_ok (vw s) \<and> L = (\<lambda>_. LTop) \<and> Q = (\<lambda>_. PRun) \<and> lk_cpu (m_locks s PtableLock) = None \<and>
     (\<forall>c. c_proc (m_cpus s c) = PNull \<and> c_ncli (m_cpus s c) = 0) \<and> (\<forall>i. p_state (k_procs s (PProc i)) \<noteq> RUNNING))"

inductive sys_reach for kfree freevm where
  sr_init: "sys_init x \<Longrightarrow> sys_reach kfree freevm x"
| sr_step: "sys_reach kfree freevm x \<Longrightarrow> sys_step kfree freevm x y \<Longrightarrow> sys_reach kfree freevm y"

lemma good_init: "sys_init x \<Longrightarrow> good x"
  by (cases x) (auto simp: sys_init_def good_def sys_inv_def cpu_inv_def cur_of_def emb_inv_def hold_def vw_fields split: sum.splits)

text \<open>What the invariant says of a state.\<close>

lemma good_facts:
  assumes "good (s, L, Q)"
  shows "c_proc (m_cpus s c) = PProc i \<Longrightarrow> c_proc (m_cpus s d) = PProc i \<Longrightarrow> c = d"
    and "i < NPROC \<Longrightarrow> p_state (k_procs s (PProc i)) = RUNNING \<longleftrightarrow> (\<exists>c. c_proc (m_cpus s c) = PProc i)"
    and "i < NPROC \<Longrightarrow> j < NPROC \<Longrightarrow> p_state (k_procs s (PProc i)) \<noteq> UNUSED \<Longrightarrow> p_state (k_procs s (PProc j)) \<noteq> UNUSED \<Longrightarrow>
      p_pid (k_procs s (PProc i)) = p_pid (k_procs s (PProc j)) \<Longrightarrow> i = j"
proof -
  have inv: "sys_inv (vw s) L Q" using assms by (simp add: good_def)
  have cur: "c_proc (m_cpus s c) = PProc i \<longleftrightarrow> runs (L c) = Some i" for c i
    using sys_invD(3) [OF inv, of c] by (auto simp: k_vw cur_of_def split: option.splits)
  show "c_proc (m_cpus s c) = PProc i \<Longrightarrow> c_proc (m_cpus s d) = PProc i \<Longrightarrow> c = d"
    using inv by (auto simp: cur sys_inv_def)
  show "i < NPROC \<Longrightarrow> p_state (k_procs s (PProc i)) = RUNNING \<longleftrightarrow> (\<exists>c. c_proc (m_cpus s c) = PProc i)"
    unfolding cur using inv sys_invD(7) [OF inv] by (auto simp: k_vw sys_inv_def)
  show "i < NPROC \<Longrightarrow> j < NPROC \<Longrightarrow> p_state (k_procs s (PProc i)) \<noteq> UNUSED \<Longrightarrow> p_state (k_procs s (PProc j)) \<noteq> UNUSED \<Longrightarrow>
      p_pid (k_procs s (PProc i)) = p_pid (k_procs s (PProc j)) \<Longrightarrow> i = j"
    using sys_invD(2) [OF inv] by (simp add: pid_ok_def k_vw)
qed

context page_release begin

lemma good_waited:
  assumes g: "good (s, L, Q)" and c: "cpu_index a s = Some c" "L c = LProc i PWait"
    and op: "wait_round kfree freevm a (PProc i) s = Ok (Some r, t)"
  shows "good (t, L(c := LProc i PRun), Q)"
proof -
  note D = goodD [OF g c(1)]
  have e: "at_cpu a c t" "v_own (vw s) PtableLock = Some c" and
    v: "vw t = vdrop PtableLock c (vw s) \<or>
          (\<exists>j < NPROC. vstate (vw s) j = ZOMBIE \<and> vw t = vdrop PtableLock c (vproc (PProc j)
          (\<lambda>x. x\<lparr>p_kstack := 0, p_pid := 0, p_parent := PNull, p_name := [], p_killed := 0, p_state := UNUSED\<rparr>) (vw s)))"
    using wait_round_at [OF op D(1) sys_invD(1) [OF D(2)]] by auto
  from v show ?thesis
  proof (elim disjE exE conjE)
    assume "vw t = vdrop PtableLock c (vw s)"
    then show ?thesis using e c(2) by (intro good_locks [OF g c(1)]) auto
  next
    fix j assume j: "j < NPROC" "vstate (vw s) j = ZOMBIE" and t: "vw t = vdrop PtableLock c (vproc (PProc j)
          (\<lambda>x. x\<lparr>p_kstack := 0, p_pid := 0, p_parent := PNull, p_name := [], p_killed := 0, p_state := UNUSED\<rparr>) (vw s))"
    have "sys_inv (vw t) (L(c := LProc i PRun)) Q"
    proof (rule sys_inv_slot [OF D(2), where j = j])
      show "pid_ok (vw t)" unfolding t using sys_invD(2) [OF D(2)] by (simp add: pid_ok_free)
      show "\<And>x. x \<noteq> Inl c \<Longrightarrow> hold L Q x \<noteq> Some j" using j(2) by (auto dest: sys_inv_holdD(2) [OF D(2)])
    qed (use t j e c(2) in auto)
    with e(1) show ?thesis by (blast intro: goodI [OF g])
  qed
qed

lemma good_waits:
  assumes g: "good (s, L, Q)" and c: "cpu_index a s = Some c" "L c = LProc i PWait"
    and op: "wait_round kfree freevm a (PProc i) s = Ok (None, t)"
  shows "good (sched_back a c t, L(c := LScan n), Q)"
proof -
  note D = goodD [OF g c(1)]
  have cur: "v_cproc (vw s) c = PProc i" using cur_run [OF g c(1)] c(2) by simp
  from wait_round_at [OF op D(1) sys_invD(1) [OF D(2)]] obtain e where e: "at_cpu a c t"
      "v_own (vw s) PtableLock = Some c" "v_ncli (vw s) c = 1"
      "vw t = vproc (PProc i) (\<lambda>x. x\<lparr>p_chan := CProc (PProc i), p_state := SLEEPING,
         p_context := CtxSleep PtableLock e c\<rparr>) (vw s)"
    using cur by auto
  show ?thesis
    by (rule good_switch [OF g c(1), where i = i and w = "vw s" and u = "vw t" and st = SLEEPING and
          f = "\<lambda>x. x\<lparr>p_chan := CProc (PProc i), p_state := SLEEPING, p_context := CtxSleep PtableLock e c\<rparr>"])
       (use e c(2) renames_scan in auto)
qed

lemma good_step:
  assumes "sys_step kfree freevm x y" "good x"
  shows "good y"
  using assms(1)
proof (cases rule: sys_step.cases)
  case (ss_sti a s c L Q)
  have "v_ncli (vw s) c = 0" using assms(2) ss_sti sys_invD(5) [OF goodD(2), of s L Q a c] by simp
  then have "good (sti a s, L(c := L c), Q)"
    using assms(2) ss_sti by (intro good_iret) (auto simp: vw_fields)
  then show ?thesis unfolding ss_sti(2) by (simp only: fun_upd_triv)
next
  case (ss_intr_idle a s c L Q)
  with assms(2) show ?thesis using good_intr [of s L Q a c LIdle] by simp
next
  case (ss_iret_idle a s c L Q)
  with assms(2) show ?thesis using good_iret [of s L Q a c LTop] by simp
next
  case (ss_intr a s c L i p Q)
  with assms(2) show ?thesis using good_intr [of s L Q a c "LProc i (PIntr p)"] by simp
next
  case (ss_iret a s c L i p Q)
  with assms(2) show ?thesis using good_iret [of s L Q a c "LProc i p"] by simp
next
  case (ss_enter a s c L t Q)
  with assms(2) show ?thesis using good_enter [of s L Q a c t] by simp
next
  case (ss_skip a s c L i t Q)
  with assms(2) show ?thesis using good_skip [of s L Q a c i t "Suc i"] by simp
next
  case (ss_run a s c L i t Q u p)
  with assms(2) show ?thesis using good_run [of s L Q a c i t "p_context (k_procs t (PProc i))" u p] by simp
next
  case (ss_leave a s c L t Q)
  with assms(2) show ?thesis using good_leave [of s L Q a c NPROC t] by simp
next
  case (ss_relock a s c L i l t Q)
  with assms(2) show ?thesis using good_relock [of s L Q a c i l t] by simp
next
  case (ss_yield a s c L i p t Q)
  with assms(2) show ?thesis using good_yield [of s L Q a c i p t "Suc i"] by simp
next
  case (ss_sleep a s c L i p l ch t Q)
  with assms(2) show ?thesis using good_sleep [of s L Q a c i l ch t "Suc i"] by simp
next
  case (ss_wakeup a s c L ch t Q)
  with assms(2) show ?thesis using good_wakeup [of s L Q a c ch t] by simp
next
  case (ss_kill a s c L i pid r t Q)
  with assms(2) show ?thesis using good_kill [of s L Q a c pid r t] by simp
next
  case (ss_lock a s c L l t Q)
  with assms(2) show ?thesis using good_lock [of s L Q a c l t] by simp
next
  case (ss_unlock a s c L l t Q)
  with assms(2) show ?thesis using good_lock [of s L Q a c l t] by simp
next
  case (ss_alloc a s c L i j t Q)
  with assms(2) show ?thesis using good_alloc [of s L Q a c i j t] by simp
next
  case (ss_full a s c L i t Q)
  with assms(2) show ?thesis using good_full [of s L Q a c t] by simp
next
  case (ss_nostack a s c L i j p t Q)
  with assms(2) show ?thesis using good_unfork(2) [of s L Q a c i j p t] by simp
next
  case (ss_nomem a s c L i j Q)
  with assms(2) show ?thesis using good_unfork(1) [of s L Q a c i j] by simp
next
  case (ss_fork a s c L i j k p t pgdir ofile cwd pid u Q)
  with assms(2) show ?thesis using good_fork [of s L Q a c i j k p t pgdir ofile cwd pid u] by simp
next
  case (ss_exit a s c L i p t Q)
  with assms(2) show ?thesis using good_exit [of s L Q a c i t "Suc i"] by simp
next
  case (ss_wait a s c L i p t Q)
  with assms(2) show ?thesis using good_wait [of s L Q a c i p t] by simp
next
  case (ss_waited a s c L i r t Q)
  with assms(2) show ?thesis using good_waited [of s L Q a c i r t] by simp
next
  case (ss_waits a s c L i t Q)
  with assms(2) show ?thesis using good_waits [of s L Q a c i t "Suc i"] by simp
qed

lemma reach_good: "sys_reach kfree freevm x \<Longrightarrow> good x"
  by (induction rule: sys_reach.induct) (auto intro: good_init good_step)

end

end
