(* ===== verification/Mem.thy ===== *)
theory Mem
  imports Param
begin

text \<open>
  Byte-addressed memory and the memory routines of string.c: \<^verbatim>\<open>memset\<close>, \<^verbatim>\<open>memcmp\<close>, \<^verbatim>\<open>memmove\<close>. Addresses are
  32-bit words, so pointer arithmetic wraps as it does on the machine.
\<close>

type_synonym mem = "uint \<Rightarrow> uchar"

section \<open>Words in memory\<close>

definition load32 :: "mem \<Rightarrow> uint \<Rightarrow> uint" where
  "load32 m a =
     ucast (m a) OR push_bit 8 (ucast (m (a + 1))) OR push_bit 16 (ucast (m (a + 2))) OR push_bit 24 (ucast (m (a + 3)))"

definition store32 :: "uint \<Rightarrow> uint \<Rightarrow> mem \<Rightarrow> mem" where
  "store32 a w m =
     m(a := ucast w, a + 1 := ucast (drop_bit 8 w), a + 2 := ucast (drop_bit 16 w), a + 3 := ucast (drop_bit 24 w))"

section \<open>string.c\<close>

text \<open>The instructions \<^verbatim>\<open>rep stosb\<close> and \<^verbatim>\<open>rep stosl\<close>.\<close>

fun stosb :: "uint \<Rightarrow> uchar \<Rightarrow> nat \<Rightarrow> mem \<Rightarrow> mem" where
  "stosb a c 0 m = m"
| "stosb a c (Suc n) m = stosb (a + 1) c n (m(a := c))"

fun stosl :: "uint \<Rightarrow> uint \<Rightarrow> nat \<Rightarrow> mem \<Rightarrow> mem" where
  "stosl a w 0 m = m"
| "stosl a w (Suc n) m = stosl (a + 4) w n (store32 a w m)"

definition memset :: "uint \<Rightarrow> uint \<Rightarrow> uint \<Rightarrow> mem \<Rightarrow> mem" where
  "memset dst c n m =
     (if dst mod 4 = 0 \<and> n mod 4 = 0
      then let c = c AND 0xFF
           in stosl dst (push_bit 24 c OR push_bit 16 c OR push_bit 8 c OR c) (unat (n div 4)) m
      else stosb dst (ucast c) (unat n) m)"

fun memcmp_loop :: "mem \<Rightarrow> uint \<Rightarrow> uint \<Rightarrow> nat \<Rightarrow> int" where
  "memcmp_loop m s1 s2 0 = 0"
| "memcmp_loop m s1 s2 (Suc n) =
     (if m s1 \<noteq> m s2 then uint (m s1) - uint (m s2) else memcmp_loop m (s1 + 1) (s2 + 1) n)"

definition memcmp :: "mem \<Rightarrow> uint \<Rightarrow> uint \<Rightarrow> uint \<Rightarrow> int" where
  "memcmp m v1 v2 n = memcmp_loop m v1 v2 (unat n)"

text \<open>The two loops of \<^verbatim>\<open>memmove\<close>; in the first the pointers are one past the bytes to move.\<close>

fun move_down :: "uint \<Rightarrow> uint \<Rightarrow> nat \<Rightarrow> mem \<Rightarrow> mem" where
  "move_down d s 0 m = m"
| "move_down d s (Suc n) m = move_down (d - 1) (s - 1) n (m(d - 1 := m (s - 1)))"

fun move_up :: "uint \<Rightarrow> uint \<Rightarrow> nat \<Rightarrow> mem \<Rightarrow> mem" where
  "move_up d s 0 m = m"
| "move_up d s (Suc n) m = move_up (d + 1) (s + 1) n (m(d := m s))"

definition memmove :: "uint \<Rightarrow> uint \<Rightarrow> uint \<Rightarrow> mem \<Rightarrow> mem" where
  "memmove dst src n m =
     (if src < dst \<and> src + n > dst then move_down (dst + n) (src + n) (unat n) m
      else move_up dst src (unat n) m)"

definition memcpy :: "uint \<Rightarrow> uint \<Rightarrow> uint \<Rightarrow> mem \<Rightarrow> mem" where
  "memcpy dst src n m = memmove dst src n m"

section \<open>Words\<close>

lemma add_small_neq [simp]: "a + 1 \<noteq> (a::uint)" "a + 2 \<noteq> (a::uint)" "a + 3 \<noteq> (a::uint)" "a + 1 \<noteq> a + (2::uint)"
  "a + 1 \<noteq> a + (3::uint)" "a + 2 \<noteq> a + (3::uint)"
  by simp_all

lemma bit_byte_iff: "bit (ucast (w::uint) :: uchar) i \<longleftrightarrow> i < 8 \<and> bit w i"
  by (simp add: bit_simps)

lemma load_store32 [simp]: "load32 (store32 a w m) a = w"
proof (rule bit_word_eqI)
  fix i assume i: "i < LENGTH(32)"
  then consider "i < 8" | "8 \<le> i" "i < 16" | "16 \<le> i" "i < 24" | "24 \<le> i" "i < 32" by force
  then show "bit (load32 (store32 a w m) a) i = bit w i"
    by cases (auto simp: load32_def store32_def bit_simps)
qed

definition aligned4 :: "uint \<Rightarrow> bool" where
  "aligned4 a \<longleftrightarrow> a mod 4 = 0"

lemma aligned4_unat: "aligned4 a \<longleftrightarrow> unat a mod 4 = 0"
proof -
  have "unat (a mod 4) = unat a mod 4" by (simp add: unat_mod)
  then show ?thesis unfolding aligned4_def by (metis unsigned_0 unsigned_eq_0_iff)
qed

lemma unat_add_small:
  fixes a :: uint
  assumes "unat a + unat k < 2 ^ 32"
  shows "unat (a + k) = unat a + unat k"
  using assms by (simp add: unat_add_lem [symmetric])

lemma aligned4_bytes:
  assumes "aligned4 a" "aligned4 b" "a \<noteq> b" "i \<in> {0, 1, 2, 3}" "j \<in> {0, 1, 2, 3}"
  shows "a + i \<noteq> b + j"
proof
  assume eq: "a + i = b + j"
  have d: "unat a mod 4 = 0" "unat b mod 4 = 0" using assms(1,2) by (simp_all add: aligned4_unat)
  have lt: "unat a < 2 ^ 32" "unat b < 2 ^ 32" using unsigned_less [of a] unsigned_less [of b] by simp_all
  have "unat a + 3 < 2 ^ 32" "unat b + 3 < 2 ^ 32" using d lt by simp_all presburger+
  moreover have "unat i \<le> 3" "unat j \<le> 3" using assms(4,5) by auto
  ultimately have "unat (a + i) = unat a + unat i" "unat (b + j) = unat b + unat j"
    by (auto intro!: unat_add_small)
  then have "unat a + unat i = unat b + unat j" using eq by simp
  with d \<open>unat i \<le> 3\<close> \<open>unat j \<le> 3\<close> have "unat a = unat b" by presburger
  then show False using assms(3) by (simp add: word_unat_eq_iff)
qed

lemma load_store32_other:
  assumes "aligned4 a" "aligned4 b" "a \<noteq> b"
  shows "load32 (store32 a w m) b = load32 m b"
proof -
  have "store32 a w m (b + j) = m (b + j)" if "j \<in> {0, 1, 2, 3}" for j
    using aligned4_bytes [OF assms, of 0 j] aligned4_bytes [OF assms, of 1 j] aligned4_bytes [OF assms, of 2 j]
      aligned4_bytes [OF assms, of 3 j] that
    by (simp add: store32_def)
  from this [of 0] this [of 1] this [of 2] this [of 3] show ?thesis by (simp add: load32_def)
qed

section \<open>memset and memmove\<close>

text \<open>The reference: the \<open>n\<close> bytes from \<open>dst\<close> on, counted with wrap-around, get the value \<open>c\<close>.\<close>

definition fill_mem :: "uint \<Rightarrow> uchar \<Rightarrow> nat \<Rightarrow> mem \<Rightarrow> mem" where
  "fill_mem dst c n m = (\<lambda>x. if unat (x - dst) < n then c else m x)"

definition copy_mem :: "uint \<Rightarrow> uint \<Rightarrow> nat \<Rightarrow> mem \<Rightarrow> mem" where
  "copy_mem dst src n m = (\<lambda>x. if unat (x - dst) < n then m (src + (x - dst)) else m x)"

lemma unat_sub_one:
  fixes x a :: uint
  assumes "x \<noteq> a"
  shows "unat (x - (a + 1)) = unat (x - a) - 1" "0 < unat (x - a)"
proof -
  have "x - a \<noteq> 0" using assms by simp
  then have "unat (x - a - 1) = unat (x - a) - 1" by (rule unat_minus_one)
  moreover have "x - (a + 1) = x - a - 1" by (simp only: diff_diff_eq)
  ultimately show "unat (x - (a + 1)) = unat (x - a) - 1" by (simp only:)
  show "0 < unat (x - a)" using \<open>x - a \<noteq> 0\<close> by (simp add: unat_gt_0)
qed

lemma stosb_fill: "stosb a c n m = fill_mem a c n m"
proof (induction n arbitrary: a m)
  case 0
  then show ?case by (simp add: fill_mem_def)
next
  case (Suc n)
  show ?case
  proof
    fix x
    show "stosb a c (Suc n) m x = fill_mem a c (Suc n) m x"
      using unat_sub_one [of x a] by (cases "x = a") (auto simp: Suc fill_mem_def)
  qed
qed

lemma stosb_add: "stosb a c (j + k) m = stosb (a + word_of_nat j) c k (stosb a c j m)"
proof (induction j arbitrary: a m)
  case 0
  then show ?case by simp
next
  case (Suc j)
  show ?case by (simp add: Suc add.assoc fun_upd_def)
qed

lemma stosb_4: "stosb a c 4 m = m(a := c, a + 1 := c, a + 2 := c, a + 3 := c)"
  by (simp add: numeral_eq_Suc add.assoc)

definition rep4 :: "uint \<Rightarrow> uint" where
  "rep4 c = push_bit 24 c OR push_bit 16 c OR push_bit 8 c OR c"

lemma rep4_bytes:
  assumes "c = d AND 0xFF"
  shows "ucast (rep4 c) = (ucast d :: uchar)" "ucast (drop_bit 8 (rep4 c)) = (ucast d :: uchar)"
    "ucast (drop_bit 16 (rep4 c)) = (ucast d :: uchar)" "ucast (drop_bit 24 (rep4 c)) = (ucast d :: uchar)"
proof -
  have "c = take_bit 8 d" by (simp add: assms take_bit_eq_mask mask_eq_exp_minus_1)
  then show "ucast (rep4 c) = (ucast d :: uchar)" "ucast (drop_bit 8 (rep4 c)) = (ucast d :: uchar)"
    "ucast (drop_bit 16 (rep4 c)) = (ucast d :: uchar)" "ucast (drop_bit 24 (rep4 c)) = (ucast d :: uchar)"
    by (auto intro!: bit_word_eqI simp: rep4_def bit_simps)
qed

lemma stosl_stosb:
  assumes "c = d AND 0xFF"
  shows "stosl a (rep4 c) n m = stosb a (ucast d) (4 * n) m"
proof (induction n arbitrary: a m)
  case 0
  then show ?case by simp
next
  case (Suc n)
  have "store32 a (rep4 c) m = stosb a (ucast d) 4 m"
    by (simp add: store32_def rep4_bytes [OF assms] stosb_4)
  then show ?case
    using Suc stosb_add [of a "ucast d" 4 "4 * n" m] by simp
qed

lemma memset_fill: "memset dst c n m = fill_mem dst (ucast c) (unat n) m"
proof (cases "dst mod 4 = 0 \<and> n mod 4 = 0")
  case True
  have "unat n mod 4 = 0" using True aligned4_unat [of n] by (simp add: aligned4_def)
  then have "4 * unat (n div 4) = unat n" by (auto simp: unat_div)
  then show ?thesis
    using True stosl_stosb [of "c AND 0xFF" c dst "unat (n div 4)" m] by (simp add: memset_def rep4_def stosb_fill)
qed (auto simp: memset_def stosb_fill)

text \<open>Copying upwards is right if the destination is not above the source or beyond its end,
  copying downwards if it is not below. A range of bytes is given by numbers, so it does not wrap.\<close>

lemma unat_sub_range:
  fixes x d :: uint
  assumes "unat d + n \<le> 2 ^ 32"
  shows "unat (x - d) < n \<longleftrightarrow> unat d \<le> unat x \<and> unat x < unat d + n"
proof (cases "unat d \<le> unat x")
  case True
  then have "unat (x - d) = unat x - unat d" by (simp add: unat_sub word_le_nat_alt)
  with True show ?thesis by auto
next
  case False
  have "unat x < 2 ^ 32" "unat d < 2 ^ 32" using unsigned_less [of x] unsigned_less [of d] by simp_all
  with False have "unat (x - d) = 2 ^ 32 + unat x - unat d"
    by (simp add: unat_sub_if_size word_size word_le_nat_alt)
  with False assms show ?thesis by simp
qed

lemma unat_Suc_le: "unat (a::uint) + Suc n < 2 ^ 32 \<Longrightarrow> unat (a + 1) = Suc (unat a)"
  by (subst unat_add_small) auto

lemma move_up_copy:
  assumes "unat s + n \<le> 2 ^ 32" "unat d + n \<le> 2 ^ 32" "unat d \<le> unat s \<or> unat s + n \<le> unat d"
  shows "move_up d s n m = copy_mem d s n m"
  using assms
proof (induction n arbitrary: d s m)
  case 0
  then show ?case by (simp add: copy_mem_def)
next
  case (Suc n)
  show ?case
  proof (cases "n = 0")
    case True
    show ?thesis by (rule ext) (auto simp: True copy_mem_def unat_eq_zero)
  next
    case False
    have s1: "unat (s + 1) = Suc (unat s)" "unat (d + 1) = Suc (unat d)"
      using Suc.prems(1,2) False by (auto intro!: unat_Suc_le [of _ 0])
    have IH: "move_up (d + 1) (s + 1) n (m(d := m s)) = copy_mem (d + 1) (s + 1) n (m(d := m s))"
      using Suc.prems s1 by (intro Suc.IH) auto
    show ?thesis
    proof
      fix x
      have "s + 1 + (x - (d + 1)) = s + (x - d)" by simp
      moreover have "s + (x - d) \<noteq> d" if "x \<noteq> d" "unat (x - d) < Suc n"
      proof
        assume "s + (x - d) = d"
        then have e: "x - d = d - s" by (simp add: algebra_simps)
        then have "unat (d - s) < Suc n" "d \<noteq> s" using that by auto
        then show False
          using Suc.prems e unat_sub_range [of s "Suc n" d] unat_sub_range [of d "Suc n" s]
          by (auto simp: word_unat_eq_iff)
      qed
      ultimately show "move_up d s (Suc n) m x = copy_mem d s (Suc n) m x"
        using unat_sub_one [of x d] by (cases "x = d") (auto simp: IH copy_mem_def)
    qed
  qed
qed

lemma unat_word_of_nat: "n < 2 ^ 32 \<Longrightarrow> unat (word_of_nat n :: uint) = n"
  by (simp add: unat_of_nat)

lemma move_down_copy:
  assumes "unat s + n \<le> 2 ^ 32" "unat d + n \<le> 2 ^ 32" "unat s < unat d"
  shows "move_down (d + word_of_nat n) (s + word_of_nat n) n m = copy_mem d s n m"
  using assms
proof (induction n arbitrary: m)
  case 0
  then show ?case by (simp add: copy_mem_def)
next
  case (Suc n)
  have n: "unat (word_of_nat n :: uint) = n" using Suc.prems(2) by (intro unat_word_of_nat) auto
  let ?dn = "d + word_of_nat n" and ?sn = "s + word_of_nat n"
  have IH: "move_down ?dn ?sn n (m(?dn := m ?sn)) = copy_mem d s n (m(?dn := m ?sn))"
    using Suc.prems by (intro Suc.IH) auto
  have "move_down (d + word_of_nat (Suc n)) (s + word_of_nat (Suc n)) (Suc n) m = move_down ?dn ?sn n (m(?dn := m ?sn))"
    by simp
  moreover have "copy_mem d s n (m(?dn := m ?sn)) x = copy_mem d s (Suc n) m x" for x
  proof -
    have "x = ?dn" if "unat (x - d) = n"
    proof -
      have "x - d = word_of_nat n" using that n by (simp add: word_unat_eq_iff)
      then show ?thesis by (simp add: algebra_simps)
    qed
    note eq = this
    have ne: "s + (x - d) \<noteq> ?dn" if "unat (x - d) < n"
    proof
      assume "s + (x - d) = ?dn"
      then have "unat (s + (x - d)) = unat ?dn" by (rule arg_cong)
      moreover have "unat (s + (x - d)) = unat s + unat (x - d)" "unat ?dn = unat d + n"
        using that n Suc.prems unat_add_small [of d "word_of_nat n"] unat_add_small [of s "x - d"] by simp_all
      ultimately show False using that Suc.prems(3) by linarith
    qed
    consider "unat (x - d) < n" | "unat (x - d) = n" | "n < unat (x - d)" by linarith
    then show ?thesis
    proof cases
      case 1
      then show ?thesis using ne by (simp add: copy_mem_def del: add_diff_eq)
    next
      case 2
      then show ?thesis by (simp add: eq copy_mem_def n)
    next
      case 3
      then have "x \<noteq> ?dn" using n by auto
      with 3 show ?thesis by (simp add: copy_mem_def)
    qed
  qed
  ultimately show ?case unfolding IH by (intro ext) simp
qed

section \<open>Properties\<close>

text \<open>
  C17: \<^verbatim>\<open>memset\<close>, which stores four bytes at a time when address and length allow, sets exactly the \<open>n\<close>
  bytes from \<open>dst\<close> on to the low byte of \<open>c\<close> and no other byte, for every address and length.
\<close>

theorem memset_correct:
  "memset dst c n m x = (if x - dst < n then ucast c else m x)"
  by (simp add: memset_fill fill_mem_def word_less_nat_alt)

text \<open>
  C16: \<^verbatim>\<open>memmove\<close> copies the \<open>n\<close> bytes at \<open>src\<close> to \<open>dst\<close> and changes no other byte, however the two ranges
  overlap, if neither range wraps around the address space.
\<close>

theorem memmove_correct:
  assumes "unat src + unat n < 2 ^ 32" "unat dst + unat n \<le> 2 ^ 32"
  shows "memmove dst src n m x = (if x - dst < n then m (src + (x - dst)) else m x)"
proof -
  have "unat (src + n) = unat src + unat n" using assms(1) by (rule unat_add_small)
  then have "memmove dst src n m = copy_mem dst src (unat n) m"
    using assms move_down_copy [of src "unat n" dst m] move_up_copy [of src "unat n" dst m]
    by (auto simp: memmove_def word_less_nat_alt)
  then show ?thesis by (simp add: copy_mem_def word_less_nat_alt)
qed

theorem memmove_correct_witness:
  "memmove 102 100 4 (\<lambda>a. ucast a) 105 = 103 \<and> memmove 100 102 4 (\<lambda>a. ucast a) 100 = 102"
  using memmove_correct [of 100 4 102 "\<lambda>a. ucast a" 105] memmove_correct [of 102 4 100 "\<lambda>a. ucast a" 100] by simp

end
