(* ===== verification/Kalloc.thy ===== *)
theory Kalloc
  imports Mem
begin

text \<open>
  The physical page allocator, kalloc.c. Memory is addressed by kernel virtual addresses; the free
  list runs through the first word of each free page. The section of \<^verbatim>\<open>kalloc\<close> and \<^verbatim>\<open>kfree\<close> under
  \<^verbatim>\<open>kmem.lock\<close> is one step here; the theory of the whole kernel puts the lock around it.
\<close>

section \<open>State and operations\<close>

text \<open>\<open>km_end\<close> and \<open>km_data\<close> are the linker's symbols \<^verbatim>\<open>end\<close> and \<^verbatim>\<open>data\<close>.\<close>

record kmem =
  km_mem :: mem
  km_use_lock :: int
  km_freelist :: uint
  km_end :: uint
  km_data :: uint

definition V2P :: "uint \<Rightarrow> uint" where
  "V2P a = a - KERNBASE"

definition P2V :: "uint \<Rightarrow> uint" where
  "P2V a = a + KERNBASE"

definition PGROUNDUP :: "uint \<Rightarrow> uint" where
  "PGROUNDUP sz = (sz + PGSIZE - 1) AND NOT (PGSIZE - 1)"

definition PGROUNDDOWN :: "uint \<Rightarrow> uint" where
  "PGROUNDDOWN a = a AND NOT (PGSIZE - 1)"

definition kfree :: "uint \<Rightarrow> kmem \<Rightarrow> kmem res" where
  "kfree v k =
     (if v mod PGSIZE \<noteq> 0 \<or> v < km_end k \<or> V2P v \<ge> PHYSTOP then Panic ''kfree''
      else let m = memset v 1 PGSIZE (km_mem k);
               m = store32 v (km_freelist k) m
           in Ok (k\<lparr>km_mem := m, km_freelist := v\<rparr>))"

definition kalloc :: "kmem \<Rightarrow> uint \<times> kmem" where
  "kalloc k =
     (let r = km_freelist k
      in if r \<noteq> 0 then (r, k\<lparr>km_freelist := load32 (km_mem k) r\<rparr>) else (r, k))"

text \<open>The loop of \<^verbatim>\<open>freerange\<close>; there are \<open>2 ^ 20\<close> pages in the address space, so \<open>2 ^ 20 + 1\<close> rounds
  are enough whenever the range does not wrap.\<close>

fun freerange_from :: "nat \<Rightarrow> uint \<Rightarrow> uint \<Rightarrow> kmem \<Rightarrow> kmem res" where
  "freerange_from 0 p vend k = Diverge"
| "freerange_from (Suc n) p vend k =
     (if p + PGSIZE \<le> vend then bindR (kfree p k) (freerange_from n (p + PGSIZE) vend) else Ok k)"

definition freerange :: "uint \<Rightarrow> uint \<Rightarrow> kmem \<Rightarrow> kmem res" where
  "freerange vstart vend k = freerange_from (2 ^ 20 + 1) (PGROUNDUP vstart) vend k"

definition kinit1 :: "uint \<Rightarrow> uint \<Rightarrow> kmem \<Rightarrow> kmem res" where
  "kinit1 vstart vend k = freerange vstart vend (k\<lparr>km_use_lock := 0\<rparr>)"

definition kinit2 :: "uint \<Rightarrow> uint \<Rightarrow> kmem \<Rightarrow> kmem res" where
  "kinit2 vstart vend k = bindR (freerange vstart vend k) (\<lambda>k. Ok (k\<lparr>km_use_lock := 1\<rparr>))"

section \<open>Pages\<close>

definition page :: "uint \<Rightarrow> uint set" where
  "page v = {x. x - v < PGSIZE}"

definition page_aligned :: "uint \<Rightarrow> bool" where
  "page_aligned v \<longleftrightarrow> v mod PGSIZE = 0"

lemma page_aligned_unat: "page_aligned v \<longleftrightarrow> unat v mod 4096 = 0"
proof -
  have "unat (v mod 4096) = unat v mod 4096" by (simp add: unat_mod)
  then show ?thesis unfolding page_aligned_def by (metis unsigned_0 unsigned_eq_0_iff)
qed

lemma unat_lt32: "unat (a::uint) < 2 ^ 32"
  using unsigned_less [of a] by simp

lemma page_aligned_room: "page_aligned v \<Longrightarrow> unat v + 4096 \<le> 2 ^ 32"
  using unat_lt32 [of v] by (auto simp: page_aligned_unat simp flip: dvd_eq_mod_eq_0 elim!: dvdE)

lemma page_iff: "page_aligned v \<Longrightarrow> x \<in> page v \<longleftrightarrow> unat v \<le> unat x \<and> unat x < unat v + 4096"
  using unat_sub_range [of v 4096 x] page_aligned_room [of v] by (simp add: page_def word_less_nat_alt)

lemma page_div: "(V::nat) mod 4096 = 0 \<Longrightarrow> V \<le> X \<Longrightarrow> X < V + 4096 \<Longrightarrow> 4096 * (X div 4096) = V"
  by (auto elim!: dvdE simp flip: dvd_eq_mod_eq_0 intro!: div_nat_eqI)

lemma page_disjoint:
  assumes "page_aligned v" "page_aligned w" "v \<noteq> w"
  shows "page v \<inter> page w = {}"
proof -
  have "False" if "x \<in> page v" "x \<in> page w" for x
  proof -
    have "4096 * (unat x div 4096) = unat v" "4096 * (unat x div 4096) = unat w"
      using that assms(1,2) page_div [of "unat v" "unat x"] page_div [of "unat w" "unat x"]
      by (simp_all add: page_iff) (simp_all add: page_aligned_unat)
    then have "unat v = unat w" by simp
    then show False using assms(3) by (simp add: word_unat_eq_iff)
  qed
  then show ?thesis by blast
qed

lemma page_self [simp]: "v \<in> page v"
  by (simp add: page_def)

section \<open>The free list\<close>

primrec chain :: "mem \<Rightarrow> uint \<Rightarrow> uint list \<Rightarrow> bool" where
  "chain m h [] \<longleftrightarrow> h = 0"
| "chain m h (x # xs) \<longleftrightarrow> h = x \<and> x \<noteq> 0 \<and> chain m (load32 m x) xs"

definition ok_page :: "kmem \<Rightarrow> uint \<Rightarrow> bool" where
  "ok_page k v \<longleftrightarrow> page_aligned v \<and> km_end k \<le> v \<and> V2P v < PHYSTOP"

definition free_pages :: "kmem \<Rightarrow> uint list \<Rightarrow> bool" where
  "free_pages k xs \<longleftrightarrow>
     0 < km_end k \<and> chain (km_mem k) (km_freelist k) xs \<and> distinct xs \<and> (\<forall>x \<in> set xs. ok_page k x)"

lemma load32_page_cong:
  assumes "page_aligned v" "\<And>x. x \<in> page v \<Longrightarrow> m' x = m x"
  shows "load32 m' v = load32 m v"
proof -
  have "v + i \<in> page v" if "i \<in> {0, 1, 2, 3}" for i using that by (auto simp: page_def)
  from assms(2) [OF this [of 0]] assms(2) [OF this [of 1]] assms(2) [OF this [of 2]] assms(2) [OF this [of 3]]
  show ?thesis by (simp add: load32_def)
qed

lemma chain_cong:
  assumes "\<And>v x. v \<in> set xs \<Longrightarrow> x \<in> page v \<Longrightarrow> m' x = m x" "\<And>v. v \<in> set xs \<Longrightarrow> page_aligned v"
  shows "chain m' h xs = chain m h xs"
  using assms
proof (induction xs arbitrary: h)
  case Nil
  then show ?case by simp
next
  case (Cons v xs)
  have "load32 m' v = load32 m v" using Cons.prems by (intro load32_page_cong) auto
  moreover have "chain m' (load32 m v) xs = chain m (load32 m v) xs"
    using Cons.prems by (intro Cons.IH) (metis list.set_intros(2))+
  ultimately show ?case by simp
qed

lemma page_aligned_aligned4: "page_aligned v \<Longrightarrow> aligned4 v"
  by (auto simp: page_aligned_unat aligned4_unat simp flip: dvd_eq_mod_eq_0 elim: dvd_trans [rotated])

lemma store32_page: "page_aligned v \<Longrightarrow> x \<notin> page v \<Longrightarrow> store32 v w m x = m x"
  by (auto simp: store32_def page_def)

lemma kalloc_run:
  assumes "free_pages k xs"
  shows "case xs of [] \<Rightarrow> kalloc k = (0, k)
     | x # ys \<Rightarrow> kalloc k = (x, k\<lparr>km_freelist := load32 (km_mem k) x\<rparr>) \<and>
         free_pages (k\<lparr>km_freelist := load32 (km_mem k) x\<rparr>) ys \<and> x \<noteq> 0 \<and> ok_page k x \<and> x \<notin> set ys"
  using assms by (cases xs) (auto simp: free_pages_def kalloc_def ok_page_def Let_def)

definition freed :: "uint \<Rightarrow> kmem \<Rightarrow> kmem" where
  "freed v k = k\<lparr>km_mem := store32 v (km_freelist k) (memset v 1 PGSIZE (km_mem k)), km_freelist := v\<rparr>"

lemma kfree_run: "kfree v k = (if ok_page k v then Ok (freed v k) else Panic ''kfree'')"
  by (auto simp: kfree_def freed_def ok_page_def page_aligned_def Let_def not_less not_le)

lemma freed_frame: "page_aligned v \<Longrightarrow> x \<notin> page v \<Longrightarrow> km_mem (freed v k) x = km_mem k x"
  by (simp add: freed_def store32_page) (simp add: memset_fill fill_mem_def page_def word_less_nat_alt)

lemma freed_pages:
  assumes "free_pages k xs" "ok_page k v" "v \<notin> set xs"
  shows "free_pages (freed v k) (v # xs)"
proof -
  have al: "page_aligned v" using assms(2) by (simp add: ok_page_def)
  have other: "page_aligned x" "x \<noteq> v" if "x \<in> set xs" for x
    using that assms by (auto simp: free_pages_def ok_page_def)
  have "v \<noteq> 0" using assms by (auto simp: free_pages_def ok_page_def)
  moreover have "load32 (km_mem (freed v k)) v = km_freelist k" by (simp add: freed_def)
  moreover have "chain (km_mem (freed v k)) (km_freelist k) xs = chain (km_mem k) (km_freelist k) xs"
  proof (rule chain_cong)
    fix w x assume "w \<in> set xs" "x \<in> page w"
    then show "km_mem (freed v k) x = km_mem k x"
      using page_disjoint [of w v] other al by (intro freed_frame) auto
  qed (use other in auto)
  ultimately show ?thesis using assms by (auto simp: free_pages_def ok_page_def freed_def)
qed

section \<open>Freeing a range\<close>

definition pages_from :: "uint \<Rightarrow> nat \<Rightarrow> uint list" where
  "pages_from p n = map (\<lambda>i. p + word_of_nat (4096 * i)) [0..<n]"

lemma pages_from_Suc: "pages_from p (Suc n) = p # pages_from (p + PGSIZE) n"
  by (simp add: pages_from_def upt_conv_Cons map_Suc_upt [symmetric] del: upt_Suc)

lemma unat_pages_from:
  assumes "unat p + 4096 * n < 2 ^ 32" "x \<in> set (pages_from p n)"
  shows "\<exists>i < n. unat x = unat p + 4096 * i"
proof -
  obtain i where i: "i < n" "x = p + word_of_nat (4096 * i)" using assms(2) by (auto simp: pages_from_def)
  then have "unat (word_of_nat (4096 * i) :: uint) = 4096 * i" using assms(1) by (intro unat_word_of_nat) auto
  then have "unat x = unat p + 4096 * i"
    unfolding i(2) using assms(1) i(1) by (subst unat_add_small) auto
  with i(1) show ?thesis by blast
qed

lemma freerange_run:
  assumes "free_pages k xs" "page_aligned p" "n < fuel"
    and "unat p + 4096 * n \<le> unat vend" "unat vend < unat p + 4096 * Suc n" "unat vend + 4096 < 2 ^ 32"
    and "\<forall>v \<in> set (pages_from p n). ok_page k v" "set xs \<inter> set (pages_from p n) = {}"
  shows "\<exists>k'. freerange_from fuel p vend k = Ok k' \<and> free_pages k' (rev (pages_from p n) @ xs)"
  using assms
proof (induction n arbitrary: fuel p k xs)
  case 0
  then have "unat (p + PGSIZE) = unat p + 4096" by (subst unat_add_small) auto
  with 0 show ?case by (cases fuel) (auto simp: word_le_nat_alt pages_from_def)
next
  case (Suc n)
  obtain f where f: "fuel = Suc f" using Suc.prems(3) by (cases fuel) auto
  have step: "unat (p + PGSIZE) = unat p + 4096" using Suc.prems by (subst unat_add_small) auto
  have okp: "ok_page k p" "p \<notin> set xs" "\<forall>v \<in> set (pages_from (p + PGSIZE) n). ok_page k v"
    using Suc.prems(7,8) by (auto simp: pages_from_Suc)
  have np: "p \<notin> set (pages_from (p + PGSIZE) n)"
    using unat_pages_from [of "p + PGSIZE" n p] step Suc.prems(4,6) by auto
  have fp: "free_pages (freed p k) (p # xs)" by (rule freed_pages [OF Suc.prems(1) okp(1,2)])
  have ok: "\<forall>v \<in> set (pages_from (p + PGSIZE) n). ok_page (freed p k) v"
    using okp(3) by (simp add: ok_page_def freed_def)
  have al: "page_aligned (p + PGSIZE)" using Suc.prems(2) step by (simp add: page_aligned_unat)
  have "\<exists>k'. freerange_from f (p + PGSIZE) vend (freed p k) = Ok k' \<and>
      free_pages k' (rev (pages_from (p + PGSIZE) n) @ p # xs)"
    using Suc.prems np f step by (intro Suc.IH [OF fp al]) (auto simp: pages_from_Suc ok_page_def freed_def)
  moreover have "p + PGSIZE \<le> vend" using Suc.prems(4) step by (simp add: word_le_nat_alt)
  ultimately show ?case using f okp(1) by (simp add: kfree_run pages_from_Suc)
qed

section \<open>Properties\<close>

text \<open>Memory as the boot loader leaves it, with \<^verbatim>\<open>end\<close> at 0x80120000.\<close>

definition boot_kmem :: kmem where
  "boot_kmem = \<lparr>km_mem = (\<lambda>_. 0), km_use_lock = 0, km_freelist = 0, km_end = 0x80120000, km_data = 0x80108000\<rparr>"

lemma boot_kmem_free: "free_pages boot_kmem []"
  by (simp add: free_pages_def boot_kmem_def)

text \<open>
  C10: \<^verbatim>\<open>kfree\<close> panics on an address that is not a page of free memory; otherwise it puts the page in
  front of the free list and changes no byte outside it, and the next \<^verbatim>\<open>kalloc\<close> returns this very page and
  leaves the free list as it was before.
\<close>

theorem kfree_kalloc:
  assumes "free_pages k xs" "v \<notin> set xs"
  shows "if ok_page k v
     then \<exists>k'. kfree v k = Ok k' \<and> free_pages k' (v # xs) \<and> (\<forall>x. x \<notin> page v \<longrightarrow> km_mem k' x = km_mem k x) \<and>
       fst (kalloc k') = v \<and> free_pages (snd (kalloc k')) xs
     else kfree v k = Panic ''kfree''"
proof (cases "ok_page k v")
  case True
  have fp: "free_pages (freed v k) (v # xs)" using freed_pages [OF assms(1) True assms(2)] .
  then have "kalloc (freed v k) = (v, (freed v k)\<lparr>km_freelist := load32 (km_mem (freed v k)) v\<rparr>)"
     "free_pages ((freed v k)\<lparr>km_freelist := load32 (km_mem (freed v k)) v\<rparr>) xs"
    using kalloc_run [OF fp] by simp_all
  moreover have "\<forall>x. x \<notin> page v \<longrightarrow> km_mem (freed v k) x = km_mem k x"
    using freed_frame True by (simp add: ok_page_def)
  ultimately show ?thesis using True fp by (simp add: kfree_run)
qed (simp add: kfree_run)

theorem kfree_kalloc_witness:
  "\<exists>k'. kfree 0x80200000 boot_kmem = Ok k' \<and> free_pages k' [0x80200000] \<and> fst (kalloc k') = 0x80200000"
proof -
  have "ok_page boot_kmem 0x80200000" by (simp add: ok_page_def boot_kmem_def page_aligned_def V2P_def)
  with kfree_kalloc [OF boot_kmem_free, where v = "0x80200000"] show ?thesis by auto
qed

text \<open>
  C18: \<^verbatim>\<open>freerange\<close> terminates and puts every whole page between \<open>vstart\<close> and \<open>vend\<close> on the free list exactly
  once, given that they are pages of free memory not yet on it.
\<close>

theorem freerange_correct:
  assumes "free_pages k xs" "page_aligned (PGROUNDUP vstart)"
    and "unat (PGROUNDUP vstart) + 4096 * n \<le> unat vend" "unat vend < unat (PGROUNDUP vstart) + 4096 * Suc n"
    and "unat vend + 4096 < 2 ^ 32" "\<forall>v \<in> set (pages_from (PGROUNDUP vstart) n). ok_page k v"
    and "set xs \<inter> set (pages_from (PGROUNDUP vstart) n) = {}"
  shows "\<exists>k'. freerange vstart vend k = Ok k' \<and> free_pages k' (rev (pages_from (PGROUNDUP vstart) n) @ xs)"
proof -
  have "4096 * n < 2 ^ 32" using assms(3) unat_lt32 [of vend] by linarith
  then show ?thesis
    unfolding freerange_def using assms by (intro freerange_run) auto
qed

theorem freerange_correct_witness:
  "\<exists>k'. freerange 0x80120001 0x80123000 boot_kmem = Ok k' \<and> free_pages k' [0x80122000, 0x80121000]"
proof -
  have up: "PGROUNDUP 0x80120001 = 0x80121000" by (simp add: PGROUNDUP_def)
  have pg: "pages_from 0x80121000 2 = [0x80121000, 0x80122000]" by (simp add: pages_from_def upt_conv_Cons)
  show ?thesis
    using freerange_correct [OF boot_kmem_free, where vstart = "0x80120001" and n = 2 and vend = "0x80123000", unfolded up pg]
    by (simp add: page_aligned_def ok_page_def boot_kmem_def V2P_def)
qed

end
