(* ===== verification/Vm.thy ===== *)
theory Vm
  imports Kalloc
begin

text \<open>
  Page tables and address spaces: vm.c without the segment setup and the processor switching, which
  Sched.thy has. A page table is a page of memory; its entries are words in it.
\<close>

section \<open>mmu.h\<close>

abbreviation (input) PTE_P :: uint where "PTE_P \<equiv> 1"
abbreviation (input) PTE_W :: uint where "PTE_W \<equiv> 2"
abbreviation (input) PTE_U :: uint where "PTE_U \<equiv> 4"
abbreviation (input) EXTMEM :: uint where "EXTMEM \<equiv> 0x100000"
abbreviation (input) DEVSPACE :: uint where "DEVSPACE \<equiv> 0xFE000000"
abbreviation (input) KERNLINK :: uint where "KERNLINK \<equiv> 0x80100000"
abbreviation (input) NPDENTRIES :: nat where "NPDENTRIES \<equiv> 1024"

definition PDX :: "uint \<Rightarrow> uint" where
  "PDX va = drop_bit 22 va AND 0x3FF"

definition PTX :: "uint \<Rightarrow> uint" where
  "PTX va = drop_bit 12 va AND 0x3FF"

definition PGADDR :: "uint \<Rightarrow> uint \<Rightarrow> uint \<Rightarrow> uint" where
  "PGADDR d t off = push_bit 22 d OR push_bit 12 t OR off"

definition PTE_ADDR :: "uint \<Rightarrow> uint" where
  "PTE_ADDR pte = pte AND NOT 0xFFF"

definition PTE_FLAGS :: "uint \<Rightarrow> uint" where
  "PTE_FLAGS pte = pte AND 0xFFF"

section \<open>Operations\<close>

definition set_mem :: "uint \<Rightarrow> uint \<Rightarrow> kmem \<Rightarrow> kmem" where
  "set_mem a w k = k\<lparr>km_mem := store32 a w (km_mem k)\<rparr>"

definition get_mem :: "uint \<Rightarrow> kmem \<Rightarrow> uint" where
  "get_mem a k = load32 (km_mem k) a"

definition zero_page :: "uint \<Rightarrow> kmem \<Rightarrow> kmem" where
  "zero_page v k = k\<lparr>km_mem := memset v 0 PGSIZE (km_mem k)\<rparr>"

definition walkpgdir :: "uint \<Rightarrow> uint \<Rightarrow> bool \<Rightarrow> kmem \<Rightarrow> uint \<times> kmem" where
  "walkpgdir pgdir va alloc k =
     (let pde = pgdir + 4 * PDX va
      in if get_mem pde k AND PTE_P \<noteq> 0
         then (P2V (PTE_ADDR (get_mem pde k)) + 4 * PTX va, k)
         else if \<not> alloc then (0, k)
         else let (pgtab, k) = kalloc k
              in if pgtab = 0 then (0, k)
                 else let k = zero_page pgtab k;
                          k = set_mem pde (V2P pgtab OR PTE_P OR PTE_W OR PTE_U) k
                      in (pgtab + 4 * PTX va, k))"

text \<open>The loop of \<^verbatim>\<open>mappages\<close>. The address steps through pages until \<open>lst\<close>, so \<open>2 ^ 20\<close> rounds, the
  number of pages, are enough.\<close>

fun mappages_from :: "nat \<Rightarrow> uint \<Rightarrow> uint \<Rightarrow> uint \<Rightarrow> uint \<Rightarrow> uint \<Rightarrow> kmem \<Rightarrow> (int \<times> kmem) res" where
  "mappages_from 0 pgdir a lst pa perm k = Diverge"
| "mappages_from (Suc n) pgdir a lst pa perm k =
     (let (pte, k) = walkpgdir pgdir a True k
      in if pte = 0 then Ok (-1, k)
         else if get_mem pte k AND PTE_P \<noteq> 0 then Panic ''remap''
         else let k = set_mem pte (pa OR perm OR PTE_P) k
              in if a = lst then Ok (0, k)
                 else mappages_from n pgdir (a + PGSIZE) lst (pa + PGSIZE) perm k)"

definition mappages :: "uint \<Rightarrow> uint \<Rightarrow> uint \<Rightarrow> uint \<Rightarrow> uint \<Rightarrow> kmem \<Rightarrow> (int \<times> kmem) res" where
  "mappages pgdir va sz pa perm k =
     mappages_from (2 ^ 20) pgdir (PGROUNDDOWN va) (PGROUNDDOWN (va + sz - 1)) pa perm k"

text \<open>The loop of \<^verbatim>\<open>deallocuvm\<close>. Below KERNBASE there are \<open>2 ^ 19\<close> pages.\<close>

fun deallocuvm_from :: "nat \<Rightarrow> uint \<Rightarrow> uint \<Rightarrow> uint \<Rightarrow> kmem \<Rightarrow> kmem res" where
  "deallocuvm_from 0 pgdir a oldsz k = Diverge"
| "deallocuvm_from (Suc n) pgdir a oldsz k =
     (if a < oldsz
      then let (pte, k) = walkpgdir pgdir a False k
           in if pte = 0
              then deallocuvm_from n pgdir (PGADDR (PDX a + 1) 0 0 - PGSIZE + PGSIZE) oldsz k
              else if get_mem pte k AND PTE_P \<noteq> 0
              then let pa = PTE_ADDR (get_mem pte k)
                   in if pa = 0 then Panic ''kfree''
                      else bindR (kfree (P2V pa) k) (\<lambda>k.
                           deallocuvm_from n pgdir (a + PGSIZE) oldsz (set_mem pte 0 k))
              else deallocuvm_from n pgdir (a + PGSIZE) oldsz k
      else Ok k)"

definition deallocuvm :: "uint \<Rightarrow> uint \<Rightarrow> uint \<Rightarrow> kmem \<Rightarrow> (uint \<times> kmem) res" where
  "deallocuvm pgdir oldsz newsz k =
     (if newsz \<ge> oldsz then Ok (oldsz, k)
      else bindR (deallocuvm_from (2 ^ 20 + 1) pgdir (PGROUNDUP newsz) oldsz k) (\<lambda>k. Ok (newsz, k)))"

fun free_tables :: "uint \<Rightarrow> nat list \<Rightarrow> kmem \<Rightarrow> kmem res" where
  "free_tables pgdir [] k = Ok k"
| "free_tables pgdir (i # js) k =
     (let e = get_mem (pgdir + 4 * word_of_nat i) k
      in if e AND PTE_P \<noteq> 0 then bindR (kfree (P2V (PTE_ADDR e)) k) (free_tables pgdir js)
         else free_tables pgdir js k)"

definition freevm :: "uint \<Rightarrow> kmem \<Rightarrow> kmem res" where
  "freevm pgdir k =
     (if pgdir = 0 then Panic ''freevm: no pgdir''
      else bindR (deallocuvm pgdir KERNBASE 0 k) (\<lambda>(_, k).
           bindR (free_tables pgdir [0..<NPDENTRIES] k) (kfree pgdir)))"

definition kmap :: "kmem \<Rightarrow> (uint \<times> uint \<times> uint \<times> uint) list" where
  "kmap k =
     [(KERNBASE, 0, EXTMEM, PTE_W),
      (KERNLINK, V2P KERNLINK, V2P (km_data k), 0),
      (km_data k, V2P (km_data k), PHYSTOP, PTE_W),
      (DEVSPACE, DEVSPACE, 0, PTE_W)]"

fun setupkvm_maps :: "uint \<Rightarrow> (uint \<times> uint \<times> uint \<times> uint) list \<Rightarrow> kmem \<Rightarrow> (uint \<times> kmem) res" where
  "setupkvm_maps pgdir [] k = Ok (pgdir, k)"
| "setupkvm_maps pgdir ((virt, phys_start, phys_end, perm) # ms) k =
     bindR (mappages pgdir virt (phys_end - phys_start) phys_start perm k) (\<lambda>(r, k).
       if r < 0 then bindR (freevm pgdir k) (\<lambda>k. Ok (0, k)) else setupkvm_maps pgdir ms k)"

definition setupkvm :: "kmem \<Rightarrow> (uint \<times> kmem) res" where
  "setupkvm k =
     (let (pgdir, k) = kalloc k
      in if pgdir = 0 then Ok (0, k)
         else let k = zero_page pgdir k
              in if P2V PHYSTOP > DEVSPACE then Panic ''PHYSTOP too high''
                 else setupkvm_maps pgdir (kmap k) k)"

text \<open>\<open>init\<close> is the address of the program in the kernel's memory.\<close>

definition inituvm :: "uint \<Rightarrow> uint \<Rightarrow> uint \<Rightarrow> kmem \<Rightarrow> kmem res" where
  "inituvm pgdir init sz k =
     (if sz \<ge> PGSIZE then Panic ''inituvm: more than a page''
      else let (mem, k) = kalloc k
           in if mem = 0 then Undef ''inituvm: null pointer''
              else let k = zero_page mem k
                   in bindR (mappages pgdir 0 PGSIZE (V2P mem) (PTE_W OR PTE_U) k) (\<lambda>(_, k).
                      Ok (k\<lparr>km_mem := memmove mem init sz (km_mem k)\<rparr>)))"

text \<open>Writing the bytes of a list to memory, as \<^verbatim>\<open>readi\<close> does with what it read.\<close>

fun put_bytes :: "uint \<Rightarrow> uchar list \<Rightarrow> mem \<Rightarrow> mem" where
  "put_bytes a [] m = m"
| "put_bytes a (b # bs) m = put_bytes (a + 1) bs (m(a := b))"

text \<open>\<open>rd off n x\<close> is \<^verbatim>\<open>readi(ip, dst, off, n)\<close> on the file system's state \<open>x\<close>: its return value, the bytes it stores
  at \<^verbatim>\<open>dst\<close>, the new state.\<close>

fun loaduvm_from :: "nat \<Rightarrow> (uint \<Rightarrow> uint \<Rightarrow> 's \<Rightarrow> (int \<times> uchar list \<times> 's) res) \<Rightarrow>
    uint \<Rightarrow> uint \<Rightarrow> uint \<Rightarrow> uint \<Rightarrow> uint \<Rightarrow> 's \<Rightarrow> kmem \<Rightarrow> (int \<times> 's \<times> kmem) res" where
  "loaduvm_from 0 rd pgdir addr off sz i x k = Diverge"
| "loaduvm_from (Suc f) rd pgdir addr off sz i x k =
     (if i < sz
      then let (pte, k) = walkpgdir pgdir (addr + i) False k
           in if pte = 0 then Panic ''loaduvm: address should exist''
              else let pa = PTE_ADDR (get_mem pte k);
                       n = (if sz - i < PGSIZE then sz - i else PGSIZE)
                   in bindR (rd (off + i) n x) (\<lambda>(r, bs, x).
                        let k = k\<lparr>km_mem := put_bytes (P2V pa) bs (km_mem k)\<rparr>
                        in if r \<noteq> uint n then Ok (-1, x, k)
                           else loaduvm_from f rd pgdir addr off sz (i + PGSIZE) x k)
      else Ok (0, x, k))"

definition loaduvm :: "(uint \<Rightarrow> uint \<Rightarrow> 's \<Rightarrow> (int \<times> uchar list \<times> 's) res) \<Rightarrow>
    uint \<Rightarrow> uint \<Rightarrow> uint \<Rightarrow> uint \<Rightarrow> 's \<Rightarrow> kmem \<Rightarrow> (int \<times> 's \<times> kmem) res" where
  "loaduvm rd pgdir addr off sz x k =
     (if addr mod PGSIZE \<noteq> 0 then Panic ''loaduvm: addr must be page aligned''
      else loaduvm_from (2 ^ 20 + 1) rd pgdir addr off sz 0 x k)"

text \<open>The messages that \<^verbatim>\<open>allocuvm\<close> prints are not part of the state.\<close>

fun allocuvm_from :: "nat \<Rightarrow> uint \<Rightarrow> uint \<Rightarrow> uint \<Rightarrow> uint \<Rightarrow> kmem \<Rightarrow> (uint \<times> kmem) res" where
  "allocuvm_from 0 pgdir a oldsz newsz k = Diverge"
| "allocuvm_from (Suc n) pgdir a oldsz newsz k =
     (if a < newsz
      then let (mem, k) = kalloc k
           in if mem = 0 then bindR (deallocuvm pgdir newsz oldsz k) (\<lambda>(_, k). Ok (0, k))
              else let k = zero_page mem k
                   in bindR (mappages pgdir a PGSIZE (V2P mem) (PTE_W OR PTE_U) k) (\<lambda>(r, k).
                        if r < 0
                        then bindR (deallocuvm pgdir newsz oldsz k) (\<lambda>(_, k).
                             bindR (kfree mem k) (\<lambda>k. Ok (0, k)))
                        else allocuvm_from n pgdir (a + PGSIZE) oldsz newsz k)
      else Ok (newsz, k))"

definition allocuvm :: "uint \<Rightarrow> uint \<Rightarrow> uint \<Rightarrow> kmem \<Rightarrow> (uint \<times> kmem) res" where
  "allocuvm pgdir oldsz newsz k =
     (if newsz \<ge> KERNBASE then Ok (0, k)
      else if newsz < oldsz then Ok (oldsz, k)
      else allocuvm_from (2 ^ 20 + 1) pgdir (PGROUNDUP oldsz) oldsz newsz k)"

definition clearpteu :: "uint \<Rightarrow> uint \<Rightarrow> kmem \<Rightarrow> kmem res" where
  "clearpteu pgdir uva k =
     (let (pte, k) = walkpgdir pgdir uva False k
      in if pte = 0 then Panic ''clearpteu''
         else Ok (set_mem pte (get_mem pte k AND NOT PTE_U) k))"

fun copyuvm_from :: "nat \<Rightarrow> uint \<Rightarrow> uint \<Rightarrow> uint \<Rightarrow> uint \<Rightarrow> kmem \<Rightarrow> (uint \<times> kmem) res" where
  "copyuvm_from 0 pgdir d i sz k = Diverge"
| "copyuvm_from (Suc n) pgdir d i sz k =
     (if i < sz
      then let (pte, k) = walkpgdir pgdir i False k
           in if pte = 0 then Panic ''copyuvm: pte should exist''
              else if get_mem pte k AND PTE_P = 0 then Panic ''copyuvm: page not present''
              else let pa = PTE_ADDR (get_mem pte k);
                       flags = PTE_FLAGS (get_mem pte k);
                       (mem, k) = kalloc k
                   in if mem = 0 then bindR (freevm d k) (\<lambda>k. Ok (0, k))
                      else let k = k\<lparr>km_mem := memmove mem (P2V pa) PGSIZE (km_mem k)\<rparr>
                           in bindR (mappages d i PGSIZE (V2P mem) flags k) (\<lambda>(r, k).
                                if r < 0
                                then bindR (kfree mem k) (\<lambda>k. bindR (freevm d k) (\<lambda>k. Ok (0, k)))
                                else copyuvm_from n pgdir d (i + PGSIZE) sz k)
      else Ok (d, k))"

definition copyuvm :: "uint \<Rightarrow> uint \<Rightarrow> kmem \<Rightarrow> (uint \<times> kmem) res" where
  "copyuvm pgdir sz k =
     bindR (setupkvm k) (\<lambda>(d, k).
       if d = 0 then Ok (0, k) else copyuvm_from (2 ^ 20 + 1) pgdir d 0 sz k)"

text \<open>\<^verbatim>\<open>uva2ka\<close> does not check the result of \<^verbatim>\<open>walkpgdir\<close> before it reads through it.\<close>

definition uva2ka :: "uint \<Rightarrow> uint \<Rightarrow> kmem \<Rightarrow> uint res" where
  "uva2ka pgdir uva k =
     (let (pte, k) = walkpgdir pgdir uva False k
      in if pte = 0 then Undef ''uva2ka: null pointer''
         else if get_mem pte k AND PTE_P = 0 then Ok 0
         else if get_mem pte k AND PTE_U = 0 then Ok 0
         else Ok (P2V (PTE_ADDR (get_mem pte k))))"

text \<open>The \<^verbatim>\<open>len\<close> bytes at the source address of \<^verbatim>\<open>copyout\<close> are given as a list.\<close>

function copyout :: "uint \<Rightarrow> uint \<Rightarrow> uchar list \<Rightarrow> kmem \<Rightarrow> (int \<times> kmem) res" where
  "copyout pgdir va buf k =
     (if length buf > 0
      then let va0 = PGROUNDDOWN va
           in bindR (uva2ka pgdir va0 k) (\<lambda>pa0.
                if pa0 = 0 then Ok (-1, k)
                else let n = min (length buf) (unat (PGSIZE - (va - va0)));
                         k = k\<lparr>km_mem := put_bytes (pa0 + (va - va0)) (take n buf) (km_mem k)\<rparr>
                     in copyout pgdir (va0 + PGSIZE) (drop n buf) k)
      else Ok (0, k))"
  by pat_completeness auto

lemma page_offset: "va - PGROUNDDOWN va = va AND 0xFFF"
proof -
  have "(va AND NOT 0xFFF) + (va AND 0xFFF) = (va AND NOT 0xFFF) OR (va AND 0xFFF)"
    by (rule disjunctive_add) (simp add: bit_simps)
  also have "\<dots> = va" by (rule bit_word_eqI) (auto simp: bit_simps)
  finally show ?thesis by (simp add: PGROUNDDOWN_def algebra_simps)
qed

lemma page_offset_less: "va - PGROUNDDOWN va < PGSIZE"
proof -
  have "va AND 0xFFF = take_bit 12 va" by (simp add: take_bit_eq_mask mask_eq_exp_minus_1)
  then have "unat (va AND 0xFFF) = take_bit 12 (unat va)" by (simp add: unsigned_take_bit_eq)
  then have "unat (va AND 0xFFF) < 4096" by (simp add: take_bit_eq_mod)
  then show ?thesis by (simp add: page_offset word_less_nat_alt)
qed

termination copyout
proof (relation "measure (\<lambda>(pgdir, va, buf, k). length buf)", simp, goal_cases)
  case (1 pgdir va buf k va0 pa0 n k')
  have "0 < unat (PGSIZE - (va - va0))"
    using page_offset_less [of va] 1(2) by (simp add: word_less_nat_alt unat_sub word_le_nat_alt)
  then show ?case using 1 by auto
qed

end
