(* ===== verification/PageMap.thy ===== *)
theory PageMap
  imports Vm
begin

text \<open>
  What a page table means: the entry it holds for each virtual address, and that \<^verbatim>\<open>walkpgdir\<close> and
  \<^verbatim>\<open>mappages\<close> change the entries they should and no others. The invariant says that the directory and
  its tables are distinct pages that are not on the free list.
\<close>

section \<open>Indices and addresses\<close>

lemma mask10_less: "(a AND 0x3FF :: uint) < 1024"
proof -
  have "a AND 0x3FF = take_bit 10 a" by (simp add: take_bit_eq_mask mask_eq_exp_minus_1)
  then have "unat (a AND 0x3FF) = take_bit 10 (unat a)" by (simp add: unsigned_take_bit_eq)
  then have "unat (a AND 0x3FF) < 1024" by (simp add: take_bit_eq_mod)
  then show ?thesis by (simp add: word_less_nat_alt)
qed

lemma PDX_less: "PDX va < 1024"
  by (simp add: PDX_def mask10_less)

lemma PTX_less: "PTX va < 1024"
  by (simp add: PTX_def mask10_less)

lemma slot_unat:
  assumes "page_aligned p" "i < 1024"
  shows "unat (p + 4 * i) = unat p + 4 * unat i"
proof -
  have i: "unat i < 1024" using assms(2) by (simp add: word_less_nat_alt)
  then have m: "unat (4 * i) = 4 * unat i" by (simp add: unat_word_ariths(2))
  show ?thesis using page_aligned_room [OF assms(1)] i by (subst unat_add_small) (simp_all add: m)
qed

lemma slot_page: "page_aligned p \<Longrightarrow> i < 1024 \<Longrightarrow> p + 4 * i \<in> page p"
  by (auto simp: page_iff slot_unat word_less_nat_alt)

lemma slot_aligned: "page_aligned p \<Longrightarrow> i < 1024 \<Longrightarrow> aligned4 (p + 4 * i)"
  by (auto simp: aligned4_unat slot_unat page_aligned_unat simp flip: dvd_eq_mod_eq_0 elim: dvd_trans [rotated])

lemma slot_inj: "page_aligned p \<Longrightarrow> i < 1024 \<Longrightarrow> j < 1024 \<Longrightarrow> p + 4 * i = p + 4 * j \<longleftrightarrow> i = j"
  using slot_unat [of p i] slot_unat [of p j] by (auto simp: word_unat_eq_iff)

lemma page_bytes:
  assumes "page_aligned p" "aligned4 a" "a \<in> page p" "i \<in> {0, 1, 2, 3}"
  shows "a + i \<in> page p"
proof -
  have i: "unat i \<le> 3" using assms(4) by auto
  have a: "unat p \<le> unat a" "unat a < unat p + 4096" "4 dvd unat a" "4096 dvd unat p"
    using assms(1-3) by (auto simp: page_iff aligned4_unat page_aligned_unat)
  obtain q r where qr: "unat a = 4 * q" "unat p = 4096 * r" using a(3,4) by (auto elim!: dvdE)
  then have "q < 1024 * r + 1024" using a(2) by simp
  then have "unat a + 3 < unat p + 4096" using qr by simp
  moreover have "unat (a + i) = unat a + unat i"
    using i calculation page_aligned_room [OF assms(1)] by (intro unat_add_small) linarith
  ultimately show ?thesis using i a assms(1) by (simp add: page_iff)
qed

lemma load32_cong_page:
  assumes "page_aligned p" "aligned4 a" "a \<in> page p" "\<And>x. x \<in> page p \<Longrightarrow> m' x = m x"
  shows "load32 m' a = load32 m a"
  using assms(4) [OF page_bytes [OF assms(1-3), of 0]] assms(4) [OF page_bytes [OF assms(1-3), of 1]]
    assms(4) [OF page_bytes [OF assms(1-3), of 2]] assms(4) [OF page_bytes [OF assms(1-3), of 3]]
  by (simp add: load32_def)

lemma get_zero_page:
  assumes "page_aligned v" "page_aligned p" "aligned4 a" "a \<in> page p"
  shows "get_mem a (zero_page v k) = (if p = v then 0 else get_mem a k)"
proof (cases "p = v")
  case True
  have "memset v 0 PGSIZE (km_mem k) (a + i) = 0" if "i \<in> {0, 1, 2, 3}" for i
    using page_bytes [OF assms(2-4) that] True by (simp add: page_def memset_fill fill_mem_def word_less_nat_alt)
  from this [of 0] this [of 1] this [of 2] this [of 3] True show ?thesis
    by (simp add: get_mem_def zero_page_def load32_def)
next
  case False
  have "load32 (memset v 0 PGSIZE (km_mem k)) a = load32 (km_mem k) a"
  proof (rule load32_cong_page [OF assms(2-4)])
    fix x assume "x \<in> page p"
    then have "x \<notin> page v" using page_disjoint [OF assms(2,1) False] by blast
    then show "memset v 0 PGSIZE (km_mem k) x = km_mem k x"
      by (simp add: page_def memset_fill fill_mem_def word_less_nat_alt)
  qed
  with False show ?thesis by (simp add: get_mem_def zero_page_def)
qed

lemma get_set_mem: "aligned4 a \<Longrightarrow> aligned4 b \<Longrightarrow> get_mem b (set_mem a w k) = (if a = b then w else get_mem b k)"
  by (simp add: get_mem_def set_mem_def load_store32_other)

text \<open>An entry of the directory keeps the address of its table.\<close>

lemma and_not_fff: "(a AND NOT 0xFFF :: uint) = a - (a AND 0xFFF)"
  using page_offset [of a] by (simp add: PGROUNDDOWN_def algebra_simps)

lemma page_aligned_take: "page_aligned v \<longleftrightarrow> v AND 0xFFF = 0"
proof -
  have "v AND 0xFFF = take_bit 12 v" by (simp add: take_bit_eq_mask mask_eq_exp_minus_1)
  then show ?thesis by (simp add: page_aligned_def take_bit_eq_mod)
qed

lemma page_aligned_round: "page_aligned (a AND NOT 0xFFF)"
  unfolding page_aligned_take by (rule bit_word_eqI) (simp add: bit_simps)

lemma page_aligned_V2P: "page_aligned v \<Longrightarrow> page_aligned (V2P v)"
  using unat_lt32 [of v]
  by (auto simp: page_aligned_unat V2P_def unat_sub_if_size word_size simp flip: dvd_eq_mod_eq_0
      intro!: dvd_diff_nat dvd_add)

lemma PTE_ADDR_flags:
  assumes "page_aligned v" "f AND NOT 0xFFF = 0"
  shows "PTE_ADDR (v OR f) = v"
proof -
  have "v AND 0xFFF = 0" using assms(1) by (simp add: page_aligned_take)
  then have "v AND NOT 0xFFF = v" unfolding and_not_fff by simp
  then show ?thesis using assms(2) unfolding PTE_ADDR_def bit.conj_disj_distrib2 by (simp only: bit.disj_zero_right)
qed

section \<open>The entry of a virtual address\<close>

definition tab :: "kmem \<Rightarrow> uint \<Rightarrow> uint \<Rightarrow> uint option" where
  "tab k pgdir d =
     (let e = get_mem (pgdir + 4 * d) k in if e AND PTE_P = 0 then None else Some (P2V (PTE_ADDR e)))"

definition entry :: "kmem \<Rightarrow> uint \<Rightarrow> uint \<Rightarrow> uint" where
  "entry k pgdir va = (case tab k pgdir (PDX va) of None \<Rightarrow> 0 | Some t \<Rightarrow> get_mem (t + 4 * PTX va) k)"

definition pt_wf :: "kmem \<Rightarrow> uint \<Rightarrow> uint list \<Rightarrow> bool" where
  "pt_wf k pgdir xs \<longleftrightarrow>
     free_pages k xs \<and> ok_page k pgdir \<and> pgdir \<notin> set xs \<and>
     (\<forall>d < 1024. \<forall>t. tab k pgdir d = Some t \<longrightarrow> ok_page k t \<and> t \<notin> set xs \<and> t \<noteq> pgdir) \<and>
     (\<forall>d < 1024. \<forall>d' < 1024. \<forall>t. tab k pgdir d = Some t \<longrightarrow> tab k pgdir d' = Some t \<longrightarrow> d = d')"

lemma pt_wfD:
  assumes "pt_wf k pgdir xs"
  shows "free_pages k xs" "page_aligned pgdir" "pgdir \<notin> set xs" "0 < km_end k"
    "d < 1024 \<Longrightarrow> tab k pgdir d = Some t \<Longrightarrow> ok_page k t \<and> page_aligned t \<and> t \<notin> set xs \<and> t \<noteq> pgdir"
    "d < 1024 \<Longrightarrow> d' < 1024 \<Longrightarrow> tab k pgdir d = Some t \<Longrightarrow> tab k pgdir d' = Some t \<Longrightarrow> d = d'"
  using assms by (auto simp: pt_wf_def ok_page_def free_pages_def)

lemma walk_noalloc:
  "walkpgdir pgdir va False k =
     ((case tab k pgdir (PDX va) of None \<Rightarrow> 0 | Some t \<Rightarrow> t + 4 * PTX va), k)"
  by (simp add: walkpgdir_def tab_def Let_def)

lemma slot_nonzero:
  assumes "ok_page k t" "0 < km_end k" "i < 1024"
  shows "t + 4 * i \<noteq> 0"
proof -
  have "0 < unat t" using assms(1,2) by (auto simp: ok_page_def word_less_nat_alt word_le_nat_alt)
  then have "0 < unat (t + 4 * i)" using assms(1,3) slot_unat [of t i] by (simp add: ok_page_def)
  then show ?thesis by (metis less_irrefl unsigned_0)
qed

lemma free_pages_upd:
  assumes "free_pages k xs" "page_aligned p" "p \<notin> set xs" "\<And>x. x \<notin> page p \<Longrightarrow> m x = km_mem k x"
  shows "free_pages (k\<lparr>km_mem := m\<rparr>) xs"
proof -
  have "chain m (km_freelist k) xs = chain (km_mem k) (km_freelist k) xs"
  proof (rule chain_cong)
    fix v x assume v: "v \<in> set xs" and x: "x \<in> page v"
    have "page_aligned v" "v \<noteq> p" using assms(1,3) v by (auto simp: free_pages_def ok_page_def)
    then have "x \<notin> page p" using page_disjoint [of v p] assms(2) x by blast
    then show "m x = km_mem k x" by (rule assms(4))
  qed (use assms(1) in \<open>auto simp: free_pages_def ok_page_def\<close>)
  with assms(1) show ?thesis by (simp add: free_pages_def ok_page_def)
qed

lemma set_mem_page:
  assumes "page_aligned p" "i < 1024" "x \<notin> page p"
  shows "km_mem (set_mem (p + 4 * i) w k) x = km_mem k x"
proof -
  have "p + 4 * i + j \<in> page p" if "j \<in> {0, 1, 2, 3}" for j
    by (rule page_bytes [OF assms(1) slot_aligned [OF assms(1,2)] slot_page [OF assms(1,2)] that])
  from this [of 0] this [of 1] this [of 2] this [of 3] show ?thesis
    using assms(3) by (auto simp: set_mem_def store32_def)
qed

lemma free_pages_set:
  assumes "free_pages k xs" "page_aligned p" "p \<notin> set xs" "i < 1024"
  shows "free_pages (set_mem (p + 4 * i) w k) xs"
  using free_pages_upd [OF assms(1-3), of "km_mem (set_mem (p + 4 * i) w k)"] set_mem_page [OF assms(2,4)]
  by (simp add: set_mem_def)

lemma free_pages_zero:
  assumes "free_pages k xs" "page_aligned p" "p \<notin> set xs"
  shows "free_pages (zero_page p k) xs"
  using free_pages_upd [OF assms, of "memset p 0 PGSIZE (km_mem k)"]
  by (simp add: zero_page_def memset_fill fill_mem_def page_def word_less_nat_alt)

text \<open>Writing a word of one page leaves the words of the others.\<close>

lemma get_set_slot:
  assumes "page_aligned p" "page_aligned q" "i < 1024" "j < 1024"
  shows "get_mem (q + 4 * j) (set_mem (p + 4 * i) w k) = (if p = q \<and> i = j then w else get_mem (q + 4 * j) k)"
proof -
  have "p + 4 * i = q + 4 * j \<longleftrightarrow> p = q \<and> i = j"
    using page_disjoint [OF assms(1,2)] slot_page [OF assms(1,3)] slot_page [OF assms(2,4)] slot_inj [OF assms(1,3,4)]
    by (cases "p = q") auto
  then show ?thesis by (simp add: get_set_mem slot_aligned assms)
qed

lemma get_zero_slot:
  assumes "page_aligned v" "page_aligned q" "j < 1024"
  shows "get_mem (q + 4 * j) (zero_page v k) = (if q = v then 0 else get_mem (q + 4 * j) k)"
  using get_zero_page [OF assms(1,2) slot_aligned slot_page] assms by simp

lemma set_entry:
  assumes wf: "pt_wf k pgdir xs" and t: "tab k pgdir (PDX va) = Some t"
  shows "pt_wf (set_mem (t + 4 * PTX va) e k) pgdir xs"
    and "entry (set_mem (t + 4 * PTX va) e k) pgdir va' =
       (if PDX va' = PDX va \<and> PTX va' = PTX va then e else entry k pgdir va')"
proof -
  let ?k = "set_mem (t + 4 * PTX va) e k"
  note D = pt_wfD [OF wf]
  have tt: "ok_page k t" "page_aligned t" "t \<notin> set xs" "t \<noteq> pgdir" using D(5) [OF PDX_less t] by auto
  have tab: "tab ?k pgdir d = tab k pgdir d" if "d < 1024" for d
    using that tt D(2) by (simp add: tab_def get_set_slot PTX_less)
  have "ok_page ?k = ok_page k" by (simp add: ok_page_def set_mem_def fun_eq_iff)
  moreover have "free_pages ?k xs" by (rule free_pages_set [OF D(1) tt(2,3) PTX_less])
  ultimately show "pt_wf ?k pgdir xs" using wf by (simp add: pt_wf_def tab)
  show "entry ?k pgdir va' = (if PDX va' = PDX va \<and> PTX va' = PTX va then e else entry k pgdir va')"
  proof (cases "tab k pgdir (PDX va')")
    case None
    with t show ?thesis by (auto simp: entry_def tab PDX_less)
  next
    case (Some t')
    have "page_aligned t'" using D(5) [OF PDX_less Some] by simp
    moreover have "PDX va' = PDX va" if "t' = t" using D(6) [OF PDX_less PDX_less Some] t that by simp
    moreover have "t' = t" if "PDX va' = PDX va" using t Some that by simp
    ultimately show ?thesis
      using Some tt(2) by (cases "PDX va' = PDX va") (simp_all add: entry_def tab PDX_less PTX_less get_set_slot, auto)
  qed
qed

lemma P2V_V2P [simp]: "P2V (V2P v) = v"
  by (simp add: P2V_def V2P_def)

lemma new_entry:
  assumes "page_aligned x" "e = V2P x OR PTE_P OR PTE_W OR PTE_U"
  shows "e AND PTE_P \<noteq> 0" "P2V (PTE_ADDR e) = x"
proof -
  have e: "e = V2P x OR 7" using assms(2) by (simp add: or.assoc)
  have "bit e 0" by (simp add: e bit_or_iff)
  then have "bit (e AND PTE_P) 0" by (simp add: bit_and_iff)
  then show "e AND PTE_P \<noteq> 0" using bit_0_eq by (auto simp del: bit_and_iff)
  have "PTE_ADDR e = V2P x"
    unfolding e by (rule PTE_ADDR_flags [OF page_aligned_V2P [OF assms(1)]]) simp
  then show "P2V (PTE_ADDR e) = x" by simp
qed

section \<open>Walking with allocation\<close>

lemma walk_alloc_new:
  assumes wf: "pt_wf k pgdir (x # xs)" and none: "tab k pgdir (PDX va) = None"
  shows "\<exists>k'. walkpgdir pgdir va True k = (x + 4 * PTX va, k') \<and> pt_wf k' pgdir xs \<and>
     tab k' pgdir (PDX va) = Some x \<and> (\<forall>va'. entry k' pgdir va' = entry k pgdir va') \<and> km_end k' = km_end k"
proof -
  note D = pt_wfD [OF wf]
  let ?e = "V2P x OR PTE_P OR PTE_W OR PTE_U"
  define k1 where "k1 = k\<lparr>km_freelist := load32 (km_mem k) x\<rparr>"
  define k3 where "k3 = set_mem (pgdir + 4 * PDX va) ?e (zero_page x k1)"
  have al: "kalloc k = (x, k1)" "free_pages k1 xs" "x \<noteq> 0" "ok_page k x" "x \<notin> set xs"
    using kalloc_run [OF D(1)] by (simp_all add: k1_def)
  have x: "page_aligned x" "x \<noteq> pgdir" using al(4) D(3) by (auto simp: ok_page_def)
  have g1: "get_mem a k1 = get_mem a k" for a by (simp add: get_mem_def k1_def)
  have walk: "walkpgdir pgdir va True k = (x + 4 * PTX va, k3)"
    using none al(1,3) by (simp add: walkpgdir_def tab_def Let_def k3_def split: if_splits)
  have get3: "get_mem (q + 4 * j) k3 =
      (if q = pgdir \<and> j = PDX va then ?e else if q = x then 0 else get_mem (q + 4 * j) k)"
    if "page_aligned q" "j < 1024" for q j
    using that x D(2) PDX_less [of va] by (auto simp: k3_def get_set_slot get_zero_slot g1)
  have tab3: "tab k3 pgdir d = (if d = PDX va then Some x else tab k pgdir d)" if "d < 1024" for d
    using that D(2) x new_entry [OF x(1) refl] by (simp add: tab_def get3 Let_def)
  have "free_pages k3 xs"
    unfolding k3_def
    using al x D(2,3) PDX_less by (intro free_pages_set free_pages_zero) auto
  moreover have okp: "ok_page k3 = ok_page k" by (simp add: ok_page_def k3_def set_mem_def zero_page_def k1_def fun_eq_iff)
  have old: "ok_page k t \<and> t \<notin> set (x # xs) \<and> t \<noteq> pgdir" if "d < 1024" "tab k pgdir d = Some t" for d t
    using D(5) [OF that] by simp
  moreover have "d = d'" if "d < 1024" "d' < 1024" "tab k3 pgdir d = Some t" "tab k3 pgdir d' = Some t" for d d' t
    using that D(6) [of d d' t] old [of d t] old [of d' t] by (auto simp: tab3 split: if_splits)
  ultimately have "pt_wf k3 pgdir xs"
    using wf al(4,5) x by (auto simp: pt_wf_def okp tab3 split: if_splits)
  moreover have "entry k3 pgdir va' = entry k pgdir va'" for va'
  proof (cases "PDX va' = PDX va")
    case True
    then show ?thesis using none x by (simp add: entry_def tab3 PDX_less PTX_less get3)
  next
    case False
    then show ?thesis
      using old [OF PDX_less, of va'] by (auto simp: entry_def tab3 PDX_less PTX_less get3 ok_page_def split: option.splits)
  qed
  ultimately show ?thesis
    using walk tab3 [OF PDX_less, of va] by (auto simp: k3_def set_mem_def zero_page_def k1_def)
qed

lemma walk_alloc:
  assumes wf: "pt_wf k pgdir xs"
  shows "(\<exists>t k' ys. walkpgdir pgdir va True k = (t + 4 * PTX va, k') \<and> t + 4 * PTX va \<noteq> 0 \<and> pt_wf k' pgdir ys \<and>
      tab k' pgdir (PDX va) = Some t \<and> (\<forall>va'. entry k' pgdir va' = entry k pgdir va')) \<or>
     (walkpgdir pgdir va True k = (0, k) \<and> xs = [] \<and> entry k pgdir va = 0)"
proof (cases "tab k pgdir (PDX va)")
  case (Some t)
  then have "walkpgdir pgdir va True k = (t + 4 * PTX va, k)"
    by (auto simp: walkpgdir_def tab_def Let_def split: if_splits)
  moreover have "t + 4 * PTX va \<noteq> 0"
    using pt_wfD(5) [OF wf PDX_less Some] pt_wfD(4) [OF wf] by (intro slot_nonzero [OF _ _ PTX_less]) auto
  ultimately show ?thesis using wf Some by blast
next
  case None
  show ?thesis
  proof (cases xs)
    case Nil
    then have "kalloc k = (0, k)" using kalloc_run [OF pt_wfD(1) [OF wf]] by simp
    then show ?thesis using None Nil by (auto simp: walkpgdir_def tab_def Let_def entry_def split: if_splits)
  next
    case (Cons x ys)
    obtain k' where k': "walkpgdir pgdir va True k = (x + 4 * PTX va, k')" "pt_wf k' pgdir ys"
        "tab k' pgdir (PDX va) = Some x" "\<forall>va'. entry k' pgdir va' = entry k pgdir va'"
      using walk_alloc_new [OF wf [unfolded Cons] None] by blast
    moreover have "x + 4 * PTX va \<noteq> 0"
      using pt_wfD(5) [OF k'(2) PDX_less k'(3)] pt_wfD(4) [OF k'(2)] by (intro slot_nonzero [OF _ _ PTX_less]) auto
    ultimately show ?thesis by blast
  qed
qed

section \<open>Mapping pages\<close>

lemma same_page: "PDX a = PDX b \<and> PTX a = PTX b \<longleftrightarrow> PGROUNDDOWN a = PGROUNDDOWN b"
proof -
  have r: "bit (PGROUNDDOWN c) i \<longleftrightarrow> 12 \<le> i \<and> i < 32 \<and> bit c i" for c i
  proof -
    have "PGROUNDDOWN c = c AND NOT (mask 12)" by (simp add: PGROUNDDOWN_def mask_eq_exp_minus_1)
    then show ?thesis by (auto simp: bit_simps dest: bit_imp_le_length)
  qed
  have m: "(0x3FF :: uint) = mask 10" by (simp add: mask_eq_exp_minus_1)
  have d: "bit (PDX c) i \<longleftrightarrow> i < 10 \<and> bit c (22 + i)" "bit (PTX c) i \<longleftrightarrow> i < 10 \<and> bit c (12 + i)" for c i
    unfolding PDX_def PTX_def m by (auto simp: bit_simps)
  show ?thesis
  proof
    assume eq: "PDX a = PDX b \<and> PTX a = PTX b"
    show "PGROUNDDOWN a = PGROUNDDOWN b"
    proof (rule bit_word_eqI)
      fix i assume "i < LENGTH(32)"
      then show "bit (PGROUNDDOWN a) i = bit (PGROUNDDOWN b) i"
        using d(1) [of a "i - 22"] d(1) [of b "i - 22"] d(2) [of a "i - 12"] d(2) [of b "i - 12"] eq
        by (cases "i < 22") (auto simp: r)
    qed
  next
    assume eq: "PGROUNDDOWN a = PGROUNDDOWN b"
    have "bit a i = bit b i" if "12 \<le> i" "i < 32" for i using r [of a i] r [of b i] eq that by simp
    then show "PDX a = PDX b \<and> PTX a = PTX b"
      by (auto intro!: bit_word_eqI simp: d)
  qed
qed

lemma PGROUNDDOWN_aligned: "page_aligned (PGROUNDDOWN a)"
  using page_aligned_round [of a] by (simp add: PGROUNDDOWN_def)

lemma PGROUNDUP_aligned: "page_aligned (PGROUNDUP a)"
  using page_aligned_round [of "a + PGSIZE - 1"] by (simp add: PGROUNDUP_def)

lemma PGROUNDDOWN_id: "page_aligned a \<Longrightarrow> PGROUNDDOWN a = a"
  using page_offset [of a] by (simp add: page_aligned_take)

text \<open>Distances between page addresses, counted with wrap-around.\<close>

lemma page_distance:
  assumes "page_aligned r" "page_aligned a" "r \<noteq> a"
  shows "4096 \<le> unat (r - a)" "unat (r - (a + PGSIZE)) = unat (r - a) - 4096"
proof -
  have "4096 dvd unat (r - a)"
    using assms(1,2) unat_lt32 [of a]
    by (auto simp: page_aligned_unat unat_sub_if_size word_size simp flip: dvd_eq_mod_eq_0 intro!: dvd_diff_nat dvd_add)
  moreover have "unat (r - a) \<noteq> 0" using assms(3) by (simp add: unat_eq_zero)
  ultimately show ge: "4096 \<le> unat (r - a)" by (auto elim!: dvdE)
  have "unat (r - a - PGSIZE) = unat (r - a) - unat PGSIZE"
    using ge by (intro unat_sub) (simp add: word_le_nat_alt)
  then show "unat (r - (a + PGSIZE)) = unat (r - a) - 4096"
    unfolding diff_diff_eq by simp
qed

lemma page_aligned_next: "page_aligned a \<Longrightarrow> page_aligned (a + PGSIZE)"
  by (auto simp: page_aligned_unat unat_word_ariths simp flip: dvd_eq_mod_eq_0 intro!: dvd_mod dvd_add)

lemma mappages_one:
  assumes wf: "pt_wf k pgdir xs" and a: "page_aligned a" and free: "entry k pgdir a AND PTE_P = 0"
  shows "(\<exists>pte k1 ys. walkpgdir pgdir a True k = (pte, k1) \<and> pte \<noteq> 0 \<and> get_mem pte k1 AND PTE_P = 0 \<and>
      pt_wf (set_mem pte e k1) pgdir ys \<and>
      (\<forall>va. entry (set_mem pte e k1) pgdir va = (if PGROUNDDOWN va = a then e else entry k pgdir va))) \<or>
     walkpgdir pgdir a True k = (0, k) \<and> xs = []"
  using walk_alloc [OF wf, of a]
proof (elim disjE exE conjE)
  fix t k1 ys
  assume w: "walkpgdir pgdir a True k = (t + 4 * PTX a, k1)" "t + 4 * PTX a \<noteq> 0" and wf1: "pt_wf k1 pgdir ys"
    and t: "tab k1 pgdir (PDX a) = Some t" and en: "\<forall>va'. entry k1 pgdir va' = entry k pgdir va'"
  have "get_mem (t + 4 * PTX a) k1 = entry k1 pgdir a" using t by (simp add: entry_def)
  then have "get_mem (t + 4 * PTX a) k1 AND PTE_P = 0" using en free by simp
  moreover note se = set_entry [OF wf1 t]
  moreover have "entry (set_mem (t + 4 * PTX a) e k1) pgdir va = (if PGROUNDDOWN va = a then e else entry k pgdir va)" for va
    using se(2) [of e va] same_page [of va a] PGROUNDDOWN_id [OF a] en by auto
  ultimately show ?thesis using w by blast
qed auto

lemma mappages_run:
  assumes "pt_wf k pgdir xs" "page_aligned a" "lst = a + word_of_nat (4096 * n)" "4096 * n < 2 ^ 32" "n < fuel"
    and "\<forall>va. PGROUNDDOWN va - a \<le> lst - a \<longrightarrow> entry k pgdir va AND PTE_P = 0"
  shows "\<exists>r k' ys. mappages_from fuel pgdir a lst pa perm k = Ok (r, k') \<and> pt_wf k' pgdir ys \<and> (r = 0 \<or> r = -1 \<and> ys = []) \<and>
     (r = 0 \<longrightarrow> (\<forall>va. entry k' pgdir va =
        (if PGROUNDDOWN va - a \<le> lst - a then (pa + (PGROUNDDOWN va - a)) OR perm OR PTE_P else entry k pgdir va)))"
  using assms
proof (induction n arbitrary: fuel a k xs pa)
  case 0
  then obtain f where f: "fuel = Suc f" by (cases fuel) auto
  have free: "entry k pgdir a AND PTE_P = 0" using 0 PGROUNDDOWN_id by simp
  show ?case
    using mappages_one [OF 0(1,2) free, of "pa OR perm OR PTE_P"]
  proof (elim disjE exE conjE)
    fix pte k1 ys
    assume "walkpgdir pgdir a True k = (pte, k1)" "pte \<noteq> 0" "get_mem pte k1 AND PTE_P = 0"
      "pt_wf (set_mem pte (pa OR perm OR PTE_P) k1) pgdir ys"
      "\<forall>va. entry (set_mem pte (pa OR perm OR PTE_P) k1) pgdir va =
         (if PGROUNDDOWN va = a then pa OR perm OR PTE_P else entry k pgdir va)"
    then show ?thesis using 0(3) f by (auto simp: Let_def)
  next
    assume "walkpgdir pgdir a True k = (0, k)" "xs = []"
    then show ?thesis using 0(1) f by (auto simp: Let_def)
  qed
next
  case (Suc n)
  obtain f where f: "fuel = Suc f" using Suc.prems(5) by (cases fuel) auto
  let ?a = "a + PGSIZE" and ?e = "pa OR perm OR PTE_P"
  have lst: "lst = ?a + word_of_nat (4096 * n)" "lst \<noteq> a"
  proof -
    show "lst = ?a + word_of_nat (4096 * n)" using Suc.prems(3) by (simp add: algebra_simps)
    have "unat (word_of_nat (4096 * Suc n) :: uint) = 4096 * Suc n" using Suc.prems(4) by (rule unat_word_of_nat)
    then have "(word_of_nat (4096 * Suc n) :: uint) \<noteq> 0" by (metis mult_eq_0_iff nat.distinct(1) unsigned_0 zero_neq_numeral)
    then show "lst \<noteq> a" unfolding Suc.prems(3) by simp
  qed
  have lsta: "unat (lst - a) = 4096 * Suc n"
    unfolding Suc.prems(3) using unat_word_of_nat [OF Suc.prems(4)] by simp
  have al: "page_aligned ?a" by (rule page_aligned_next [OF Suc.prems(2)])
  have range: "r - a \<le> lst - a \<longleftrightarrow> r = a \<or> r - ?a \<le> lst - ?a" if "page_aligned r" for r
  proof (cases "r = a")
    case False
    note d = page_distance [OF that Suc.prems(2) False]
    have "unat (lst - ?a) = unat (lst - a) - 4096"
      using lst(1) lsta unat_word_of_nat [of "4096 * n"] Suc.prems(4) by simp
    then have "r - a \<le> lst - a \<longleftrightarrow> r - ?a \<le> lst - ?a" 
      unfolding word_le_nat_alt using d lsta le_diff_iff [of 4096 "unat (r - a)" "unat (lst - a)"] by simp
    with False show ?thesis by blast
  qed simp
  have free: "entry k pgdir a AND PTE_P = 0" using Suc.prems(2,6) PGROUNDDOWN_id by simp
  show ?case
    using mappages_one [OF Suc.prems(1,2) free, of ?e]
  proof (elim disjE exE conjE)
    fix pte k1 ys
    assume w: "walkpgdir pgdir a True k = (pte, k1)" "pte \<noteq> 0" "get_mem pte k1 AND PTE_P = 0"
      and wf: "pt_wf (set_mem pte ?e k1) pgdir ys"
      and en: "\<forall>va. entry (set_mem pte ?e k1) pgdir va = (if PGROUNDDOWN va = a then ?e else entry k pgdir va)"
    have nz: "a - ?a = - PGSIZE" by simp
    have "\<not> a - ?a \<le> lst - ?a"
      using lst(1) unat_word_of_nat [of "4096 * n"] Suc.prems(4) by (simp add: word_le_nat_alt)
    then have fr: "\<forall>va. PGROUNDDOWN va - ?a \<le> lst - ?a \<longrightarrow> entry (set_mem pte ?e k1) pgdir va AND PTE_P = 0"
      using en Suc.prems(6) range [OF PGROUNDDOWN_aligned] by auto
    obtain r k' zs where IH: "mappages_from f pgdir ?a lst (pa + PGSIZE) perm (set_mem pte ?e k1) = Ok (r, k')"
        "pt_wf k' pgdir zs" "r = 0 \<or> r = -1 \<and> zs = []"
        "r = 0 \<longrightarrow> (\<forall>va. entry k' pgdir va = (if PGROUNDDOWN va - ?a \<le> lst - ?a
           then (pa + PGSIZE + (PGROUNDDOWN va - ?a)) OR perm OR PTE_P else entry (set_mem pte ?e k1) pgdir va))"
      using Suc.IH [OF wf al lst(1) _ _ fr, of f "pa + PGSIZE"] Suc.prems(4,5) f by auto
    have "mappages_from fuel pgdir a lst pa perm k = Ok (r, k')"
      using w lst(2) IH(1) f by (simp add: Let_def)
    moreover have "entry k' pgdir va =
        (if PGROUNDDOWN va - a \<le> lst - a then (pa + (PGROUNDDOWN va - a)) OR perm OR PTE_P else entry k pgdir va)"
      if "r = 0" for va
    proof -
      have "pa + PGSIZE + (PGROUNDDOWN va - ?a) = pa + (PGROUNDDOWN va - a)" by simp
      then show ?thesis
        using IH(4) that en range [OF PGROUNDDOWN_aligned, of va] \<open>\<not> a - ?a \<le> lst - ?a\<close>
        by (cases "PGROUNDDOWN va = a") simp_all
    qed
    ultimately show ?thesis using IH(2,3) by blast
  next
    assume "walkpgdir pgdir a True k = (0, k)" "xs = []"
    then show ?thesis using Suc.prems(1) f by (auto simp: Let_def)
  qed
qed

section \<open>Properties\<close>

lemma round_distance:
  assumes "0 < sz" "unat va + unat sz \<le> 2 ^ 32"
  shows "\<exists>n. PGROUNDDOWN (va + sz - 1) = PGROUNDDOWN va + word_of_nat (4096 * n) \<and> 4096 * n < 2 ^ 32"
proof -
  let ?a = "PGROUNDDOWN va" and ?l = "PGROUNDDOWN (va + sz - 1)"
  have "4096 dvd unat (?l - ?a)"
    using PGROUNDDOWN_aligned [of va] PGROUNDDOWN_aligned [of "va + sz - 1"] unat_lt32 [of ?a]
    by (auto simp: page_aligned_unat unat_sub_if_size word_size simp flip: dvd_eq_mod_eq_0 intro!: dvd_diff_nat dvd_add)
  then obtain n where n: "unat (?l - ?a) = 4096 * n" by (auto elim!: dvdE)
  moreover have "?l - ?a = word_of_nat (4096 * n)" unfolding n [symmetric] by simp
  ultimately show ?thesis using unat_lt32 [of "?l - ?a"] by (intro exI [of _ n]) (simp add: algebra_simps)
qed

text \<open>
  C9: \<^verbatim>\<open>mappages\<close> on a well-formed page table and a range of addresses that has no mapping yet terminates
  without panic. If it returns 0, then every page of the range maps to the physical page at the same
  distance from \<open>pa\<close>, with the permissions given and present, and the entry of every other address is what
  it was. It returns -1 only when no free page is left. The table stays well-formed.
\<close>

theorem mappages_correct:
  assumes "pt_wf k pgdir xs" "0 < sz" "unat va + unat sz \<le> 2 ^ 32"
    and "\<forall>a. PGROUNDDOWN a - PGROUNDDOWN va \<le> PGROUNDDOWN (va + sz - 1) - PGROUNDDOWN va \<longrightarrow> entry k pgdir a AND PTE_P = 0"
  shows "\<exists>r k' ys. mappages pgdir va sz pa perm k = Ok (r, k') \<and> pt_wf k' pgdir ys \<and> (r = 0 \<or> r = -1 \<and> ys = []) \<and>
     (r = 0 \<longrightarrow> (\<forall>a. entry k' pgdir a =
        (if PGROUNDDOWN a - PGROUNDDOWN va \<le> PGROUNDDOWN (va + sz - 1) - PGROUNDDOWN va
         then (pa + (PGROUNDDOWN a - PGROUNDDOWN va)) OR perm OR PTE_P else entry k pgdir a)))"
proof -
  obtain n where n: "PGROUNDDOWN (va + sz - 1) = PGROUNDDOWN va + word_of_nat (4096 * n)" "4096 * n < 2 ^ 32"
    using round_distance [OF assms(2,3)] by blast
  then have "n < 2 ^ 20" by simp
  from mappages_run [OF assms(1) PGROUNDDOWN_aligned n this assms(4)] show ?thesis
    unfolding mappages_def by blast
qed

definition demo_kmem :: kmem where
  "demo_kmem = freed 0x80300000 boot_kmem"

lemma demo_kmem_wf: "pt_wf demo_kmem 0x80200000 [0x80300000]" "entry demo_kmem 0x80200000 va = 0"
proof -
  have al: "page_aligned 0x80300000" "page_aligned 0x80200000" by (simp_all add: page_aligned_def)
  have ok: "ok_page boot_kmem 0x80300000" "ok_page demo_kmem 0x80200000"
    by (simp_all add: ok_page_def boot_kmem_def demo_kmem_def freed_def page_aligned_def V2P_def)
  have "get_mem (0x80200000 + 4 * d) demo_kmem = 0" if "d < 1024" for d
  proof -
    have "load32 (km_mem demo_kmem) (0x80200000 + 4 * d) = load32 (km_mem boot_kmem) (0x80200000 + 4 * d)"
    proof (rule load32_cong_page [OF al(2) slot_aligned [OF al(2) that] slot_page [OF al(2) that]])
      fix x :: uint assume "x \<in> page 0x80200000"
      then have "x \<notin> page 0x80300000" using page_disjoint [OF al(1) al(2)] by auto
      then show "km_mem demo_kmem x = km_mem boot_kmem x" unfolding demo_kmem_def by (rule freed_frame [OF al(1)])
    qed
    then show ?thesis by (simp add: get_mem_def boot_kmem_def load32_def)
  qed
  then have none: "tab demo_kmem 0x80200000 d = None" if "d < 1024" for d using that by (simp add: tab_def)
  show "pt_wf demo_kmem 0x80200000 [0x80300000]"
    using freed_pages [OF boot_kmem_free ok(1)] ok(2) none by (simp add: pt_wf_def demo_kmem_def [symmetric])
  show "entry demo_kmem 0x80200000 va = 0" using none [OF PDX_less, of va] by (simp add: entry_def)
qed

theorem mappages_correct_witness:
  "\<exists>r k' ys. mappages 0x80200000 0x1000 0x3000 0x400000 6 demo_kmem = Ok (r, k') \<and> pt_wf k' 0x80200000 ys"
  using mappages_correct [OF demo_kmem_wf(1), of "0x3000" "0x1000" "0x400000" 6] demo_kmem_wf(2) by auto

text \<open>
  C27: If the directory has no table for the address, \<^verbatim>\<open>walkpgdir\<close> returns a null pointer, and \<^verbatim>\<open>uva2ka\<close> reads
  through it: \<^verbatim>\<open>copyout\<close> to such an address does not return -1 but
  follows the null pointer, which C leaves undefined.
\<close>

theorem copyout_null_pte:
  assumes "tab k pgdir (PDX (PGROUNDDOWN va)) = None" "buf \<noteq> []"
  shows "copyout pgdir va buf k = Undef ''uva2ka: null pointer''"
  using assms by (subst copyout.simps) (simp add: uva2ka_def walk_noalloc Let_def)

theorem copyout_null_pte_witness:
  "copyout 0x80200000 0x5000 [1, 2, 3, 4] boot_kmem = Undef ''uva2ka: null pointer''"
proof -
  have "tab boot_kmem 0x80200000 d = None" for d by (simp add: tab_def get_mem_def boot_kmem_def load32_def)
  then show ?thesis using copyout_null_pte [of boot_kmem "0x80200000" "0x5000" "[1, 2, 3, 4]"] by simp
qed

end
