(* ===== verification/Ide.thy ===== *)
theory Ide
  imports ProcState
begin

text \<open>
  Sleep locks (sleeplock.c), buffers (buf.h) and the disk drivers: ide.c, with the controller it
  programs, and memide.c, which keeps the blocks in memory. The argument \<open>me\<close> of an operation is
  \<^verbatim>\<open>myproc()->pid\<close>. A section under \<^verbatim>\<open>lk->lk\<close> or \<^verbatim>\<open>idelock\<close> is one step. A sleep lock that is taken
  gives \<^const>\<open>Wait\<close>; calls of \<^verbatim>\<open>wakeup\<close> are recorded in \<open>f_wakes\<close> in their order.
\<close>

section \<open>State\<close>

abbreviation (input) BSIZE :: nat where "BSIZE \<equiv> 512"
abbreviation (input) SECTOR_SIZE :: nat where "SECTOR_SIZE \<equiv> 512"

text \<open>A block is an array of \<^const>\<open>BSIZE\<close> bytes.\<close>

type_synonym block = "nat \<Rightarrow> uchar"

record sleeplock =
  sk_locked :: uint
  sk_name :: string
  sk_pid :: int

definition B_VALID :: uint where "B_VALID = 2"
definition B_DIRTY :: uint where "B_DIRTY = 4"

record buf =
  b_flags :: uint
  b_dev :: uint
  b_blockno :: uint
  b_lock :: sleeplock
  b_refcnt :: uint
  b_data :: block

text \<open>
  The disk controller as the driver sees it: the last byte written to each port, which drives are
  there, their sectors, which sectors fail. \<open>id_writes\<close> is the history of the sectors written,
  newest last. \<open>id_queue\<close> is the list from \<^verbatim>\<open>idequeue\<close> through \<^verbatim>\<open>qnext\<close>; \<open>id_disksize\<close> is
  \<^verbatim>\<open>disksize\<close> of memide.c, whose \<^verbatim>\<open>memdisk\<close> is drive 1.
\<close>

record ide =
  id_port :: "nat \<Rightarrow> uchar"
  id_present :: "nat \<Rightarrow> bool"
  id_disk :: "nat \<Rightarrow> nat \<Rightarrow> block"
  id_fault :: "nat \<Rightarrow> nat \<Rightarrow> bool"
  id_writes :: "(nat \<times> nat \<times> block) list"
  id_queue :: "nat list"
  id_havedisk1 :: int
  id_disksize :: uint

text \<open>\<open>f_lru\<close> is the list of the cache's buffers from \<^verbatim>\<open>bcache.head.next\<close> on (most recently used first).\<close>

record bio =
  f_wakes :: "chan list"
  f_buf :: "nat \<Rightarrow> buf"
  f_lru :: "nat list"
  f_ide :: ide

definition upd_buf :: "nat \<Rightarrow> (buf \<Rightarrow> buf) \<Rightarrow> 'z bio_scheme \<Rightarrow> 'z bio_scheme" where
  "upd_buf b f s = s\<lparr>f_buf := (f_buf s)(b := f (f_buf s b))\<rparr>"

definition upd_ide :: "(ide \<Rightarrow> ide) \<Rightarrow> 'z bio_scheme \<Rightarrow> 'z bio_scheme" where
  "upd_ide f s = s\<lparr>f_ide := f (f_ide s)\<rparr>"

definition wake :: "chan \<Rightarrow> 'z bio_scheme \<Rightarrow> 'z bio_scheme" where
  "wake c s = s\<lparr>f_wakes := f_wakes s @ [c]\<rparr>"

section \<open>Sleep locks\<close>

definition initsleeplock :: "string \<Rightarrow> sleeplock \<Rightarrow> sleeplock" where
  "initsleeplock nm k = k\<lparr>sk_name := nm, sk_locked := 0, sk_pid := 0\<rparr>"

definition acquiresleep :: "int \<Rightarrow> sleeplock \<Rightarrow> sleeplock res" where
  "acquiresleep me k = (if sk_locked k \<noteq> 0 then Wait ''acquiresleep'' else Ok (k\<lparr>sk_locked := 1, sk_pid := me\<rparr>))"

text \<open>The caller records the \<^verbatim>\<open>wakeup(lk)\<close> of \<^verbatim>\<open>releasesleep\<close> with the lock's address.\<close>

definition releasesleep :: "sleeplock \<Rightarrow> sleeplock" where
  "releasesleep k = k\<lparr>sk_locked := 0, sk_pid := 0\<rparr>"

definition holdingsleep :: "int \<Rightarrow> sleeplock \<Rightarrow> bool" where
  "holdingsleep me k \<longleftrightarrow> sk_locked k \<noteq> 0 \<and> sk_pid k = me"

definition release_buf :: "nat \<Rightarrow> 'z bio_scheme \<Rightarrow> 'z bio_scheme" where
  "release_buf b s = wake (CBufLock b) (upd_buf b (\<lambda>x. x\<lparr>b_lock := releasesleep (b_lock x)\<rparr>) s)"

section \<open>The controller\<close>

definition outb :: "nat \<Rightarrow> uchar \<Rightarrow> ide \<Rightarrow> ide" where
  "outb p v d = d\<lparr>id_port := (id_port d)(p := v)\<rparr>"

definition sel_drive :: "ide \<Rightarrow> nat" where
  "sel_drive d = (if bit (id_port d 0x1f6) 4 then 1 else 0)"

definition sel_sector :: "ide \<Rightarrow> nat" where
  "sel_sector d = unat (id_port d 0x1f3) + 2 ^ 8 * unat (id_port d 0x1f4) + 2 ^ 16 * unat (id_port d 0x1f5) +
     2 ^ 24 * unat (id_port d 0x1f6 AND 0x0f)"

text \<open>\<^verbatim>\<open>inb(0x1f7)\<close> once the controller is no longer busy: 0 for an absent drive, otherwise ready, with the
  error bit for a failing sector.\<close>

definition status :: "ide \<Rightarrow> uchar" where
  "status d = (if \<not> id_present d (sel_drive d) then 0
     else if id_fault d (sel_drive d) (sel_sector d) then 0x41 else 0x40)"

text \<open>\<^verbatim>\<open>outsl\<close> and \<^verbatim>\<open>insl\<close> on the data port transfer one sector.\<close>

definition outsl :: "block \<Rightarrow> ide \<Rightarrow> ide" where
  "outsl v d = d\<lparr>id_disk := (id_disk d)(sel_drive d := (id_disk d (sel_drive d))(sel_sector d := v)),
     id_writes := id_writes d @ [(sel_drive d, sel_sector d, v)]\<rparr>"

definition insl :: "ide \<Rightarrow> block" where
  "insl d = id_disk d (sel_drive d) (sel_sector d)"

section \<open>ide.c\<close>

definition idewait :: "bool \<Rightarrow> ide \<Rightarrow> int res" where
  "idewait checkerr d =
     (let r = status d
      in if r AND (0x80 OR 0x40) \<noteq> 0x40 then Wait ''idewait''
         else if checkerr \<and> r AND (0x20 OR 0x01) \<noteq> 0 then Ok (-1) else Ok 0)"

fun ide_probe :: "nat \<Rightarrow> ide \<Rightarrow> ide" where
  "ide_probe 0 d = d"
| "ide_probe (Suc n) d = (if status d \<noteq> 0 then d\<lparr>id_havedisk1 := 1\<rparr> else ide_probe n d)"

definition ideinit :: "ide \<Rightarrow> ide res" where
  "ideinit d =
     bindR (idewait False d) (\<lambda>_.
       let d = outb 0x1f6 (0xe0 OR push_bit 4 1) d;
           d = ide_probe 1000 d
       in Ok (outb 0x1f6 (0xe0 OR push_bit 4 0) d))"

definition idestart :: "nat option \<Rightarrow> 'z bio_scheme \<Rightarrow> 'z bio_scheme res" where
  "idestart ob s =
     (case ob of None \<Rightarrow> Panic ''idestart''
      | Some b \<Rightarrow>
          if b_blockno (f_buf s b) \<ge> of_nat FSSIZE then Panic ''incorrect blockno''
          else let sector_per_block = BSIZE div SECTOR_SIZE;
                   sector = b_blockno (f_buf s b) * of_nat sector_per_block;
                   read_cmd = (if sector_per_block = 1 then 0x20 else 0xc4);
                   write_cmd = (if sector_per_block = 1 then 0x30 else 0xc5)
               in if sector_per_block > 7 then Panic ''idestart''
                  else bindR (idewait False (f_ide s)) (\<lambda>_.
                    let d = outb 0x3f6 0 (f_ide s);
                        d = outb 0x1f2 (of_nat sector_per_block) d;
                        d = outb 0x1f3 (ucast (sector AND 0xff)) d;
                        d = outb 0x1f4 (ucast (drop_bit 8 sector AND 0xff)) d;
                        d = outb 0x1f5 (ucast (drop_bit 16 sector AND 0xff)) d;
                        d = outb 0x1f6 (ucast (0xe0 OR push_bit 4 (b_dev (f_buf s b) AND 1) OR (drop_bit 24 sector AND 0x0f))) d
                    in if b_flags (f_buf s b) AND B_DIRTY \<noteq> 0
                       then Ok (s\<lparr>f_ide := outsl (b_data (f_buf s b)) (outb 0x1f7 write_cmd d)\<rparr>)
                       else Ok (s\<lparr>f_ide := outb 0x1f7 read_cmd d\<rparr>)))"

definition ideintr :: "'z bio_scheme \<Rightarrow> 'z bio_scheme res" where
  "ideintr s =
     (case id_queue (f_ide s) of
        [] \<Rightarrow> Ok s
      | b # q \<Rightarrow>
          let s = upd_ide (\<lambda>d. d\<lparr>id_queue := q\<rparr>) s
          in bindR (if b_flags (f_buf s b) AND B_DIRTY = 0
                    then bindR (idewait True (f_ide s)) (\<lambda>r.
                         Ok (if r \<ge> 0 then upd_buf b (\<lambda>x. x\<lparr>b_data := insl (f_ide s)\<rparr>) s else s))
                    else Ok s) (\<lambda>s.
             let s = upd_buf b (\<lambda>x. x\<lparr>b_flags := b_flags x OR B_VALID\<rparr>) s;
                 s = upd_buf b (\<lambda>x. x\<lparr>b_flags := b_flags x AND NOT B_DIRTY\<rparr>) s;
                 s = wake (CBuf b) s
             in if q \<noteq> [] then idestart (Some (hd q)) s else Ok s))"

text \<open>The loop in which \<^verbatim>\<open>iderw\<close> sleeps: only a disk interrupt completes a request, so each round is one
  interrupt; \<open>n\<close> bounds the interrupts still to come.\<close>

fun ide_sleep :: "nat \<Rightarrow> nat \<Rightarrow> 'z bio_scheme \<Rightarrow> 'z bio_scheme res" where
  "ide_sleep 0 b s = (if b_flags (f_buf s b) AND (B_VALID OR B_DIRTY) = B_VALID then Ok s else Diverge)"
| "ide_sleep (Suc n) b s =
     (if b_flags (f_buf s b) AND (B_VALID OR B_DIRTY) = B_VALID then Ok s
      else bindR (ideintr s) (ide_sleep n b))"

text \<open>\<^verbatim>\<open>iderw\<close> up to its first \<^verbatim>\<open>sleep\<close>.\<close>

definition ide_submit :: "int \<Rightarrow> nat \<Rightarrow> 'z bio_scheme \<Rightarrow> 'z bio_scheme res" where
  "ide_submit me b s =
     (if \<not> holdingsleep me (b_lock (f_buf s b)) then Panic ''iderw: buf not locked''
      else if b_flags (f_buf s b) AND (B_VALID OR B_DIRTY) = B_VALID then Panic ''iderw: nothing to do''
      else if b_dev (f_buf s b) \<noteq> 0 \<and> id_havedisk1 (f_ide s) = 0 then Panic ''iderw: ide disk 1 not present''
      else let idle = (id_queue (f_ide s) = []);
               s = upd_ide (\<lambda>d. d\<lparr>id_queue := id_queue d @ [b]\<rparr>) s
           in if idle then idestart (Some b) s else Ok s)"

definition iderw :: "int \<Rightarrow> nat \<Rightarrow> 'z bio_scheme \<Rightarrow> 'z bio_scheme res" where
  "iderw me b s = bindR (ide_submit me b s) (\<lambda>s. ide_sleep (length (id_queue (f_ide s))) b s)"

section \<open>memide.c\<close>

definition mem_ideinit :: "uint \<Rightarrow> (nat \<Rightarrow> block) \<Rightarrow> ide \<Rightarrow> ide" where
  "mem_ideinit img_size img d = d\<lparr>id_disk := (id_disk d)(1 := img), id_disksize := img_size div of_nat BSIZE\<rparr>"

definition mem_iderw :: "int \<Rightarrow> nat \<Rightarrow> 'z bio_scheme \<Rightarrow> 'z bio_scheme res" where
  "mem_iderw me b s =
     (if \<not> holdingsleep me (b_lock (f_buf s b)) then Panic ''iderw: buf not locked''
      else if b_flags (f_buf s b) AND (B_VALID OR B_DIRTY) = B_VALID then Panic ''iderw: nothing to do''
      else if b_dev (f_buf s b) \<noteq> 1 then Panic ''iderw: request not for disk 1''
      else if b_blockno (f_buf s b) \<ge> id_disksize (f_ide s) then Panic ''iderw: block out of range''
      else let p = unat (b_blockno (f_buf s b));
               s = (if b_flags (f_buf s b) AND B_DIRTY \<noteq> 0
                    then let s = upd_buf b (\<lambda>x. x\<lparr>b_flags := b_flags x AND NOT B_DIRTY\<rparr>) s
                         in upd_ide (\<lambda>d. d\<lparr>id_disk := (id_disk d)(1 := (id_disk d 1)(p := b_data (f_buf s b))),
                              id_writes := id_writes d @ [(1, p, b_data (f_buf s b))]\<rparr>) s
                    else upd_buf b (\<lambda>x. x\<lparr>b_data := id_disk (f_ide s) 1 p\<rparr>) s)
           in Ok (upd_buf b (\<lambda>x. x\<lparr>b_flags := b_flags x OR B_VALID\<rparr>) s))"

section \<open>What the driver does\<close>

lemma upd_simps [simp]:
  "f_buf (upd_buf b f s) = (f_buf s)(b := f (f_buf s b))" "f_ide (upd_buf b f s) = f_ide s"
  "f_lru (upd_buf b f s) = f_lru s" "f_wakes (upd_buf b f s) = f_wakes s"
  "f_ide (upd_ide g s) = g (f_ide s)" "f_buf (upd_ide g s) = f_buf s"
  "f_lru (upd_ide g s) = f_lru s" "f_wakes (upd_ide g s) = f_wakes s"
  "f_buf (wake c s) = f_buf s" "f_ide (wake c s) = f_ide s" "f_lru (wake c s) = f_lru s"
  "f_wakes (wake c s) = f_wakes s @ [c]"
  by (simp_all add: upd_buf_def upd_ide_def wake_def)

lemma bit_flags: "bit B_VALID n \<longleftrightarrow> n = 1" "bit B_DIRTY n \<longleftrightarrow> n = 2"
  using bit_exp_iff [where 'a = "32 word", of 1 n] bit_exp_iff [where 'a = "32 word", of 2 n]
  by (auto simp: B_VALID_def B_DIRTY_def)

lemma flags_synced [simp]: "((f OR B_VALID) AND NOT B_DIRTY) AND (B_VALID OR B_DIRTY) = B_VALID"
  by (rule bit_word_eqI) (auto simp: bit_simps bit_flags)

lemma flags_comm: "(f AND NOT B_DIRTY) OR B_VALID = (f OR B_VALID) AND NOT B_DIRTY"
  by (rule bit_word_eqI) (auto simp: bit_simps bit_flags)

lemma and_flag: "f AND B_VALID = 0 \<longleftrightarrow> \<not> bit f 1" "f AND B_DIRTY = 0 \<longleftrightarrow> \<not> bit f 2"
  using and_exp_eq_0_iff_not_bit [of f 1] and_exp_eq_0_iff_not_bit [of f 2] by (simp_all add: B_VALID_def B_DIRTY_def)

lemma flags_clean: "f AND B_DIRTY = 0 \<Longrightarrow> (f OR B_VALID) AND NOT B_DIRTY = f OR B_VALID"
  unfolding and_flag by (rule bit_word_eqI) (auto simp: bit_simps bit_flags)

lemma unat_byte: "unat (ucast ((w :: uint) AND 0xff) :: uchar) = unat w mod 256"
proof -
  have "w AND 0xff = take_bit 8 w" by (simp add: take_bit_eq_mask mask_eq_exp_minus_1)
  then show ?thesis by (simp add: unsigned_ucast_eq take_bit_nat_def take_bit_eq_mod unat_mod)
qed

text \<open>The registers \<^const>\<open>idestart\<close> writes, and the sector they select.\<close>

definition seek :: "uint \<Rightarrow> uint \<Rightarrow> uchar \<Rightarrow> ide \<Rightarrow> ide" where
  "seek dev sector cmd d =
     outb 0x1f7 cmd (outb 0x1f6 (ucast (0xe0 OR push_bit 4 (dev AND 1) OR (drop_bit 24 sector AND 0x0f)))
       (outb 0x1f5 (ucast (drop_bit 16 sector AND 0xff)) (outb 0x1f4 (ucast (drop_bit 8 sector AND 0xff))
         (outb 0x1f3 (ucast (sector AND 0xff)) (outb 0x1f2 1 (outb 0x3f6 0 d))))))"

definition drive :: "uint \<Rightarrow> nat" where
  "drive dev = (if bit dev 0 then 1 else 0)"

lemma seek_keeps [simp]:
  "id_disk (seek dev n c d) = id_disk d" "id_present (seek dev n c d) = id_present d" "id_fault (seek dev n c d) = id_fault d"
  "id_writes (seek dev n c d) = id_writes d" "id_queue (seek dev n c d) = id_queue d"
  "id_havedisk1 (seek dev n c d) = id_havedisk1 d" "id_disksize (seek dev n c d) = id_disksize d"
  by (simp_all add: seek_def outb_def)

lemma sel_drive_seek [simp]: "sel_drive (seek dev n c d) = drive dev"
proof -
  have "bit (ucast (0xe0 OR push_bit 4 (dev AND 1) OR (drop_bit 24 n AND 0x0f)) :: uchar) 4 = bit dev 0"
    by (simp add: bit_simps bit_numeral_rec)
  then show ?thesis by (simp add: sel_drive_def seek_def outb_def drive_def)
qed

lemma sel_sector_seek [simp]:
  assumes "n < of_nat FSSIZE"
  shows "sel_sector (seek dev n c d) = unat n"
proof -
  have small: "unat n < 1000" using assms by (simp add: word_less_nat_alt)
  have "unat (drop_bit 24 n) = 0" using small by (simp add: unat_drop_bit_eq drop_bit_nat_def)
  then have "drop_bit 24 n = 0" by (simp only: unat_eq_0)
  moreover have "(ucast (0xe0 OR push_bit 4 (dev AND 1) :: uint) :: uchar) AND 0x0f = 0"
    by (rule bit_word_eqI) (auto simp: bit_simps bit_numeral_rec split: nat.splits)
  moreover have "unat (drop_bit 16 n) mod 256 = 0" "unat (drop_bit 8 n) mod 256 = unat n div 256"
    using small by (simp_all add: unat_drop_bit_eq div_nat_eqI drop_bit_nat_def)
  ultimately show ?thesis
    by (simp add: sel_sector_def seek_def outb_def unat_byte)
qed

text \<open>A request in two parts: what \<^const>\<open>idestart\<close> does for it, and what \<^const>\<open>ideintr\<close> does.\<close>

definition begin_req :: "nat \<Rightarrow> 'z bio_scheme \<Rightarrow> 'z bio_scheme" where
  "begin_req b s =
     (let x = f_buf s b
      in if b_flags x AND B_DIRTY \<noteq> 0
         then upd_ide (\<lambda>d. outsl (b_data x) (seek (b_dev x) (b_blockno x) 0x30 d)) s
         else upd_ide (seek (b_dev x) (b_blockno x) 0x20) s)"

definition finish_req :: "nat \<Rightarrow> 'z bio_scheme \<Rightarrow> 'z bio_scheme" where
  "finish_req b s =
     (let x = f_buf s b; dr = drive (b_dev x); n = unat (b_blockno x)
      in wake (CBuf b) (upd_buf b (\<lambda>x. x\<lparr>b_flags := (b_flags x OR B_VALID) AND NOT B_DIRTY\<rparr>)
           (if b_flags x AND B_DIRTY \<noteq> 0 \<or> id_fault (f_ide s) dr n then s
            else upd_buf b (\<lambda>x. x\<lparr>b_data := id_disk (f_ide s) dr n\<rparr>) s)))"

fun serve :: "nat list \<Rightarrow> 'z bio_scheme \<Rightarrow> 'z bio_scheme" where
  "serve [] s = s"
| "serve (b # q) s = serve q (finish_req b (begin_req b s))"

definition ready :: "ide \<Rightarrow> bool" where
  "ready d \<longleftrightarrow> id_present d 0 \<and> id_present d 1 \<and> id_havedisk1 d \<noteq> 0"

definition unsynced :: "nat \<Rightarrow> 'z bio_scheme \<Rightarrow> bool" where
  "unsynced b s \<longleftrightarrow> b_flags (f_buf s b) AND (B_VALID OR B_DIRTY) \<noteq> B_VALID \<and> b_blockno (f_buf s b) < of_nat FSSIZE"

lemma idewait_ready: "ready d \<Longrightarrow> \<exists>r. idewait e d = Ok r \<and> (r \<ge> 0 \<longleftrightarrow> \<not> (e \<and> id_fault d (sel_drive d) (sel_sector d)))"
  by (auto simp: idewait_def status_def ready_def sel_drive_def Let_def)

lemma idestart_run:
  assumes "ready (f_ide s)" "b_blockno (f_buf s b) < of_nat FSSIZE"
  shows "idestart (Some b) s = Ok (begin_req b s)"
proof -
  obtain r where "idewait False (f_ide s) = Ok r" using idewait_ready assms(1) by blast
  then show ?thesis
    using assms(2) by (simp add: idestart_def begin_req_def seek_def Let_def upd_ide_def not_le)
qed

lemma outsl_keeps [simp]:
  "id_present (outsl v d) = id_present d" "id_fault (outsl v d) = id_fault d" "id_queue (outsl v d) = id_queue d"
  "id_havedisk1 (outsl v d) = id_havedisk1 d" "id_port (outsl v d) = id_port d" "id_disksize (outsl v d) = id_disksize d"
  "sel_drive (outsl v d) = sel_drive d" "sel_sector (outsl v d) = sel_sector d"
  by (simp_all add: outsl_def sel_drive_def sel_sector_def)

lemma ready_keeps [simp]:
  "ready (seek dev n c d) = ready d" "ready (outsl v d) = ready d" "ready (d\<lparr>id_queue := q\<rparr>) = ready d"
  "sel_drive (d\<lparr>id_queue := q\<rparr>) = sel_drive d" "sel_sector (d\<lparr>id_queue := q\<rparr>) = sel_sector d"
  by (simp_all add: ready_def sel_drive_def sel_sector_def)

lemma begin_keeps [simp]:
  "f_buf (begin_req b s) = f_buf s" "f_lru (begin_req b s) = f_lru s" "f_wakes (begin_req b s) = f_wakes s"
  "ready (f_ide (begin_req b s)) = ready (f_ide s)" "id_queue (f_ide (begin_req b s)) = id_queue (f_ide s)"
  "id_fault (f_ide (begin_req b s)) = id_fault (f_ide s)"
  by (simp_all add: begin_req_def Let_def)

lemma finish_keeps [simp]:
  "f_ide (finish_req b s) = f_ide s" "f_lru (finish_req b s) = f_lru s"
  "f_wakes (finish_req b s) = f_wakes s @ [CBuf b]" "c \<noteq> b \<Longrightarrow> f_buf (finish_req b s) c = f_buf s c"
  by (simp_all add: finish_req_def Let_def)

lemma begin_selects:
  assumes "b_blockno (f_buf s b) < of_nat FSSIZE"
  shows "sel_drive (f_ide (begin_req b s)) = drive (b_dev (f_buf s b))"
    "sel_sector (f_ide (begin_req b s)) = unat (b_blockno (f_buf s b))"
  using assms by (simp_all add: begin_req_def Let_def)

lemma begin_queue: "upd_ide (id_queue_update q) (begin_req b s) = begin_req b (upd_ide (id_queue_update q) s)"
  by (simp add: begin_req_def Let_def upd_ide_def outsl_def seek_def outb_def sel_drive_def sel_sector_def)

lemma ideintr_run:
  assumes "id_queue (f_ide s) = b # q" "ready (f_ide s)"
    "sel_drive (f_ide s) = drive (b_dev (f_buf s b))" "sel_sector (f_ide s) = unat (b_blockno (f_buf s b))"
  shows "ideintr s = (let t = finish_req b (upd_ide (\<lambda>d. d\<lparr>id_queue := q\<rparr>) s)
     in if q \<noteq> [] then idestart (Some (hd q)) t else Ok t)"
proof -
  let ?s = "upd_ide (\<lambda>d. d\<lparr>id_queue := q\<rparr>) s"
  have sel: "sel_drive (f_ide ?s) = drive (b_dev (f_buf s b))" "sel_sector (f_ide ?s) = unat (b_blockno (f_buf s b))"
    using assms(3,4) by (simp_all add: sel_drive_def sel_sector_def)
  obtain r where r: "idewait True (f_ide ?s) = Ok r"
    "r \<ge> 0 \<longleftrightarrow> \<not> id_fault (f_ide s) (drive (b_dev (f_buf s b))) (unat (b_blockno (f_buf s b)))"
    using idewait_ready [of "f_ide ?s" True] assms(2) sel by auto
  show ?thesis
  proof (cases "b_flags (f_buf s b) AND B_DIRTY = 0")
    case True
    then show ?thesis
      using assms(1) r sel by (simp add: ideintr_def finish_req_def Let_def upd_buf_def insl_def upd_ide_def wake_def)
  next
    case False
    then show ?thesis
      using assms(1) by (simp add: ideintr_def finish_req_def Let_def upd_buf_def upd_ide_def wake_def)
  qed
qed

text \<open>The loop of \<^const>\<open>iderw\<close>, for the last request of a queue whose first one is under way.\<close>

lemma ide_sleep_run:
  assumes "id_queue (f_ide s) = []" "ready (f_ide s)" "distinct (b # q)" "\<And>c. c \<in> set (b # q) \<Longrightarrow> unsynced c s"
  shows "ide_sleep (length (b # q)) (last (b # q)) (upd_ide (\<lambda>d. d\<lparr>id_queue := b # q\<rparr>) (begin_req b s)) = Ok (serve (b # q) s)"
  using assms
proof (induction q arbitrary: b s)
  case Nil
  let ?u = "upd_ide (\<lambda>d. d\<lparr>id_queue := [b]\<rparr>) (begin_req b s)"
  have un: "unsynced b s" using Nil by simp
  have bk: "upd_ide (\<lambda>d. d\<lparr>id_queue := []\<rparr>) ?u = begin_req b s"
    using Nil.prems(1) begin_keeps(5) [of b s] by (simp add: upd_ide_def)
  have "ideintr ?u = Ok (finish_req b (begin_req b s))"
    using ideintr_run [of ?u b "[]"] Nil.prems un begin_selects [of s b] bk
    by (simp add: unsynced_def sel_drive_def sel_sector_def)
  moreover have "b_flags (f_buf (finish_req b (begin_req b s)) b) AND (B_VALID OR B_DIRTY) = B_VALID"
    by (simp add: finish_req_def Let_def)
  ultimately show ?case using un by (simp add: unsynced_def)
next
  case (Cons c q)
  let ?u = "upd_ide (\<lambda>d. d\<lparr>id_queue := b # c # q\<rparr>) (begin_req b s)"
  let ?t = "finish_req b (begin_req b s)"
  have un: "unsynced b s" "unsynced (last (c # q)) s" using Cons.prems(4) by auto
  have fin: "finish_req b (upd_ide (\<lambda>d. d\<lparr>id_queue := c # q\<rparr>) ?u) = upd_ide (\<lambda>d. d\<lparr>id_queue := c # q\<rparr>) ?t"
    by (simp add: finish_req_def Let_def upd_ide_def upd_buf_def wake_def)
  have uns: "unsynced x ?t" if "x \<in> set (c # q)" for x
  proof -
    have "x \<noteq> b" using Cons.prems(3) that by auto
    then show ?thesis using Cons.prems(4) [of x] that by (simp add: unsynced_def)
  qed
  have st: "idestart (Some c) (upd_ide (\<lambda>d. d\<lparr>id_queue := c # q\<rparr>) ?t) =
      Ok (upd_ide (\<lambda>d. d\<lparr>id_queue := c # q\<rparr>) (begin_req c ?t))"
    using idestart_run [of "upd_ide (\<lambda>d. d\<lparr>id_queue := c # q\<rparr>) ?t" c] Cons.prems(2) uns [of c]
    by (simp add: begin_queue unsynced_def)
  have "ideintr ?u = Ok (upd_ide (\<lambda>d. d\<lparr>id_queue := c # q\<rparr>) (begin_req c ?t))"
    using ideintr_run [of ?u b "c # q"] Cons.prems un(1) begin_selects [of s b] fin st
    by (simp add: unsynced_def sel_drive_def sel_sector_def)
  moreover have "ide_sleep (length (c # q)) (last (c # q)) (upd_ide (\<lambda>d. d\<lparr>id_queue := c # q\<rparr>) (begin_req c ?t)) = Ok (serve (c # q) ?t)"
    using Cons.IH [of ?t c] Cons.prems uns by simp
  ultimately show ?case using un(2) by (simp add: unsynced_def)
qed

lemma ide_submit_run:
  assumes "holdingsleep me (b_lock (f_buf s b))" "unsynced b s" "ready (f_ide s)"
  shows "ide_submit me b s = (let t = upd_ide (\<lambda>d. d\<lparr>id_queue := id_queue d @ [b]\<rparr>) s
     in if id_queue (f_ide s) = [] then Ok (begin_req b t) else Ok t)"
  using assms idestart_run [of "upd_ide (\<lambda>d. d\<lparr>id_queue := id_queue d @ [b]\<rparr>) s" b]
  by (simp add: ide_submit_def Let_def unsynced_def ready_def)

lemma iderw_run:
  assumes "holdingsleep me (b_lock (f_buf s b))" "unsynced b s" "ready (f_ide s)" "id_queue (f_ide s) = []"
  shows "iderw me b s = Ok (finish_req b (begin_req b s))"
proof -
  have "upd_ide (\<lambda>d. d\<lparr>id_queue := id_queue d @ [b]\<rparr>) s = upd_ide (\<lambda>d. d\<lparr>id_queue := [b]\<rparr>) s"
    using assms(4) by (simp add: upd_ide_def)
  then show ?thesis
    using ide_submit_run [OF assms(1-3)] ide_sleep_run [of s b "[]"] assms by (simp add: iderw_def Let_def begin_queue)
qed

lemma finish_flags [simp]:
  "b_flags (f_buf (finish_req b s) b) = (b_flags (f_buf s b) OR B_VALID) AND NOT B_DIRTY"
  by (simp add: finish_req_def Let_def)

lemma serve_facts:
  "f_wakes (serve bs s) = f_wakes s @ map CBuf bs" "ready (f_ide (serve bs s)) = ready (f_ide s)"
  "id_queue (f_ide (serve bs s)) = id_queue (f_ide s)" "c \<notin> set bs \<Longrightarrow> f_buf (serve bs s) c = f_buf s c"
  by (induction bs arbitrary: s) auto

lemma serve_synced:
  "distinct bs \<Longrightarrow> c \<in> set bs \<Longrightarrow> b_flags (f_buf (serve bs s) c) = (b_flags (f_buf s c) OR B_VALID) AND NOT B_DIRTY"
proof (induction bs arbitrary: s)
  case (Cons b bs)
  show ?case
  proof (cases "c = b")
    case True
    then show ?thesis using Cons.prems serve_facts(4) [of b bs "finish_req b (begin_req b s)"] by simp
  next
    case False
    then show ?thesis using Cons by simp
  qed
qed simp

text \<open>Requests of several processes, one after the other.\<close>

fun submit_all :: "(int \<times> nat) list \<Rightarrow> 'z bio_scheme \<Rightarrow> 'z bio_scheme res" where
  "submit_all [] s = Ok s"
| "submit_all ((me, b) # rs) s = bindR (ide_submit me b s) (submit_all rs)"

lemma submit_all_run:
  assumes "id_queue (f_ide s) \<noteq> []" "ready (f_ide s)"
    "\<And>me b. (me, b) \<in> set rs \<Longrightarrow> holdingsleep me (b_lock (f_buf s b)) \<and> unsynced b s"
  shows "submit_all rs s = Ok (upd_ide (\<lambda>d. d\<lparr>id_queue := id_queue d @ map snd rs\<rparr>) s)"
  using assms
proof (induction rs arbitrary: s)
  case Nil
  then show ?case by (simp add: upd_ide_def)
next
  case (Cons r rs)
  obtain me b where r: "r = (me, b)" by (cases r)
  let ?t = "upd_ide (\<lambda>d. d\<lparr>id_queue := id_queue d @ [b]\<rparr>) s"
  have "ide_submit me b s = Ok ?t"
    using ide_submit_run [of me s b] Cons.prems(1,2) Cons.prems(3) [of me b] r by (simp add: Let_def)
  moreover have "submit_all rs ?t = Ok (upd_ide (\<lambda>d. d\<lparr>id_queue := id_queue d @ map snd rs\<rparr>) ?t)"
    using Cons.prems by (intro Cons.IH) (auto simp: unsynced_def)
  ultimately show ?case using r by (simp add: upd_ide_def)
qed

lemma submit_serve:
  assumes "id_queue (f_ide s) = []" "ready (f_ide s)" "rs \<noteq> []" "distinct (map snd rs)"
    "\<And>me b. (me, b) \<in> set rs \<Longrightarrow> holdingsleep me (b_lock (f_buf s b)) \<and> unsynced b s"
  shows "bindR (submit_all rs s) (ide_sleep (length rs) (snd (last rs))) = Ok (serve (map snd rs) s)"
proof -
  obtain me b qs where rs: "rs = (me, b) # qs" using assms(3) by (cases rs) auto
  let ?t = "upd_ide (\<lambda>d. d\<lparr>id_queue := [b]\<rparr>) (begin_req b s)"
  have q1: "upd_ide (\<lambda>d. d\<lparr>id_queue := id_queue d @ [b]\<rparr>) s = upd_ide (\<lambda>d. d\<lparr>id_queue := [b]\<rparr>) s"
    using assms(1) by (simp add: upd_ide_def)
  have "ide_submit me b s = Ok ?t"
    using ide_submit_run [of me s b] assms(1,2) assms(5) [of me b] rs q1 by (simp add: Let_def begin_queue)
  moreover have "submit_all qs ?t = Ok (upd_ide (\<lambda>d. d\<lparr>id_queue := id_queue d @ map snd qs\<rparr>) ?t)"
    using assms(2,5) rs by (intro submit_all_run) (auto simp: unsynced_def)
  moreover have "upd_ide (\<lambda>d. d\<lparr>id_queue := id_queue d @ map snd qs\<rparr>) ?t =
      upd_ide (\<lambda>d. d\<lparr>id_queue := b # map snd qs\<rparr>) (begin_req b s)" by (simp add: upd_ide_def)
  moreover have "ide_sleep (length (b # map snd qs)) (last (b # map snd qs))
      (upd_ide (\<lambda>d. d\<lparr>id_queue := b # map snd qs\<rparr>) (begin_req b s)) = Ok (serve (b # map snd qs) s)"
  proof (intro ide_sleep_run)
    fix c assume "c \<in> set (b # map snd qs)"
    then have "c \<in> snd ` set rs" using rs by simp
    then obtain m where "(m, c) \<in> set rs" by (metis imageE prod.collapse)
    then show "unsynced c s" using assms(5) by blast
  qed (use assms rs in auto)
  moreover have "snd (last rs) = last (b # map snd qs)" using rs by (cases qs) (auto simp: last_map)
  ultimately show ?thesis using rs by simp
qed

section \<open>Properties\<close>

text \<open>The zeroed buffers and a controller with two drives, used as concrete inputs.\<close>

definition bss_sleeplock :: sleeplock where
  "bss_sleeplock = \<lparr>sk_locked = 0, sk_name = [], sk_pid = 0\<rparr>"

definition bss_buf :: buf where
  "bss_buf = \<lparr>b_flags = 0, b_dev = 0, b_blockno = 0, b_lock = bss_sleeplock, b_refcnt = 0, b_data = (\<lambda>_. 0)\<rparr>"

definition two_drives :: ide where
  "two_drives = \<lparr>id_port = (\<lambda>_. 0), id_present = (\<lambda>d. d < 2), id_disk = (\<lambda>_ _ _. 0), id_fault = (\<lambda>_ _. False),
     id_writes = [], id_queue = [], id_havedisk1 = 1, id_disksize = 1000\<rparr>"

definition held_buf :: "int \<Rightarrow> uint \<Rightarrow> uint \<Rightarrow> block \<Rightarrow> buf" where
  "held_buf me fl n v = bss_buf\<lparr>b_flags := fl, b_dev := 1, b_blockno := n, b_refcnt := 1, b_data := v,
     b_lock := bss_sleeplock\<lparr>sk_locked := 1, sk_pid := me\<rparr>\<rparr>"

definition demo_bufs :: bio where
  "demo_bufs = \<lparr>f_wakes = [], f_buf = (\<lambda>_. bss_buf)(0 := held_buf 3 B_DIRTY 7 (\<lambda>_. 9), 1 := held_buf 4 0 8 (\<lambda>_. 0)),
     f_lru = [0, 1], f_ide = two_drives\<rparr>"

lemma demo_bufs_facts:
  "ready (f_ide demo_bufs)" "id_queue (f_ide demo_bufs) = []" "f_wakes demo_bufs = []"
  "holdingsleep 3 (b_lock (f_buf demo_bufs 0))" "unsynced 0 demo_bufs"
  "holdingsleep 4 (b_lock (f_buf demo_bufs 1))" "unsynced 1 demo_bufs"
  "b_dev (f_buf demo_bufs 0) = 1" "b_blockno (f_buf demo_bufs 0) = 7" "id_disksize (f_ide demo_bufs) = 1000"
  "\<not> id_fault (f_ide demo_bufs) 1 7"
  by (simp_all add: demo_bufs_def two_drives_def ready_def held_buf_def unsynced_def holdingsleep_def bss_buf_def
      bss_sleeplock_def B_DIRTY_def B_VALID_def)

text \<open>
  C20: Disk requests of several processes are served in the order of submission, each exactly once and as if
  it had the disk to itself. Processes that hold the sleep locks of distinct buffers call \<^verbatim>\<open>iderw\<close> one
  after the other on an idle, fault-capable controller; when the last one returns, the state is that of
  serving the requests one by one (\<^const>\<open>serve\<close>: a dirty buffer is written to its sector, any other
  is read from it), the wake-ups were sent in that order, the queue is empty, and every buffer is valid
  and clean.
\<close>

theorem ide_requests_in_order:
  assumes "id_queue (f_ide s) = []" "ready (f_ide s)" "rs \<noteq> []" "distinct (map snd rs)"
    "\<And>me b. (me, b) \<in> set rs \<Longrightarrow> holdingsleep me (b_lock (f_buf s b)) \<and> unsynced b s"
  shows "\<exists>t. bindR (submit_all rs s) (ide_sleep (length rs) (snd (last rs))) = Ok t \<and>
     t = serve (map snd rs) s \<and> f_wakes t = f_wakes s @ map CBuf (map snd rs) \<and> id_queue (f_ide t) = [] \<and>
     (\<forall>c. if c \<in> set (map snd rs) then b_flags (f_buf t c) AND (B_VALID OR B_DIRTY) = B_VALID
          else f_buf t c = f_buf s c)"
proof -
  have "b_flags (f_buf (serve (map snd rs) s) c) AND (B_VALID OR B_DIRTY) = B_VALID" if "c \<in> set (map snd rs)" for c
    using serve_synced [OF assms(4) that, of s] by simp
  then show ?thesis
    using submit_serve [OF assms] serve_facts(1,3) [of "map snd rs" s] serve_facts(4) [of _ "map snd rs" s] assms(1) by auto
qed

theorem ide_requests_in_order_witness:
  "\<exists>t. bindR (submit_all [(3, 0), (4, 1)] demo_bufs) (ide_sleep 2 1) = Ok t \<and> t = serve [0, 1] demo_bufs \<and>
     f_wakes t = [CBuf 0, CBuf 1]"
  using ide_requests_in_order [of demo_bufs "[(3, 0), (4, 1)]"] demo_bufs_facts
  by (auto simp del: submit_all.simps ide_sleep.simps serve.simps simp: numeral_2_eq_2)

text \<open>
  C21: The in-memory disk driver and the IDE driver agree: for a locked buffer of device 1 whose block is on
  both disks and does not fail, \<^verbatim>\<open>iderw\<close> of ide.c and \<^verbatim>\<open>iderw\<close> of memide.c both return, with
  the same buffers, the same sectors and the same history of writes; the buffer is then valid and
  clean, its data and its sector agree, and no other buffer or sector has changed.
\<close>

theorem ide_memide_equivalent:
  assumes "holdingsleep me (b_lock (f_buf s b))" "unsynced b s" "ready (f_ide s)" "id_queue (f_ide s) = []"
    "b_dev (f_buf s b) = 1" "b_blockno (f_buf s b) < id_disksize (f_ide s)"
    "\<not> id_fault (f_ide s) 1 (unat (b_blockno (f_buf s b)))"
  shows "\<exists>t u. iderw me b s = Ok t \<and> mem_iderw me b s = Ok u \<and> f_buf u = f_buf t \<and>
     id_disk (f_ide u) = id_disk (f_ide t) \<and> id_writes (f_ide u) = id_writes (f_ide t) \<and>
     b_flags (f_buf t b) AND (B_VALID OR B_DIRTY) = B_VALID \<and>
     id_disk (f_ide t) 1 (unat (b_blockno (f_buf s b))) = b_data (f_buf t b) \<and>
     (\<forall>d n. (d, n) \<noteq> (1, unat (b_blockno (f_buf s b))) \<longrightarrow> id_disk (f_ide t) d n = id_disk (f_ide s) d n) \<and>
     (\<forall>c. c \<noteq> b \<longrightarrow> f_buf t c = f_buf s c)"
proof -
  let ?t = "finish_req b (begin_req b s)"
  have n: "b_blockno (f_buf s b) < of_nat FSSIZE" using assms(2) by (simp add: unsynced_def)
  have run: "iderw me b s = Ok ?t" by (rule iderw_run [OF assms(1-4)])
  have d1: "drive (1 :: uint) = 1" by (simp add: drive_def)
  show ?thesis
  proof (cases "b_flags (f_buf s b) AND B_DIRTY = 0")
    case True
    have t: "f_buf ?t = (f_buf s)(b := (f_buf s b)\<lparr>b_data := id_disk (f_ide s) 1 (unat (b_blockno (f_buf s b))),
        b_flags := (b_flags (f_buf s b) OR B_VALID) AND NOT B_DIRTY\<rparr>)"
      "id_disk (f_ide ?t) = id_disk (f_ide s)" "id_writes (f_ide ?t) = id_writes (f_ide s)"
      using True assms(5,7) d1 by (simp_all add: finish_req_def begin_req_def Let_def)
    let ?u = "upd_buf b (\<lambda>x. x\<lparr>b_flags := b_flags x OR B_VALID\<rparr>)
        (upd_buf b (\<lambda>x. x\<lparr>b_data := id_disk (f_ide s) 1 (unat (b_blockno (f_buf s b)))\<rparr>) s)"
    have "mem_iderw me b s = Ok ?u"
      using True assms(1,2,5,6) by (simp add: mem_iderw_def unsynced_def Let_def not_le)
    then show ?thesis
      using run t flags_synced [of "b_flags (f_buf s b)", unfolded flags_clean [OF True]]
      by (simp add: flags_clean [OF True] upd_buf_def)
  next
    case False
    have t: "f_buf ?t = (f_buf s)(b := (f_buf s b)\<lparr>b_flags := (b_flags (f_buf s b) OR B_VALID) AND NOT B_DIRTY\<rparr>)"
      "id_disk (f_ide ?t) = (id_disk (f_ide s))(1 := (id_disk (f_ide s) 1)(unat (b_blockno (f_buf s b)) := b_data (f_buf s b)))"
      "id_writes (f_ide ?t) = id_writes (f_ide s) @ [(1, unat (b_blockno (f_buf s b)), b_data (f_buf s b))]"
      using False assms(5) n d1 by (simp_all add: finish_req_def begin_req_def Let_def outsl_def)
    have "\<exists>u. mem_iderw me b s = Ok u \<and> f_buf u = f_buf ?t \<and> id_disk (f_ide u) = id_disk (f_ide ?t) \<and>
        id_writes (f_ide u) = id_writes (f_ide ?t)"
      using False assms(1,2,5,6) unfolding t by (simp add: mem_iderw_def unsynced_def Let_def not_le flags_comm)
    then obtain u where "mem_iderw me b s = Ok u" "f_buf u = f_buf ?t" "id_disk (f_ide u) = id_disk (f_ide ?t)"
        "id_writes (f_ide u) = id_writes (f_ide ?t)" by blast
    then show ?thesis using run t by auto
  qed
qed

theorem ide_memide_equivalent_witness:
  "\<exists>t u. iderw 3 0 demo_bufs = Ok t \<and> mem_iderw 3 0 demo_bufs = Ok u \<and> f_buf u = f_buf t \<and>
     id_disk (f_ide t) 1 7 = b_data (f_buf t 0)"
  using ide_memide_equivalent [of 3 demo_bufs 0] demo_bufs_facts by auto

text \<open>
  C30: A read that fails is not reported: for a sector whose read ends with the error bit set,
  \<^verbatim>\<open>iderw\<close> returns normally with the buffer marked \<^const>\<open>B_VALID\<close> while its data is still what
  it was before, although buf.h says that the flag means the buffer has been read from disk.
\<close>

theorem ide_read_error_unreported:
  assumes "holdingsleep me (b_lock (f_buf s b))" "unsynced b s" "ready (f_ide s)" "id_queue (f_ide s) = []"
    "b_flags (f_buf s b) AND B_DIRTY = 0" "id_fault (f_ide s) (drive (b_dev (f_buf s b))) (unat (b_blockno (f_buf s b)))"
  shows "\<exists>t. iderw me b s = Ok t \<and> b_flags (f_buf t b) AND (B_VALID OR B_DIRTY) = B_VALID \<and>
     b_data (f_buf t b) = b_data (f_buf s b)"
  using iderw_run [OF assms(1-4)] assms(5,6) by (simp add: finish_req_def Let_def)

theorem ide_read_error_unreported_witness:
  "\<exists>t. iderw 4 1 (upd_ide (\<lambda>d. d\<lparr>id_fault := (\<lambda>_ _. True)\<rparr>) demo_bufs) = Ok t \<and>
     b_data (f_buf t 1) = b_data (f_buf demo_bufs 1)"
  using ide_read_error_unreported [of 4 "upd_ide (\<lambda>d. d\<lparr>id_fault := (\<lambda>_ _. True)\<rparr>) demo_bufs" 1] demo_bufs_facts
  by (auto simp: unsynced_def ready_def demo_bufs_def held_buf_def)

end
