(* ===== verification/Store.thy ===== *)
theory Store
  imports Prelude
begin

text \<open>
  What a client of a block store relies on: reading gives the contents and changes nothing a reader
  can see, writing changes one block. The buffer cache provides it.
\<close>

fun write_list :: "('n \<Rightarrow> 'v \<Rightarrow> 's \<Rightarrow> 's res) \<Rightarrow> ('n \<times> 'v) list \<Rightarrow> 's \<Rightarrow> 's res" where
  "write_list wr [] s = Ok s"
| "write_list wr ((n, v) # ws) s = bindR (wr n v s) (write_list wr ws)"

fun upd_list :: "('n \<times> 'v) list \<Rightarrow> ('n \<Rightarrow> 'v) \<Rightarrow> 'n \<Rightarrow> 'v" where
  "upd_list [] f = f"
| "upd_list ((n, v) # ws) f = upd_list ws (f(n := v))"

lemma upd_list_append: "upd_list (xs @ ys) f = upd_list ys (upd_list xs f)"
  by (induction xs arbitrary: f) auto

lemma upd_list_other: "n \<notin> fst ` set ws \<Longrightarrow> upd_list ws f n = f n"
  by (induction ws arbitrary: f) auto

lemma upd_list_distinct: "distinct (map fst ws) \<Longrightarrow> (n, v) \<in> set ws \<Longrightarrow> upd_list ws f n = v"
proof (induction ws arbitrary: f)
  case (Cons w ws)
  obtain m u where w: "w = (m, u)" by (cases w)
  show ?case
  proof (cases "(n, v) \<in> set ws")
    case True
    then show ?thesis using Cons w by simp
  next
    case False
    then show ?thesis using Cons.prems w upd_list_other [of m ws "f(m := u)"] by simp
  qed
qed simp

locale block_store =
  fixes rd :: "'n \<Rightarrow> 's \<Rightarrow> ('v \<times> 's) res"
    and wr :: "'n \<Rightarrow> 'v \<Rightarrow> 's \<Rightarrow> 's res"
    and inv :: "'s \<Rightarrow> bool"
    and con :: "'s \<Rightarrow> 'n \<Rightarrow> 'v"
    and adm :: "'n \<Rightarrow> bool"
  assumes rd_law: "inv s \<Longrightarrow> adm n \<Longrightarrow> \<exists>t. rd n s = Ok (con s n, t) \<and> inv t \<and> con t = con s"
    and wr_law: "inv s \<Longrightarrow> adm n \<Longrightarrow> \<exists>t. wr n v s = Ok t \<and> inv t \<and> con t = (con s)(n := v)"
begin

lemma write_list_law:
  "inv s \<Longrightarrow> (\<And>n v. (n, v) \<in> set ws \<Longrightarrow> adm n) \<Longrightarrow>
   \<exists>t. write_list wr ws s = Ok t \<and> inv t \<and> con t = upd_list ws (con s)"
proof (induction ws arbitrary: s)
  case Nil
  then show ?case by simp
next
  case (Cons w ws)
  obtain n v where w: "w = (n, v)" by (cases w)
  obtain t where t: "wr n v s = Ok t" "inv t" "con t = (con s)(n := v)"
    using wr_law [of s n v] Cons.prems w by auto
  obtain u where "write_list wr ws t = Ok u" "inv u" "con u = upd_list ws (con t)"
    using Cons.IH [OF t(2)] Cons.prems(2) by auto
  then show ?case using t w by simp
qed

lemma read_back:
  assumes "inv s" "\<And>n v. (n, v) \<in> set ws \<Longrightarrow> adm n" "adm n"
  shows "\<exists>t u. write_list wr ws s = Ok t \<and> rd n t = Ok (upd_list ws (con s) n, u) \<and> con u = upd_list ws (con s)"
proof -
  obtain t where t: "write_list wr ws s = Ok t" "inv t" "con t = upd_list ws (con s)"
    using write_list_law [of s ws] assms by blast
  then show ?thesis using rd_law [OF t(2) assms(3)] by auto
qed

end

end
