(* ===== verification/Bio.thy ===== *)
theory Bio
  imports Ide Store
begin

text \<open>
  The buffer cache, bio.c. \<^verbatim>\<open>bcache.lock\<close> sections are one step; the doubly linked list through
  \<^verbatim>\<open>prev\<close> and \<^verbatim>\<open>next\<close> is the list \<open>f_lru\<close>, read forwards from \<^verbatim>\<open>head.next\<close> and backwards from
  \<^verbatim>\<open>head.prev\<close>. The lemmas describe the cache by the contents of the blocks it stands for.
\<close>

section \<open>Operations\<close>

fun binit_from :: "nat list \<Rightarrow> 'z bio_scheme \<Rightarrow> 'z bio_scheme" where
  "binit_from [] s = s"
| "binit_from (b # bs) s =
     binit_from bs ((upd_buf b (\<lambda>x. x\<lparr>b_lock := initsleeplock ''buffer'' (b_lock x)\<rparr>) s)\<lparr>f_lru := b # f_lru s\<rparr>)"

definition binit :: "'z bio_scheme \<Rightarrow> 'z bio_scheme" where
  "binit s = binit_from [0..<NBUF] (s\<lparr>f_lru := []\<rparr>)"

definition cached :: "uint \<Rightarrow> uint \<Rightarrow> 'z bio_scheme \<Rightarrow> nat option" where
  "cached dev blockno s = List.find (\<lambda>b. b_dev (f_buf s b) = dev \<and> b_blockno (f_buf s b) = blockno) (f_lru s)"

definition spare :: "'z bio_scheme \<Rightarrow> nat option" where
  "spare s = List.find (\<lambda>b. b_refcnt (f_buf s b) = 0 \<and> b_flags (f_buf s b) AND B_DIRTY = 0) (rev (f_lru s))"

definition lock_buf :: "int \<Rightarrow> nat \<Rightarrow> 'z bio_scheme \<Rightarrow> (nat \<times> 'z bio_scheme) res" where
  "lock_buf me b s = bindR (acquiresleep me (b_lock (f_buf s b))) (\<lambda>k. Ok (b, upd_buf b (\<lambda>x. x\<lparr>b_lock := k\<rparr>) s))"

definition bget :: "int \<Rightarrow> uint \<Rightarrow> uint \<Rightarrow> 'z bio_scheme \<Rightarrow> (nat \<times> 'z bio_scheme) res" where
  "bget me dev blockno s =
     (case cached dev blockno s of
        Some b \<Rightarrow> lock_buf me b (upd_buf b (\<lambda>x. x\<lparr>b_refcnt := b_refcnt x + 1\<rparr>) s)
      | None \<Rightarrow>
          (case spare s of
             Some b \<Rightarrow> lock_buf me b (upd_buf b (\<lambda>x. x\<lparr>b_dev := dev, b_blockno := blockno, b_flags := 0, b_refcnt := 1\<rparr>) s)
           | None \<Rightarrow> Panic ''bget: no buffers''))"

definition bread :: "int \<Rightarrow> uint \<Rightarrow> uint \<Rightarrow> 'z bio_scheme \<Rightarrow> (nat \<times> 'z bio_scheme) res" where
  "bread me dev blockno s =
     bindR (bget me dev blockno s) (\<lambda>(b, s).
       if b_flags (f_buf s b) AND B_VALID = 0
       then bindR (iderw me b s) (\<lambda>s. Ok (b, s)) else Ok (b, s))"

definition bwrite :: "int \<Rightarrow> nat \<Rightarrow> 'z bio_scheme \<Rightarrow> 'z bio_scheme res" where
  "bwrite me b s =
     (if \<not> holdingsleep me (b_lock (f_buf s b)) then Panic ''bwrite''
      else iderw me b (upd_buf b (\<lambda>x. x\<lparr>b_flags := b_flags x OR B_DIRTY\<rparr>) s))"

definition brelse :: "int \<Rightarrow> nat \<Rightarrow> 'z bio_scheme \<Rightarrow> 'z bio_scheme res" where
  "brelse me b s =
     (if \<not> holdingsleep me (b_lock (f_buf s b)) then Panic ''brelse''
      else let s = release_buf b s;
               s = upd_buf b (\<lambda>x. x\<lparr>b_refcnt := b_refcnt x - 1\<rparr>) s
           in if b_refcnt (f_buf s b) = 0 then Ok (s\<lparr>f_lru := b # remove1 b (f_lru s)\<rparr>) else Ok s)"

text \<open>An assignment to the data of a buffer.\<close>

definition set_data :: "nat \<Rightarrow> block \<Rightarrow> 'z bio_scheme \<Rightarrow> 'z bio_scheme" where
  "set_data b v s = upd_buf b (\<lambda>x. x\<lparr>b_data := v\<rparr>) s"

section \<open>The cache as a collection of blocks\<close>

text \<open>
  The process \<open>me\<close> holds the buffers \<open>H\<close>, no one else holds any. A buffer is unused (device 0, as in
  zeroed memory) or caches a block of the root device.
\<close>

definition buf_ok :: "int \<Rightarrow> nat set \<Rightarrow> nat \<Rightarrow> ide \<Rightarrow> buf \<Rightarrow> bool" where
  "buf_ok me H b d x \<longleftrightarrow>
     (if b \<in> H then holdingsleep me (b_lock x) \<and> b_refcnt x = 1 \<and> b_dev x = 1
      else sk_locked (b_lock x) = 0 \<and> b_refcnt x = 0) \<and>
     (b_dev x = 0 \<and> b_flags x = 0 \<or>
      b_dev x = 1 \<and> bit (b_flags x) 1 \<and> b_blockno x < of_nat FSSIZE \<and>
      (b \<in> H \<or> bit (b_flags x) 2 \<or> b_data x = id_disk d 1 (unat (b_blockno x))))"

definition disk_ok :: "ide \<Rightarrow> bool" where
  "disk_ok d \<longleftrightarrow> ready d \<and> id_queue d = [] \<and> (\<forall>n. \<not> id_fault d 1 n)"

definition cache_inv :: "int \<Rightarrow> nat set \<Rightarrow> 'z bio_scheme \<Rightarrow> bool" where
  "cache_inv me H s \<longleftrightarrow>
     distinct (f_lru s) \<and> set (f_lru s) = {0..<NBUF} \<and> H \<subseteq> {0..<NBUF} \<and> disk_ok (f_ide s) \<and>
     (\<forall>b < NBUF. buf_ok me H b (f_ide s) (f_buf s b)) \<and>
     (\<forall>b < NBUF. \<forall>c < NBUF. b_dev (f_buf s b) = 1 \<longrightarrow> b_dev (f_buf s c) = 1 \<longrightarrow>
        b_blockno (f_buf s b) = b_blockno (f_buf s c) \<longrightarrow> b = c)"

definition content :: "'z bio_scheme \<Rightarrow> uint \<Rightarrow> block" where
  "content s n = (case cached 1 n s of Some b \<Rightarrow> b_data (f_buf s b) | None \<Rightarrow> id_disk (f_ide s) 1 (unat n))"

definition dirty :: "'z bio_scheme \<Rightarrow> nat set" where
  "dirty s = {b. b < NBUF \<and> bit (b_flags (f_buf s b)) 2}"

lemma find_some: "List.find P xs = Some x \<Longrightarrow> x \<in> set xs \<and> P x"
  by (auto simp: find_Some_iff)

lemma cached_SomeI:
  assumes "cache_inv me H s" "b < NBUF" "b_dev (f_buf s b) = 1" "b_blockno (f_buf s b) = n"
  shows "cached 1 n s = Some b"
proof (cases "cached 1 n s")
  case None
  then show ?thesis using assms by (auto simp: cached_def find_None_iff cache_inv_def)
next
  case (Some c)
  then have "c \<in> set (f_lru s) \<and> b_dev (f_buf s c) = 1 \<and> b_blockno (f_buf s c) = n"
    unfolding cached_def by (rule find_some)
  then have "c = b" using assms by (auto simp: cache_inv_def)
  then show ?thesis using Some by simp
qed

lemma cached_SomeD:
  assumes "cache_inv me H s" "cached dev n s = Some b"
  shows "b < NBUF" "b_dev (f_buf s b) = dev" "b_blockno (f_buf s b) = n"
  using find_some [OF assms(2) [unfolded cached_def]] assms(1) by (auto simp: cache_inv_def)

lemma cached_NoneD:
  assumes "cache_inv me H s" "cached dev n s = None" "b < NBUF"
  shows "\<not> (b_dev (f_buf s b) = dev \<and> b_blockno (f_buf s b) = n)"
  using assms by (auto simp: cached_def find_None_iff cache_inv_def)

lemma content_cached:
  assumes "cache_inv me H s" "b < NBUF" "b_dev (f_buf s b) = 1"
  shows "content s (b_blockno (f_buf s b)) = b_data (f_buf s b)"
  using cached_SomeI [OF assms refl] by (simp add: content_def)

text \<open>Controllers that differ only in their registers.\<close>

definition ide_same :: "ide \<Rightarrow> ide \<Rightarrow> bool" where
  "ide_same d e \<longleftrightarrow> id_disk e = id_disk d \<and> id_fault e = id_fault d \<and> id_queue e = id_queue d \<and> ready e = ready d"

lemma ide_same_refl [simp]: "ide_same d d"
  by (simp add: ide_same_def)

lemma disk_ok_same: "ide_same d e \<Longrightarrow> disk_ok e = disk_ok d"
  by (simp add: ide_same_def disk_ok_def)

text \<open>Replacing one buffer keeps the invariant if the new buffer is in order and no other has its block.\<close>

lemma cache_inv_upd:
  assumes inv: "cache_inv me H s" and b: "b < NBUF"
    and t: "set (f_lru t) = set (f_lru s)" "distinct (f_lru t)" "ide_same (f_ide s) (f_ide t)" "f_buf t = (f_buf s)(b := x)"
    and H': "H' \<subseteq> {0..<NBUF}" "H' - {b} = H - {b}"
    and x: "buf_ok me H' b (f_ide s) x"
    and uniq: "\<And>c. c < NBUF \<Longrightarrow> c \<noteq> b \<Longrightarrow> b_dev x = 1 \<Longrightarrow> b_dev (f_buf s c) = 1 \<Longrightarrow> b_blockno (f_buf s c) \<noteq> b_blockno x"
  shows "cache_inv me H' t"
proof -
  have same: "buf_ok me K c (f_ide t) y = buf_ok me K c (f_ide s) y" for K c y
    using t(3) by (simp add: buf_ok_def ide_same_def)
  have other: "buf_ok me H' c (f_ide s) (f_buf s c)" if "c < NBUF" "c \<noteq> b" for c
  proof -
    have "c \<in> H' \<longleftrightarrow> c \<in> H" using H'(2) that(2) by blast
    moreover have "buf_ok me H c (f_ide s) (f_buf s c)" using inv that(1) by (simp add: cache_inv_def)
    ultimately show ?thesis by (simp add: buf_ok_def)
  qed
  have "\<forall>c < NBUF. \<forall>e < NBUF. b_dev (f_buf t c) = 1 \<longrightarrow> b_dev (f_buf t e) = 1 \<longrightarrow>
      b_blockno (f_buf t c) = b_blockno (f_buf t e) \<longrightarrow> c = e"
  proof (intro allI impI)
    fix c e
    assume "c < NBUF" "e < NBUF" "b_dev (f_buf t c) = 1" "b_dev (f_buf t e) = 1" "b_blockno (f_buf t c) = b_blockno (f_buf t e)"
    then show "c = e"
      using inv uniq [of c] uniq [of e] unfolding t(4) cache_inv_def by (simp split: if_splits)
  qed
  moreover have "\<forall>c < NBUF. buf_ok me H' c (f_ide t) (f_buf t c)" using other x by (simp add: same t(4))
  ultimately show ?thesis
    using inv t disk_ok_same [OF t(3)] H'(1) by (simp add: cache_inv_def)
qed

lemma content_upd:
  assumes inv: "cache_inv me H s" "cache_inv me H' t" and b: "b < NBUF"
    and t: "id_disk (f_ide t) = id_disk (f_ide s)" "f_buf t = (f_buf s)(b := x)"
  shows "content t n = (if b_dev x = 1 \<and> b_blockno x = n then b_data x
      else if b_dev (f_buf s b) = 1 \<and> b_blockno (f_buf s b) = n then id_disk (f_ide s) 1 (unat n) else content s n)"
proof (cases "cached 1 n t")
  case None
  have no: "\<not> (b_dev (f_buf t c) = 1 \<and> b_blockno (f_buf t c) = n)" if "c < NBUF" for c
    using cached_NoneD [OF inv(2) None that] .
  have x: "\<not> (b_dev x = 1 \<and> b_blockno x = n)" using no [OF b] t(2) by simp
  have ct: "content t n = id_disk (f_ide s) 1 (unat n)" using None t(1) by (simp add: content_def)
  show ?thesis
  proof (cases "b_dev (f_buf s b) = 1 \<and> b_blockno (f_buf s b) = n")
    case True
    then show ?thesis using x ct by auto
  next
    case False
    have "cached 1 n s = None"
    proof (rule ccontr)
      assume "cached 1 n s \<noteq> None"
      then obtain c where "cached 1 n s = Some c" by auto
      then have "c < NBUF" "b_dev (f_buf s c) = 1 \<and> b_blockno (f_buf s c) = n" "c \<noteq> b"
        using cached_SomeD [OF inv(1)] False by auto
      then show False using no [of c] t(2) by simp
    qed
    then show ?thesis using x ct False by (auto simp: content_def)
  qed
next
  case (Some c)
  have c: "c < NBUF" "b_dev (f_buf t c) = 1" "b_blockno (f_buf t c) = n" using cached_SomeD [OF inv(2) Some] by simp_all
  show ?thesis
  proof (cases "c = b")
    case True
    then show ?thesis using c Some t(2) by (simp add: content_def)
  next
    case False
    then have sc: "b_dev (f_buf s c) = 1" "b_blockno (f_buf s c) = n" using c t(2) by simp_all
    have "\<not> (b_dev x = 1 \<and> b_blockno x = n)"
      using cached_SomeI [OF inv(2) b, of n] Some False t(2) by auto
    moreover have "\<not> (b_dev (f_buf s b) = 1 \<and> b_blockno (f_buf s b) = n)"
      using cached_SomeI [OF inv(1) b, of n] cached_SomeI [OF inv(1) c(1) sc] False by auto
    ultimately show ?thesis
      using cached_SomeI [OF inv(1) c(1) sc] Some False t(2) by (auto simp: content_def)
  qed
qed

section \<open>Effects of the operations\<close>

definition reads :: "int \<Rightarrow> nat set \<Rightarrow> 'z bio_scheme \<Rightarrow> uint \<Rightarrow> nat \<Rightarrow> 'z bio_scheme \<Rightarrow> bool" where
  "reads me H s n b t \<longleftrightarrow>
     b \<notin> H \<and> b < NBUF \<and> cache_inv me (insert b H) t \<and> b_dev (f_buf t b) = 1 \<and> b_blockno (f_buf t b) = n \<and>
     b_data (f_buf t b) = content s n \<and> content t = content s \<and> id_disk (f_ide t) = id_disk (f_ide s) \<and>
     id_writes (f_ide t) = id_writes (f_ide s) \<and> dirty t = dirty s \<and> (\<forall>c. c \<noteq> b \<longrightarrow> f_buf t c = f_buf s c) \<and>
     (b \<in> dirty s \<longrightarrow> b_blockno (f_buf s b) = n) \<and> bio.more t = bio.more s"

lemma not_held_free:
  assumes "cache_inv me H s" "b < NBUF" "b \<notin> H"
  shows "sk_locked (b_lock (f_buf s b)) = 0" "b_refcnt (f_buf s b) = 0"
  using assms by (auto simp: cache_inv_def buf_ok_def)

lemma dev1_ok:
  assumes "cache_inv me H s" "b < NBUF" "b_dev (f_buf s b) = 1"
  shows "bit (b_flags (f_buf s b)) 1" "b_blockno (f_buf s b) < of_nat FSSIZE"
    "b \<in> H \<or> bit (b_flags (f_buf s b)) 2 \<or> b_data (f_buf s b) = id_disk (f_ide s) 1 (unat (b_blockno (f_buf s b)))"
  using assms by (auto simp: cache_inv_def buf_ok_def)

lemma begin_finish_clean:
  assumes "\<not> bit (b_flags (f_buf s b)) 2" "\<And>n. \<not> id_fault (f_ide s) 1 n" "b_dev (f_buf s b) = 1"
  shows "f_buf (finish_req b (begin_req b s)) = (f_buf s)(b := (f_buf s b)\<lparr>b_data := id_disk (f_ide s) 1 (unat (b_blockno (f_buf s b))),
      b_flags := (b_flags (f_buf s b) OR B_VALID) AND NOT B_DIRTY\<rparr>)"
    "ide_same (f_ide s) (f_ide (finish_req b (begin_req b s)))"
    "id_writes (f_ide (finish_req b (begin_req b s))) = id_writes (f_ide s)"
    "f_lru (finish_req b (begin_req b s)) = f_lru s" "bio.more (finish_req b (begin_req b s)) = bio.more s"
proof -
  have d: "drive 1 = 1" by (simp add: drive_def)
  have more: "bio.more (upd_buf b g r) = bio.more r" "bio.more (upd_ide h r) = bio.more r" "bio.more (wake c r) = bio.more r"
    for g h c and r :: "'a bio_scheme" by (simp_all add: upd_buf_def upd_ide_def wake_def)
  show "f_buf (finish_req b (begin_req b s)) = (f_buf s)(b := (f_buf s b)\<lparr>b_data := id_disk (f_ide s) 1 (unat (b_blockno (f_buf s b))),
      b_flags := (b_flags (f_buf s b) OR B_VALID) AND NOT B_DIRTY\<rparr>)"
    using assms d by (simp add: finish_req_def begin_req_def Let_def and_flag)
  show "ide_same (f_ide s) (f_ide (finish_req b (begin_req b s)))" "id_writes (f_ide (finish_req b (begin_req b s))) = id_writes (f_ide s)"
    using assms by (simp_all add: begin_req_def Let_def and_flag ide_same_def)
  show "bio.more (finish_req b (begin_req b s)) = bio.more s"
    by (simp add: finish_req_def begin_req_def Let_def more)
qed simp

lemma bread_hit:
  assumes inv: "cache_inv me H s" and c: "cached 1 n s = Some b" and b: "b \<notin> H"
  shows "\<exists>t. bread me 1 n s = Ok (b, t) \<and> reads me H s n b t"
proof -
  let ?x = "(f_buf s b)\<lparr>b_refcnt := 1, b_lock := (b_lock (f_buf s b))\<lparr>sk_locked := 1, sk_pid := me\<rparr>\<rparr>"
  let ?t = "s\<lparr>f_buf := (f_buf s)(b := ?x)\<rparr>"
  note cd = cached_SomeD [OF inv c]
  note free = not_held_free [OF inv cd(1) b]
  note ok = dev1_ok [OF inv cd(1,2)]
  have run: "bread me 1 n s = Ok (b, ?t)"
    using c free ok(1) by (simp add: bread_def bget_def lock_buf_def acquiresleep_def upd_buf_def and_flag)
  have inv': "cache_inv me (insert b H) ?t"
  proof (rule cache_inv_upd [OF inv cd(1), of ?t ?x])
    show "buf_ok me (insert b H) b (f_ide s) ?x" using cd ok by (simp add: buf_ok_def holdingsleep_def)
    show "b_blockno (f_buf s e) \<noteq> b_blockno ?x" if "e < NBUF" "e \<noteq> b" "b_dev (f_buf s e) = 1" for e
      using inv that cd by (auto simp: cache_inv_def)
  qed (use inv cd(1) in \<open>auto simp: cache_inv_def\<close>)
  have "content ?t = content s"
  proof
    fix m
    show "content ?t m = content s m"
      using content_upd [OF inv inv' cd(1), of ?x m] cd content_cached [OF inv cd(1,2)] by auto
  qed
  moreover have "dirty ?t = dirty s" by (auto simp: dirty_def)
  moreover have "b_data ?x = content s n" using content_cached [OF inv cd(1,2)] cd(3) by simp
  ultimately show ?thesis using run inv' b cd by (auto simp: reads_def)
qed

lemma bread_miss:
  assumes inv: "cache_inv me H s" and c: "cached 1 n s = None" and n: "n < of_nat FSSIZE"
    and sp: "e < NBUF" "e \<notin> H" "e \<notin> dirty s"
  shows "\<exists>b t. bread me 1 n s = Ok (b, t) \<and> reads me H s n b t"
proof -
  have "e \<in> set (f_lru s)" using inv sp(1) by (simp add: cache_inv_def)
  moreover have "b_refcnt (f_buf s e) = 0 \<and> b_flags (f_buf s e) AND B_DIRTY = 0"
    using not_held_free(2) [OF inv sp(1,2)] sp by (simp add: dirty_def and_flag)
  ultimately have "spare s \<noteq> None" by (auto simp: spare_def find_None_iff)
  then obtain b where b: "spare s = Some b" by auto
  then have "b \<in> set (f_lru s) \<and> b_refcnt (f_buf s b) = 0 \<and> b_flags (f_buf s b) AND B_DIRTY = 0"
    unfolding spare_def by (auto dest: find_some)
  then have bp: "b < NBUF" "b_refcnt (f_buf s b) = 0" "\<not> bit (b_flags (f_buf s b)) 2"
    using inv by (auto simp: cache_inv_def and_flag)
  have bH: "b \<notin> H" using inv bp(1,2) by (auto simp: cache_inv_def buf_ok_def)
  let ?y = "(f_buf s b)\<lparr>b_dev := 1, b_blockno := n, b_flags := 0, b_refcnt := 1,
      b_lock := (b_lock (f_buf s b))\<lparr>sk_locked := 1, sk_pid := me\<rparr>\<rparr>"
  let ?s = "s\<lparr>f_buf := (f_buf s)(b := ?y)\<rparr>"
  let ?t = "finish_req b (begin_req b ?s)"
  let ?x = "?y\<lparr>b_data := id_disk (f_ide s) 1 (unat n), b_flags := (0 OR B_VALID) AND NOT B_DIRTY\<rparr>"
  have d: "ready (f_ide s)" "id_queue (f_ide s) = []" "\<And>n. \<not> id_fault (f_ide s) 1 n"
    using inv by (simp_all add: cache_inv_def disk_ok_def)
  have "0 AND (B_VALID OR B_DIRTY) \<noteq> B_VALID" by (simp add: B_VALID_def)
  then have "iderw me b ?s = Ok ?t"
    using d n by (intro iderw_run) (simp_all add: holdingsleep_def unsynced_def)
  then have run: "bread me 1 n s = Ok (b, ?t)"
    using c b not_held_free(1) [OF inv bp(1) bH]
    by (simp add: bread_def bget_def lock_buf_def acquiresleep_def upd_buf_def)
  have pre: "\<not> bit (b_flags (f_buf ?s b)) 2" "\<And>n. \<not> id_fault (f_ide ?s) 1 n" "b_dev (f_buf ?s b) = 1" using d(3) by simp_all
  note eff = begin_finish_clean [OF pre]
  have ft: "f_buf ?t = (f_buf s)(b := ?x)" using eff(1) by simp
  have valid: "bit ((0 OR B_VALID) AND NOT B_DIRTY) 1" "\<not> bit ((0 OR B_VALID) AND NOT B_DIRTY) 2" by (simp_all add: bit_simps bit_flags)
  have inv': "cache_inv me (insert b H) ?t"
  proof (rule cache_inv_upd [OF inv bp(1) _ _ _ ft])
    show "buf_ok me (insert b H) b (f_ide s) ?x" using n valid by (simp add: buf_ok_def holdingsleep_def)
    show "b_blockno (f_buf s e) \<noteq> b_blockno ?x" if "e < NBUF" "b_dev (f_buf s e) = 1" for e
      using cached_NoneD [OF inv c that(1)] that by simp
  qed (use inv bp(1) eff in \<open>auto simp: cache_inv_def\<close>)
  have dsk: "id_disk (f_ide ?t) = id_disk (f_ide s)" using eff(2) by (simp add: ide_same_def)
  have "content ?t m = content s m" for m
  proof (cases "b_dev (f_buf s b) = 1 \<and> b_blockno (f_buf s b) = m")
    case True
    then show ?thesis
      using content_upd [OF inv inv' bp(1) dsk ft, of m] dev1_ok(3) [OF inv bp(1)] bp(3) bH content_cached [OF inv bp(1)] by auto
  next
    case False
    then show ?thesis
      using content_upd [OF inv inv' bp(1) dsk ft, of m] c by (auto simp: content_def)
  qed
  then have "content ?t = content s" by (rule ext)
  moreover have "dirty ?t = dirty s" using bp(3) valid(2) by (auto simp: dirty_def ft)
  moreover have "content s n = id_disk (f_ide s) 1 (unat n)" using c by (simp add: content_def)
  ultimately have "reads me H s n b ?t"
    using inv' bH bp(1,3) ft dsk eff by (auto simp: reads_def dirty_def)
  then show ?thesis using run by blast
qed

lemma bread_run:
  assumes "cache_inv me H s" "n < of_nat FSSIZE" "\<And>b. b \<in> H \<Longrightarrow> b_blockno (f_buf s b) \<noteq> n"
    and "cached 1 n s \<noteq> None \<or> (\<exists>e < NBUF. e \<notin> H \<and> e \<notin> dirty s)"
  shows "\<exists>b t. bread me 1 n s = Ok (b, t) \<and> reads me H s n b t"
proof (cases "cached 1 n s")
  case None
  then show ?thesis using bread_miss [OF assms(1)] assms(2,4) by blast
next
  case (Some b)
  then show ?thesis using bread_hit [OF assms(1) Some] assms(3) cached_SomeD(3) [OF assms(1) Some] by blast
qed

lemma more_upd [simp]:
  "bio.more (upd_buf b g r) = bio.more r" "bio.more (upd_ide h r) = bio.more r" "bio.more (wake c r) = bio.more r"
  by (simp_all add: upd_buf_def upd_ide_def wake_def)

lemma heldD:
  assumes "cache_inv me H s" "b \<in> H"
  shows "b < NBUF" "holdingsleep me (b_lock (f_buf s b))" "b_refcnt (f_buf s b) = 1" "b_dev (f_buf s b) = 1"
    "bit (b_flags (f_buf s b)) 1" "b_blockno (f_buf s b) < of_nat FSSIZE" "buf_ok me H b (f_ide s) (f_buf s b)"
proof -
  show b: "b < NBUF" using assms by (auto simp: cache_inv_def)
  show ok: "buf_ok me H b (f_ide s) (f_buf s b)" using assms(1) b by (simp add: cache_inv_def)
  show "holdingsleep me (b_lock (f_buf s b))" "b_refcnt (f_buf s b) = 1" "b_dev (f_buf s b) = 1"
    "bit (b_flags (f_buf s b)) 1" "b_blockno (f_buf s b) < of_nat FSSIZE"
    using ok assms(2) by (auto simp: buf_ok_def)
qed

lemma other_block:
  assumes "cache_inv me H s" "b < NBUF" "c < NBUF" "c \<noteq> b" "b_dev (f_buf s b) = 1" "b_dev (f_buf s c) = 1"
  shows "b_blockno (f_buf s c) \<noteq> b_blockno (f_buf s b)"
  using assms by (auto simp: cache_inv_def)

text \<open>A change of a held buffer that keeps its lock, device and block.\<close>

lemma held_upd:
  assumes inv: "cache_inv me H s" and b: "b \<in> H"
    and t: "f_buf t = (f_buf s)(b := x)" "f_lru t = f_lru s" "f_ide t = f_ide s"
    and x: "b_lock x = b_lock (f_buf s b)" "b_refcnt x = b_refcnt (f_buf s b)" "b_dev x = b_dev (f_buf s b)"
      "b_blockno x = b_blockno (f_buf s b)" "bit (b_flags x) 1"
  shows "cache_inv me H t" "content t = (content s)(b_blockno (f_buf s b) := b_data x)"
proof -
  note h = heldD [OF inv b]
  show inv': "cache_inv me H t"
  proof (rule cache_inv_upd [OF inv h(1) _ _ _ t(1)])
    show "buf_ok me H b (f_ide s) x" using h(2-6) b x by (simp add: buf_ok_def)
    show "b_blockno (f_buf s c) \<noteq> b_blockno x" if "c < NBUF" "c \<noteq> b" "b_dev (f_buf s c) = 1" for c
      using other_block [OF inv h(1) that(1,2) h(4) that(3)] x by simp
  qed (use inv t in \<open>auto simp: cache_inv_def\<close>)
  show "content t = (content s)(b_blockno (f_buf s b) := b_data x)"
    using content_upd [OF inv inv' h(1) _ t(1)] t(3) h(4) x by (intro ext) auto
qed

lemma set_data_run:
  assumes "cache_inv me H s" "b \<in> H"
  shows "cache_inv me H (set_data b v s)" "content (set_data b v s) = (content s)(b_blockno (f_buf s b) := v)"
    "dirty (set_data b v s) = dirty s" "f_ide (set_data b v s) = f_ide s" "bio.more (set_data b v s) = bio.more s"
    "f_buf (set_data b v s) = (f_buf s)(b := (f_buf s b)\<lparr>b_data := v\<rparr>)"
  using held_upd [OF assms, of "set_data b v s"] heldD(5) [OF assms] by (auto simp: set_data_def dirty_def)

definition pin :: "nat \<Rightarrow> 'z bio_scheme \<Rightarrow> 'z bio_scheme" where
  "pin b s = upd_buf b (\<lambda>x. x\<lparr>b_flags := b_flags x OR B_DIRTY\<rparr>) s"

lemma pin_run:
  assumes "cache_inv me H s" "b \<in> H"
  shows "cache_inv me H (pin b s)" "content (pin b s) = content s"
    "dirty (pin b s) = insert b (dirty s)" "f_ide (pin b s) = f_ide s" "bio.more (pin b s) = bio.more s"
    "f_buf (pin b s) = (f_buf s)(b := (f_buf s b)\<lparr>b_flags := b_flags (f_buf s b) OR B_DIRTY\<rparr>)"
  using held_upd [OF assms, of "pin b s"] heldD(1,5) [OF assms] content_cached [OF assms(1) heldD(1,4) [OF assms]]
  by (auto simp: pin_def dirty_def bit_simps bit_flags)

lemma brelse_run:
  assumes inv: "cache_inv me H s" and b: "b \<in> H"
    and clean: "b \<in> dirty s \<or> b_data (f_buf s b) = id_disk (f_ide s) 1 (unat (b_blockno (f_buf s b)))"
  shows "\<exists>t. brelse me b s = Ok t \<and> cache_inv me (H - {b}) t \<and> content t = content s \<and> f_ide t = f_ide s \<and>
     dirty t = dirty s \<and> (\<forall>c. c \<noteq> b \<longrightarrow> f_buf t c = f_buf s c) \<and> b_dev (f_buf t b) = 1 \<and>
     b_blockno (f_buf t b) = b_blockno (f_buf s b) \<and> bio.more t = bio.more s"
proof -
  note h = heldD [OF inv b]
  let ?x = "(f_buf s b)\<lparr>b_lock := releasesleep (b_lock (f_buf s b)), b_refcnt := 0\<rparr>"
  let ?t = "(wake (CBufLock b) s)\<lparr>f_buf := (f_buf s)(b := ?x), f_lru := b # remove1 b (f_lru s)\<rparr>"
  have run: "brelse me b s = Ok ?t"
    using h(2,3) by (simp add: brelse_def release_buf_def Let_def upd_buf_def wake_def)
  have inv': "cache_inv me (H - {b}) ?t"
  proof (rule cache_inv_upd [OF inv h(1), of ?t ?x])
    show "buf_ok me (H - {b}) b (f_ide s) ?x"
      using h clean by (auto simp: buf_ok_def releasesleep_def dirty_def)
    show "b_blockno (f_buf s c) \<noteq> b_blockno ?x" if "c < NBUF" "c \<noteq> b" "b_dev (f_buf s c) = 1" for c
      using other_block [OF inv h(1) that(1,2) h(4) that(3)] by simp
  qed (use inv h(1) in \<open>auto simp: cache_inv_def\<close>)
  have "content ?t = content s"
    using content_upd [OF inv inv' h(1), of ?x] content_cached [OF inv h(1,4)] h(4) by (intro ext) auto
  moreover have "dirty ?t = dirty s" by (auto simp: dirty_def)
  ultimately show ?thesis using run inv' h(4) by (auto simp: wake_def)
qed

lemma bwrite_run:
  assumes inv: "cache_inv me H s" and b: "b \<in> H"
  shows "\<exists>t. bwrite me b s = Ok t \<and> cache_inv me H t \<and> content t = content s \<and>
     id_disk (f_ide t) = (id_disk (f_ide s))(1 := (id_disk (f_ide s) 1)(unat (b_blockno (f_buf s b)) := b_data (f_buf s b))) \<and>
     id_writes (f_ide t) = id_writes (f_ide s) @ [(1, unat (b_blockno (f_buf s b)), b_data (f_buf s b))] \<and>
     dirty t = dirty s - {b} \<and> (\<forall>c. c \<noteq> b \<longrightarrow> f_buf t c = f_buf s c) \<and> b_dev (f_buf t b) = 1 \<and>
     b_blockno (f_buf t b) = b_blockno (f_buf s b) \<and> b_data (f_buf t b) = b_data (f_buf s b) \<and> bio.more t = bio.more s"
proof -
  note h = heldD [OF inv b]
  let ?s = "pin b s"
  let ?t = "finish_req b (begin_req b ?s)"
  let ?n = "unat (b_blockno (f_buf s b))"
  let ?fl = "((b_flags (f_buf s b) OR B_DIRTY) OR B_VALID) AND NOT B_DIRTY"
  let ?x = "(f_buf s b)\<lparr>b_flags := ?fl\<rparr>"
  have d: "ready (f_ide s)" "id_queue (f_ide s) = []" "\<And>n. \<not> id_fault (f_ide s) 1 n"
    using inv by (simp_all add: cache_inv_def disk_ok_def)
  have dirt: "bit (b_flags (f_buf s b) OR B_DIRTY) 2" by (simp add: bit_simps bit_flags)
  have "(b_flags (f_buf s b) OR B_DIRTY) AND (B_VALID OR B_DIRTY) \<noteq> B_VALID"
    using bit_flags(1) [of 2] dirt by (auto simp: bit_simps bit_flags dest!: arg_cong [of _ _ "\<lambda>w. bit w 2"])
  then have "iderw me b ?s = Ok ?t"
    using d h by (intro iderw_run) (simp_all add: unsynced_def pin_def)
  then have run: "bwrite me b s = Ok ?t" using h(2) by (simp add: bwrite_def pin_def)
  have d1: "drive 1 = 1" by (simp add: drive_def)
  have ft: "f_buf ?t = (f_buf s)(b := ?x)"
    using dirt by (simp add: finish_req_def begin_req_def Let_def and_flag pin_def upd_buf_def)
  have it: "id_disk (f_ide ?t) = (id_disk (f_ide s))(1 := (id_disk (f_ide s) 1)(?n := b_data (f_buf s b)))"
    "id_writes (f_ide ?t) = id_writes (f_ide s) @ [(1, ?n, b_data (f_buf s b))]"
    "id_fault (f_ide ?t) = id_fault (f_ide s)" "id_queue (f_ide ?t) = id_queue (f_ide s)" "ready (f_ide ?t) = ready (f_ide s)"
    using dirt h(4,6) d1 by (simp_all add: begin_req_def Let_def and_flag outsl_def pin_def ready_def)
  have fl: "bit ?fl 1" "\<not> bit ?fl 2" by (simp_all add: bit_simps bit_flags)
  have dv: "b_dev (f_buf ?t c) = b_dev (f_buf s c)" "b_blockno (f_buf ?t c) = b_blockno (f_buf s c)" for c
    by (simp_all add: ft)
  have lru: "f_lru ?t = f_lru s" by (simp add: pin_def)
  have "buf_ok me H c (f_ide ?t) (f_buf ?t c)" if c: "c < NBUF" for c
  proof (cases "c = b")
    case True
    then show ?thesis using h b fl by (simp add: buf_ok_def ft)
  next
    case False
    have ok: "buf_ok me H c (f_ide s) (f_buf s c)" using inv c by (simp add: cache_inv_def)
    show ?thesis
    proof (cases "b_dev (f_buf s c) = 1")
      case True
      then have "unat (b_blockno (f_buf s c)) \<noteq> ?n" using other_block [OF inv h(1) c False h(4)] by (simp add: word_unat_eq_iff)
      then show ?thesis using ok False it(1) by (simp add: buf_ok_def ft)
    next
      case dev: False
      then show ?thesis using ok False by (auto simp: buf_ok_def ft)
    qed
  qed
  then have inv': "cache_inv me H ?t"
    using inv it(3-5) unfolding cache_inv_def disk_ok_def dv lru by simp
  have cch: "cached 1 m ?t = cached 1 m s" for m unfolding cached_def dv lru ..
  have "content ?t m = content s m" for m
  proof (cases "cached 1 m s")
    case None
    then have "unat m \<noteq> ?n" using cached_NoneD [OF inv None h(1)] h(4) by (auto simp: word_unat_eq_iff)
    then show ?thesis using None it(1) by (simp add: content_def cch)
  next
    case (Some c)
    then show ?thesis by (simp add: content_def cch ft)
  qed
  then have "content ?t = content s" by (rule ext)
  moreover have "dirty ?t = dirty s - {b}" using fl by (auto simp: dirty_def ft)
  moreover have "bio.more ?t = bio.more s" by (simp add: finish_req_def begin_req_def Let_def pin_def)
  ultimately show ?thesis using run inv' it(1,2) ft h(4) by (auto simp: fun_upd_def)
qed

section \<open>The cache as a block store\<close>

text \<open>The two ways in which clients use the cache: read a block, or replace it and write it through.\<close>

definition rd_block :: "int \<Rightarrow> uint \<Rightarrow> 'z bio_scheme \<Rightarrow> (block \<times> 'z bio_scheme) res" where
  "rd_block me n s =
     bindR (bread me 1 n s) (\<lambda>(b, s).
       let v = b_data (f_buf s b) in bindR (brelse me b s) (\<lambda>s. Ok (v, s)))"

definition wr_block :: "int \<Rightarrow> uint \<Rightarrow> block \<Rightarrow> 'z bio_scheme \<Rightarrow> 'z bio_scheme res" where
  "wr_block me n v s =
     bindR (bread me 1 n s) (\<lambda>(b, s).
     bindR (bwrite me b (set_data b v s)) (brelse me b))"

text \<open>No buffer is held and one is neither dirty.\<close>

definition idle :: "int \<Rightarrow> 'z bio_scheme \<Rightarrow> bool" where
  "idle me s \<longleftrightarrow> cache_inv me {} s \<and> (\<exists>e < NBUF. e \<notin> dirty s)"

lemma reads_clean:
  assumes inv: "cache_inv me H s" and r: "reads me H s n b t" and nh: "\<And>c. c \<in> H \<Longrightarrow> b_blockno (f_buf s c) \<noteq> n"
  shows "b \<in> dirty t \<or> b_data (f_buf t b) = id_disk (f_ide t) 1 (unat (b_blockno (f_buf t b)))"
proof (cases "cached 1 n s")
  case None
  then show ?thesis using r by (simp add: reads_def content_def)
next
  case (Some c)
  note cd = cached_SomeD [OF inv Some]
  have t: "cache_inv me (insert b H) t" "b < NBUF" "b_data (f_buf t b) = content s n" "b_dev (f_buf t b) = 1" "b_blockno (f_buf t b) = n"
    using r by (simp_all add: reads_def)
  show ?thesis
  proof (cases "c = b")
    case True
    have "content s n = b_data (f_buf s b)" using Some True by (simp add: content_def)
    then show ?thesis
      using dev1_ok(3) [OF inv cd(1,2)] True r cd(3) t nh [of b] by (auto simp: reads_def dirty_def)
  next
    case False
    then have "f_buf t c = f_buf s c" using r by (simp add: reads_def)
    then show ?thesis using other_block [OF t(1,2) cd(1) False t(4)] cd t(5) by simp
  qed
qed

lemma rd_block_run:
  assumes "cache_inv me {} s" "n < of_nat FSSIZE" "cached 1 n s \<noteq> None \<or> (\<exists>e < NBUF. e \<notin> dirty s)"
  shows "\<exists>t. rd_block me n s = Ok (content s n, t) \<and> cache_inv me {} t \<and> content t = content s \<and> dirty t = dirty s \<and>
     id_disk (f_ide t) = id_disk (f_ide s) \<and> id_writes (f_ide t) = id_writes (f_ide s) \<and> bio.more t = bio.more s"
proof -
  obtain b t where r: "bread me 1 n s = Ok (b, t)" "reads me {} s n b t"
    using bread_run [OF assms(1,2), of] assms(3) by auto
  then have inv: "cache_inv me {b} t" "b < NBUF" "b_data (f_buf t b) = content s n" "b_dev (f_buf t b) = 1" "b_blockno (f_buf t b) = n"
    by (simp_all add: reads_def)
  have "b \<in> dirty t \<or> b_data (f_buf t b) = id_disk (f_ide t) 1 (unat (b_blockno (f_buf t b)))"
    using reads_clean [OF assms(1) r(2)] by simp
  then obtain u where "brelse me b t = Ok u" "cache_inv me ({b} - {b}) u" "content u = content t" "f_ide u = f_ide t"
      "dirty u = dirty t" "bio.more u = bio.more t"
    using brelse_run [OF inv(1), of b] by blast
  then show ?thesis using r inv(3) by (auto simp: rd_block_def reads_def Let_def)
qed

lemma wr_block_run:
  assumes "cache_inv me {} s" "n < of_nat FSSIZE" "cached 1 n s \<noteq> None \<or> (\<exists>e < NBUF. e \<notin> dirty s)"
  shows "\<exists>t. wr_block me n v s = Ok t \<and> cache_inv me {} t \<and> content t = (content s)(n := v) \<and> dirty t \<subseteq> dirty s \<and>
     id_disk (f_ide t) = (id_disk (f_ide s))(1 := (id_disk (f_ide s) 1)(unat n := v)) \<and>
     id_writes (f_ide t) = id_writes (f_ide s) @ [(1, unat n, v)] \<and> bio.more t = bio.more s"
proof -
  obtain b t where r: "bread me 1 n s = Ok (b, t)" "reads me {} s n b t"
    using bread_run [OF assms(1,2), of] assms(3) by auto
  then have inv: "cache_inv me {b} t" "b_blockno (f_buf t b) = n" by (simp_all add: reads_def)
  note sd = set_data_run [OF inv(1), of b v, simplified]
  obtain u where u: "bwrite me b (set_data b v t) = Ok u" "cache_inv me {b} u" "content u = (content t)(n := v)"
      "id_disk (f_ide u) = (id_disk (f_ide t))(1 := (id_disk (f_ide t) 1)(unat n := v))"
      "id_writes (f_ide u) = id_writes (f_ide t) @ [(1, unat n, v)]" "dirty u = dirty t - {b}"
      "b_blockno (f_buf u b) = n" "b_data (f_buf u b) = v" "bio.more u = bio.more t"
    using bwrite_run [OF sd(1), of b] sd inv(2) by auto
  obtain w where "brelse me b u = Ok w" "cache_inv me ({b} - {b}) w" "content w = content u" "f_ide w = f_ide u"
      "dirty w = dirty u" "bio.more w = bio.more u"
    using brelse_run [OF u(2), of b] u(4,7,8) by auto
  then show ?thesis using r u by (auto simp: wr_block_def reads_def)
qed

interpretation bc: block_store "rd_block me" "wr_block me" "idle me" content "\<lambda>n. n < of_nat FSSIZE" for me
proof
  fix s :: "'a bio_scheme" and n :: uint
  assume "idle me s" "n < of_nat FSSIZE"
  then show "\<exists>t. rd_block me n s = Ok (content s n, t) \<and> idle me t \<and> content t = content s"
    using rd_block_run [of me s n] by (auto simp: idle_def)
next
  fix s :: "'a bio_scheme" and n :: uint and v
  assume "idle me s" "n < of_nat FSSIZE"
  then show "\<exists>t. wr_block me n v s = Ok t \<and> idle me t \<and> content t = (content s)(n := v)"
    using wr_block_run [of me s n v] by (auto simp: idle_def)
qed

section \<open>Properties\<close>

lemma binit_from_run:
  "f_lru (binit_from bs s) = rev bs @ f_lru s" "f_ide (binit_from bs s) = f_ide s"
  "distinct bs \<Longrightarrow> f_buf (binit_from bs s) b =
     (if b \<in> set bs then (f_buf s b)\<lparr>b_lock := initsleeplock ''buffer'' (b_lock (f_buf s b))\<rparr> else f_buf s b)"
  by (induction bs arbitrary: s) auto

lemma binit_idle:
  assumes "\<And>b. f_buf s b = bss_buf" "disk_ok (f_ide s)"
  shows "idle me (binit s)"
proof -
  note r = binit_from_run [where bs = "[0..<NBUF]" and s = "s\<lparr>f_lru := []\<rparr>"]
  have b: "f_buf (binit s) b = bss_buf\<lparr>b_lock := initsleeplock ''buffer'' bss_sleeplock\<rparr>" if "b < NBUF" for b
    using that r(3) [of b] assms(1) by (simp add: binit_def bss_buf_def)
  have "set (f_lru (binit s)) = {0..<NBUF}" "distinct (f_lru (binit s))" "f_ide (binit s) = f_ide s"
    unfolding binit_def r(1,2) by simp_all
  moreover have "\<exists>e < NBUF. e \<notin> dirty (binit s)" using b [of 0] by (intro exI [of _ 0]) (simp add: dirty_def bss_buf_def)
  ultimately show ?thesis
    using assms(2) b by (auto simp: idle_def cache_inv_def buf_ok_def bss_buf_def initsleeplock_def)
qed

definition boot_bio :: bio where
  "boot_bio = binit \<lparr>f_wakes = [], f_buf = (\<lambda>_. bss_buf), f_lru = [], f_ide = two_drives\<rparr>"

lemma boot_bio_idle: "idle me boot_bio"
  unfolding boot_bio_def by (rule binit_idle) (simp_all add: disk_ok_def two_drives_def ready_def)

text \<open>
  C11: The buffer cache is a faithful store of disk blocks. On a cache where no buffer is held and one is
  clean, any sequence of block replacements through \<^verbatim>\<open>bread\<close>, \<^verbatim>\<open>bwrite\<close> and \<^verbatim>\<open>brelse\<close>, on
  more blocks than the cache has buffers, succeeds; afterwards reading a block through \<^verbatim>\<open>bread\<close>
  and \<^verbatim>\<open>brelse\<close> gives the value last written to it, or the contents it had before, and the contents
  of all blocks are exactly those of the written ones.
\<close>

theorem buffer_cache_store:
  assumes "idle me s" "\<And>m v. (m, v) \<in> set ws \<Longrightarrow> m < of_nat FSSIZE" "n < of_nat FSSIZE"
  shows "\<exists>t u. write_list (wr_block me) ws s = Ok t \<and> rd_block me n t = Ok (upd_list ws (content s) n, u) \<and>
     content u = upd_list ws (content s)"
  using assms by (rule bc.read_back)

theorem buffer_cache_store_witness:
  "\<exists>t u. write_list (wr_block 1) [(5, \<lambda>_. 7), (6, \<lambda>_. 8), (5, \<lambda>_. 9)] boot_bio = Ok t \<and> rd_block 1 5 t = Ok (\<lambda>_. 9, u)"
proof -
  have "\<exists>t u. write_list (wr_block 1) [(5, \<lambda>_. 7), (6, \<lambda>_. 8), (5, \<lambda>_. 9)] boot_bio = Ok t \<and>
      rd_block 1 5 t = Ok (upd_list [(5, \<lambda>_. 7), (6, \<lambda>_. 8), (5, \<lambda>_. 9)] (content boot_bio) 5, u) \<and>
      content u = upd_list [(5, \<lambda>_. 7), (6, \<lambda>_. 8), (5, \<lambda>_. 9)] (content boot_bio)"
    by (rule buffer_cache_store [OF boot_bio_idle]) auto
  then show ?thesis by auto
qed

end
