(* ===== verification/Bytes.thy ===== *)
theory Bytes
  imports Prelude
begin

text \<open>
  Little-endian integers in arrays of bytes: the overlay of C structures on the data of a buffer
  (\<^verbatim>\<open>struct logheader\<close>, \<^verbatim>\<open>struct superblock\<close>, \<^verbatim>\<open>struct dinode\<close>, arrays of block numbers).
\<close>

definition get32 :: "(nat \<Rightarrow> uchar) \<Rightarrow> nat \<Rightarrow> uint" where
  "get32 v i = ucast (v i) OR push_bit 8 (ucast (v (i + 1))) OR push_bit 16 (ucast (v (i + 2))) OR
     push_bit 24 (ucast (v (i + 3)))"

definition put32 :: "nat \<Rightarrow> uint \<Rightarrow> (nat \<Rightarrow> uchar) \<Rightarrow> nat \<Rightarrow> uchar" where
  "put32 i w v = v(i := ucast w, i + 1 := ucast (drop_bit 8 w), i + 2 := ucast (drop_bit 16 w), i + 3 := ucast (drop_bit 24 w))"

definition get16 :: "(nat \<Rightarrow> uchar) \<Rightarrow> nat \<Rightarrow> ushort" where
  "get16 v i = ucast (v i) OR push_bit 8 (ucast (v (i + 1)))"

definition put16 :: "nat \<Rightarrow> ushort \<Rightarrow> (nat \<Rightarrow> uchar) \<Rightarrow> nat \<Rightarrow> uchar" where
  "put16 i w v = v(i := ucast w, i + 1 := ucast (drop_bit 8 w))"

lemma word32_bytes:
  "ucast (ucast w :: uchar) OR push_bit 8 (ucast (ucast (drop_bit 8 w) :: uchar)) OR
   push_bit 16 (ucast (ucast (drop_bit 16 w) :: uchar)) OR push_bit 24 (ucast (ucast (drop_bit 24 w) :: uchar)) = (w :: uint)"
proof (rule bit_word_eqI)
  fix n assume n: "n < LENGTH(32)"
  consider "n < 8" | "8 \<le> n" "n < 16" | "16 \<le> n" "n < 24" | "24 \<le> n" by linarith
  then show "bit (ucast (ucast w :: uchar) OR push_bit 8 (ucast (ucast (drop_bit 8 w) :: uchar)) OR
   push_bit 16 (ucast (ucast (drop_bit 16 w) :: uchar)) OR push_bit 24 (ucast (ucast (drop_bit 24 w) :: uchar)) :: uint) n = bit w n"
    by cases (use n in \<open>auto simp: bit_simps\<close>)
qed

lemma word16_bytes:
  "ucast (ucast w :: uchar) OR push_bit 8 (ucast (ucast (drop_bit 8 w) :: uchar)) = (w :: ushort)"
  by (rule bit_word_eqI) (auto simp: bit_simps)

lemma get32_put32 [simp]: "get32 (put32 i w v) i = w"
  by (simp add: get32_def put32_def word32_bytes)

lemma get16_put16 [simp]: "get16 (put16 i w v) i = w"
  by (simp add: get16_def put16_def word16_bytes)

lemma put_other [simp]:
  "j < i \<or> i + 4 \<le> j \<Longrightarrow> put32 i w v j = v j"
  "j < i \<or> i + 2 \<le> j \<Longrightarrow> put16 i u v j = v j"
  by (auto simp: put32_def put16_def)

lemma get32_cong:
  assumes "\<And>k. k < 4 \<Longrightarrow> u (i + k) = v (i + k)"
  shows "get32 u i = get32 v i"
  using assms [of 0] assms [of 1] assms [of 2] assms [of 3] by (simp add: get32_def)

lemma get16_cong: "u i = v i \<Longrightarrow> u (i + 1) = v (i + 1) \<Longrightarrow> get16 u i = get16 v i"
  by (simp add: get16_def)

lemma get_put_other [simp]:
  "j + 4 \<le> i \<or> i + 4 \<le> j \<Longrightarrow> get32 (put32 i w v) j = get32 v j"
  "j + 2 \<le> i \<or> i + 4 \<le> j \<Longrightarrow> get16 (put32 i w v) j = get16 v j"
  "j + 4 \<le> i \<or> i + 2 \<le> j \<Longrightarrow> get32 (put16 i u v) j = get32 v j"
  "j + 2 \<le> i \<or> i + 2 \<le> j \<Longrightarrow> get16 (put16 i u v) j = get16 v j"
  by (auto intro!: get32_cong get16_cong)

end
