(* ===== verification/Crash.thy ===== *)
theory Crash
  imports Log
begin

text \<open>
  Crash safety of the log. The cache is seen through the contents of the blocks, the set of pinned
  (dirty) blocks, the sectors of the disk and the history of disk writes; each step of a commit is
  described in these terms, and a crash is a prefix of the writes.
\<close>

section \<open>The cache seen by the log\<close>

definition pinned :: "'z bio_scheme \<Rightarrow> uint set" where
  "pinned s = (\<lambda>b. b_blockno (f_buf s b)) ` dirty s"

lemma dirty_dev:
  assumes "cache_inv me H s" "b \<in> dirty s"
  shows "b < NBUF" "b_dev (f_buf s b) = 1"
  using assms by (auto simp: cache_inv_def buf_ok_def dirty_def)

lemma pinned_inj:
  assumes "cache_inv me H s"
  shows "inj_on (\<lambda>b. b_blockno (f_buf s b)) (dirty s)"
proof (rule inj_onI)
  fix b c assume bc: "b \<in> dirty s" "c \<in> dirty s" "b_blockno (f_buf s b) = b_blockno (f_buf s c)"
  show "b = c"
    using other_block [OF assms, of c b] dirty_dev [OF assms bc(1)] dirty_dev [OF assms bc(2)] bc(3) by blast
qed

lemma finite_dirty [simp]: "finite (dirty s)"
  by (rule finite_subset [of _ "{0..<NBUF}"]) (auto simp: dirty_def)

lemma clean_exists:
  assumes "cache_inv me H s" "card (pinned s) + card H < NBUF"
  shows "\<exists>e < NBUF. e \<notin> H \<and> e \<notin> dirty s"
proof (rule ccontr)
  assume "\<not> ?thesis"
  then have "{0..<NBUF} \<subseteq> H \<union> dirty s" by auto
  moreover have "finite H" using assms(1) finite_subset [of H "{0..<NBUF}"] by (simp add: cache_inv_def)
  ultimately have "card {0..<NBUF} \<le> card (H \<union> dirty s)" by (intro card_mono) auto
  also have "\<dots> \<le> card H + card (dirty s)" by (rule card_Un_le)
  also have "card (dirty s) = card (pinned s)" using pinned_inj [OF assms(1)] by (simp add: pinned_def card_image)
  finally show False using assms(2) by simp
qed

lemma pinned_cached:
  assumes "cache_inv me H s" "n \<in> pinned s"
  shows "cached 1 n s \<noteq> None"
proof -
  obtain b where b: "b \<in> dirty s" "b_blockno (f_buf s b) = n" using assms(2) by (auto simp: pinned_def)
  then show ?thesis using cached_SomeI [OF assms(1) dirty_dev [OF assms(1) b(1)] b(2)] by simp
qed

lemma pinned_same:
  assumes inv: "cache_inv me H s" "cache_inv me K t" and d: "dirty t = dirty s"
    and f: "\<forall>c. c \<noteq> b \<longrightarrow> f_buf t c = f_buf s c" and n: "b \<in> dirty s \<Longrightarrow> b_blockno (f_buf t b) = b_blockno (f_buf s b)"
  shows "pinned t = pinned s"
proof -
  have "b_blockno (f_buf t c) = b_blockno (f_buf s c)" if "c \<in> dirty s" for c using f n that by (cases "c = b") auto
  then show ?thesis by (simp add: pinned_def d cong: image_cong)
qed

text \<open>A buffer that \<^const>\<open>bread\<close> returns and that is pinned had the same block before.\<close>

lemma reads_pinned:
  assumes inv: "cache_inv me H s" and r: "reads me H s n b t"
  shows "pinned t = pinned s"
proof (rule pinned_same [OF inv, of "insert b H" t b])
  show "cache_inv me (insert b H) t" "dirty t = dirty s" "\<forall>c. c \<noteq> b \<longrightarrow> f_buf t c = f_buf s c"
    using r by (simp_all add: reads_def)
qed (use r in \<open>simp add: reads_def\<close>)

text \<open>What the log knows of the cache when no buffer is held.\<close>

definition cview :: "int \<Rightarrow> 'z bio_scheme \<Rightarrow> (uint \<Rightarrow> block) \<Rightarrow> uint set \<Rightarrow> (nat \<Rightarrow> block) \<Rightarrow> (nat \<times> nat \<times> block) list \<Rightarrow> bool" where
  "cview me s C B D W \<longleftrightarrow>
     cache_inv me {} s \<and> content s = C \<and> pinned s = B \<and> id_disk (f_ide s) 1 = D \<and> id_writes (f_ide s) = W"

text \<open>Writing one held buffer's data into another held buffer and through to disk, then releasing both.\<close>

lemma copy_tail:
  assumes inv: "cache_inv me {x, y} s" and xy: "x \<noteq> y"
    and src: "x \<in> dirty s \<or> b_data (f_buf s x) = id_disk (f_ide s) 1 (unat (b_blockno (f_buf s x)))"
  shows "\<exists>t. bindR (bwrite me y (set_data y (b_data (f_buf s x)) s)) (\<lambda>s. bindR (brelse me x s) (brelse me y)) = Ok t \<and>
     cview me t ((content s)(b_blockno (f_buf s y) := b_data (f_buf s x))) (pinned s - {b_blockno (f_buf s y)})
       ((id_disk (f_ide s) 1)(unat (b_blockno (f_buf s y)) := b_data (f_buf s x)))
       (id_writes (f_ide s) @ [(1, unat (b_blockno (f_buf s y)), b_data (f_buf s x))]) \<and> bio.more t = bio.more s"
proof -
  let ?v = "b_data (f_buf s x)" and ?n = "b_blockno (f_buf s y)"
  let ?s = "set_data y ?v s"
  note sd = set_data_run [OF inv, of y ?v, simplified]
  have x1: "x < NBUF" "b_dev (f_buf s x) = 1" and y1: "y < NBUF" "b_dev (f_buf s y) = 1"
    using heldD(1,4) [OF inv, of x] heldD(1,4) [OF inv, of y] by simp_all
  have nx: "b_blockno (f_buf s x) \<noteq> ?n" using other_block [OF inv y1(1) x1(1) xy y1(2) x1(2)] .
  obtain t where t: "bwrite me y ?s = Ok t" "cache_inv me {x, y} t" "content t = content ?s"
      "id_disk (f_ide t) = (id_disk (f_ide s))(1 := (id_disk (f_ide s) 1)(unat ?n := ?v))"
      "id_writes (f_ide t) = id_writes (f_ide s) @ [(1, unat ?n, ?v)]" "dirty t = dirty s - {y}"
      "\<forall>c. c \<noteq> y \<longrightarrow> f_buf t c = f_buf s c" "b_blockno (f_buf t y) = ?n" "b_data (f_buf t y) = ?v" "bio.more t = bio.more s"
    using bwrite_run [OF sd(1), of y] sd(3-6) by auto
  have "x \<in> dirty t \<or> b_data (f_buf t x) = id_disk (f_ide t) 1 (unat (b_blockno (f_buf t x)))"
  proof -
    have "unat (b_blockno (f_buf s x)) \<noteq> unat ?n" using nx by (metis word_unat_eq_iff)
    then show ?thesis using src t(4,6,7) xy by auto
  qed
  then obtain u where u: "brelse me x t = Ok u" "cache_inv me ({x, y} - {x}) u" "content u = content t" "f_ide u = f_ide t"
      "dirty u = dirty t" "\<forall>c. c \<noteq> x \<longrightarrow> f_buf u c = f_buf t c" "b_blockno (f_buf u x) = b_blockno (f_buf t x)" "bio.more u = bio.more t"
    using brelse_run [OF t(2), of x] by blast
  have inv_u: "cache_inv me {y} u" using u(2) xy by (simp add: insert_Diff_if)
  have "b_data (f_buf u y) = id_disk (f_ide u) 1 (unat (b_blockno (f_buf u y)))" using u(4,6) t(4,8,9) xy by auto
  then obtain w where w: "brelse me y u = Ok w" "cache_inv me ({y} - {y}) w" "content w = content u" "f_ide w = f_ide u"
      "dirty w = dirty u" "\<forall>c. c \<noteq> y \<longrightarrow> f_buf w c = f_buf u c" "bio.more w = bio.more u"
    using brelse_run [OF inv_u, of y] by blast
  have bn: "b_blockno (f_buf w c) = b_blockno (f_buf s c)" if "c \<noteq> y" for c
    using that w(6) u(6,7) t(7) by (cases "c = x") auto
  have "pinned w = (\<lambda>b. b_blockno (f_buf s b)) ` (dirty s - {y})"
    unfolding pinned_def w(5) u(5) t(6) by (rule image_cong) (use bn in auto)
  also have "\<dots> = pinned s - {?n}"
  proof -
    have "b_blockno (f_buf s c) \<noteq> ?n" if "c \<in> dirty s" "c \<noteq> y" for c
      using other_block [OF inv y1(1) _ that(2) y1(2)] dirty_dev [OF inv that(1)] by blast
    then show ?thesis by (auto simp: pinned_def)
  qed
  finally have pin: "pinned w = pinned s - {?n}" .
  have "cview me w ((content s)(?n := ?v)) (pinned s - {?n}) ((id_disk (f_ide s) 1)(unat ?n := ?v))
      (id_writes (f_ide s) @ [(1, unat ?n, ?v)])"
    unfolding cview_def using pin w(2-4) u(3,4) t(3-5) sd(2) by simp
  moreover have "bio.more w = bio.more s" using w(7) u(8) t(10) by simp
  ultimately show ?thesis using t(1) u(1) w(1) by (intro exI [of _ w]) simp
qed

lemma two_reads:
  assumes cv: "cview me s C B D W" and n: "n < of_nat FSSIZE" "m < of_nat FSSIZE" "m \<noteq> n"
    and sp: "n \<in> B \<or> card B < NBUF" "m \<in> B \<or> card B + 1 < NBUF"
  shows "\<exists>x t y u. bread me 1 n s = Ok (x, t) \<and> bread me 1 m t = Ok (y, u) \<and> cache_inv me {x, y} u \<and> x \<noteq> y \<and>
     b_blockno (f_buf u x) = n \<and> b_blockno (f_buf u y) = m \<and> b_data (f_buf u x) = C n \<and> b_data (f_buf u y) = C m \<and>
     (x \<in> dirty u \<or> C n = D (unat n)) \<and> (y \<in> dirty u \<or> C m = D (unat m)) \<and>
     content u = C \<and> pinned u = B \<and> id_disk (f_ide u) 1 = D \<and> id_writes (f_ide u) = W \<and> bio.more t = bio.more s \<and> bio.more u = bio.more s"
proof -
  have s: "cache_inv me {} s" "content s = C" "pinned s = B" "id_disk (f_ide s) 1 = D" "id_writes (f_ide s) = W"
    using cv by (simp_all add: cview_def)
  have "cached 1 n s \<noteq> None \<or> (\<exists>e < NBUF. e \<notin> {} \<and> e \<notin> dirty s)"
    using sp(1) pinned_cached [OF s(1)] clean_exists [OF s(1)] s(3) by auto
  then obtain x t where r1: "bread me 1 n s = Ok (x, t)" "reads me {} s n x t"
    using bread_run [OF s(1) n(1)] by auto
  have t: "cache_inv me {x} t" "b_blockno (f_buf t x) = n" "b_data (f_buf t x) = C n" "content t = C"
      "id_disk (f_ide t) 1 = D" "id_writes (f_ide t) = W" "bio.more t = bio.more s" "pinned t = B"
    using r1(2) s reads_pinned [OF s(1) r1(2)] by (simp_all add: reads_def)
  have c1: "x \<in> dirty t \<or> C n = D (unat n)" using reads_clean [OF s(1) r1(2)] t by simp
  have "cached 1 m t \<noteq> None \<or> (\<exists>e < NBUF. e \<notin> {x} \<and> e \<notin> dirty t)"
    using sp(2) pinned_cached [OF t(1)] clean_exists [OF t(1)] t(8) by auto
  then obtain y u where r2: "bread me 1 m t = Ok (y, u)" "reads me {x} t m y u"
    using bread_run [OF t(1) n(2)] t(2) n(3) by auto
  have xy: "x \<noteq> y" using r2(2) by (simp add: reads_def)
  have fx: "f_buf u x = f_buf t x" using r2(2) xy by (simp add: reads_def)
  have u: "cache_inv me {x, y} u" "b_blockno (f_buf u y) = m" "b_data (f_buf u y) = C m" "content u = C" "dirty u = dirty t"
      "id_disk (f_ide u) 1 = D" "id_writes (f_ide u) = W" "bio.more u = bio.more s" "pinned u = B"
    using r2(2) t reads_pinned [OF t(1) r2(2)] by (simp_all add: reads_def insert_commute)
  have c2: "y \<in> dirty u \<or> C m = D (unat m)" using reads_clean [OF t(1) r2(2)] t(2) n(3) u by auto
  show ?thesis
    using r1(1) r2(1) u xy fx t(2,3,7) c1 c2
    by (intro exI [of _ x] exI [of _ t] exI [of _ y] exI [of _ u]) simp
qed

lemma install_block_run:
  assumes cv: "cview me s C B D W" and g: "g_dev s = 1" "g_start s + of_nat tail + 1 = l" "g_block s tail = d"
    and n: "l < of_nat FSSIZE" "d < of_nat FSSIZE" "d \<noteq> l" and sp: "card B < NBUF" "d \<in> B \<or> card B + 1 < NBUF"
  shows "\<exists>t. install_block me tail s = Ok t \<and> cview me t (C(d := C l)) (B - {d}) (D(unat d := C l)) (W @ [(1, unat d, C l)]) \<and>
     bio.more t = bio.more s"
proof -
  obtain x t y u where r: "bread me 1 l s = Ok (x, t)" "bread me 1 d t = Ok (y, u)" "cache_inv me {x, y} u" "x \<noteq> y"
      "b_blockno (f_buf u x) = l" "b_blockno (f_buf u y) = d" "b_data (f_buf u x) = C l" "x \<in> dirty u \<or> C l = D (unat l)"
      "content u = C" "pinned u = B" "id_disk (f_ide u) 1 = D" "id_writes (f_ide u) = W"
      and m: "bio.more t = bio.more s" "bio.more u = bio.more s"
    using two_reads [OF cv n disjI2 [OF sp(1)] sp(2)] by blast
  have g': "g_dev t = 1" "g_block t tail = d" using g m(1) by (cases s; cases t; simp)+
  obtain w where w: "bindR (bwrite me y (set_data y (b_data (f_buf u x)) u)) (\<lambda>s. bindR (brelse me x s) (brelse me y)) = Ok w"
      "cview me w (C(d := C l)) (B - {d}) (D(unat d := C l)) (W @ [(1, unat d, C l)])" "bio.more w = bio.more u"
    using copy_tail [OF r(3,4)] r(5-12) by auto
  have "install_block me tail s = Ok w" using r(1,2) g g' w(1) by (simp add: install_block_def)
  then show ?thesis using w(2,3) m(2) by auto
qed

lemma write_log_block_run:
  assumes cv: "cview me s C B D W" and g: "g_dev s = 1" "g_start s + of_nat tail + 1 = l" "g_block s tail = d"
    and n: "l < of_nat FSSIZE" "d < of_nat FSSIZE" "d \<noteq> l" and sp: "card B < NBUF" "d \<in> B \<or> card B + 1 < NBUF"
  shows "\<exists>t. write_log_block me tail s = Ok t \<and> cview me t (C(l := C d)) (B - {l}) (D(unat l := C d)) (W @ [(1, unat l, C d)]) \<and>
     bio.more t = bio.more s"
proof -
  obtain x t y u where r: "bread me 1 l s = Ok (x, t)" "bread me 1 d t = Ok (y, u)" "cache_inv me {x, y} u" "x \<noteq> y"
      "b_blockno (f_buf u x) = l" "b_blockno (f_buf u y) = d" "b_data (f_buf u y) = C d" "y \<in> dirty u \<or> C d = D (unat d)"
      "content u = C" "pinned u = B" "id_disk (f_ide u) 1 = D" "id_writes (f_ide u) = W"
      and m: "bio.more t = bio.more s" "bio.more u = bio.more s"
    using two_reads [OF cv n disjI2 [OF sp(1)] sp(2)] by blast
  have g': "g_dev t = 1" "g_block t tail = d" using g m(1) by (cases s; cases t; simp)+
  have inv: "cache_inv me {y, x} u" using r(3) by (simp add: insert_commute)
  obtain w where w: "bindR (bwrite me x (set_data x (b_data (f_buf u y)) u)) (\<lambda>s. bindR (brelse me y s) (brelse me x)) = Ok w"
      "cview me w (C(l := C d)) (B - {l}) (D(unat l := C d)) (W @ [(1, unat l, C d)])" "bio.more w = bio.more u"
    using copy_tail [OF inv r(4) [symmetric]] r(5-12) by auto
  have "write_log_block me tail s = Ok w" using r(1,2) g g' w(1) by (simp add: write_log_block_def)
  then show ?thesis using w(2,3) m(2) by auto
qed

lemma wr_cview:
  assumes cv: "cview me s C B D W" and n: "n < of_nat FSSIZE" and sp: "n \<in> B \<or> card B < NBUF"
  shows "\<exists>b t u. bread me 1 n s = Ok (b, t) \<and> b_data (f_buf t b) = C n \<and> bio.more t = bio.more s \<and>
     bindR (bwrite me b (set_data b v t)) (brelse me b) = Ok u \<and>
     cview me u (C(n := v)) (B - {n}) (D(unat n := v)) (W @ [(1, unat n, v)]) \<and> bio.more u = bio.more s"
proof -
  have s: "cache_inv me {} s" "content s = C" "pinned s = B" "id_disk (f_ide s) 1 = D" "id_writes (f_ide s) = W"
    using cv by (simp_all add: cview_def)
  have "cached 1 n s \<noteq> None \<or> (\<exists>e < NBUF. e \<notin> {} \<and> e \<notin> dirty s)"
    using sp pinned_cached [OF s(1)] clean_exists [OF s(1)] s(3) by auto
  then obtain b t where r: "bread me 1 n s = Ok (b, t)" "reads me {} s n b t"
    using bread_run [OF s(1) n] by auto
  have t: "cache_inv me {b} t" "b_blockno (f_buf t b) = n" "b_data (f_buf t b) = C n" "content t = C" "b < NBUF" "b_dev (f_buf t b) = 1"
      "id_disk (f_ide t) 1 = D" "id_writes (f_ide t) = W" "bio.more t = bio.more s" "pinned t = B"
    using r(2) s reads_pinned [OF s(1) r(2)] by (simp_all add: reads_def)
  note sd = set_data_run [OF t(1), of b v, simplified]
  obtain w where w: "bwrite me b (set_data b v t) = Ok w" "cache_inv me {b} w" "content w = content (set_data b v t)"
      "id_disk (f_ide w) = (id_disk (f_ide t))(1 := (id_disk (f_ide t) 1)(unat n := v))"
      "id_writes (f_ide w) = id_writes (f_ide t) @ [(1, unat n, v)]" "dirty w = dirty t - {b}"
      "\<forall>c. c \<noteq> b \<longrightarrow> f_buf w c = f_buf t c" "b_blockno (f_buf w b) = n" "b_data (f_buf w b) = v" "bio.more w = bio.more t"
    using bwrite_run [OF sd(1), of b] sd(3-6) t(2) by auto
  obtain u where u: "brelse me b w = Ok u" "cache_inv me ({b} - {b}) u" "content u = content w" "f_ide u = f_ide w"
      "dirty u = dirty w" "\<forall>c. c \<noteq> b \<longrightarrow> f_buf u c = f_buf w c" "bio.more u = bio.more w"
    using brelse_run [OF w(2), of b] w(4,8,9) by auto
  have "pinned u = (\<lambda>c. b_blockno (f_buf t c)) ` (dirty t - {b})"
    unfolding pinned_def u(5) w(6) by (rule image_cong) (use u(6) w(7) in auto)
  also have "\<dots> = pinned t - {n}"
  proof -
    have "b_blockno (f_buf t c) \<noteq> n" if "c \<in> dirty t" "c \<noteq> b" for c
      using other_block [OF t(1,5) _ that(2) t(6)] dirty_dev [OF t(1) that(1)] t(2) by simp
    then show ?thesis using t(2) by (auto simp: pinned_def)
  qed
  finally have pin: "pinned u = B - {n}" using t(10) by simp
  have "cview me u (C(n := v)) (B - {n}) (D(unat n := v)) (W @ [(1, unat n, v)])"
    unfolding cview_def using pin u(2-4) w(3-5) sd(2) t by simp
  then show ?thesis using r(1) t(3,9) w(1,10) u(1,7) by (intro exI [of _ b] exI [of _ t] exI [of _ u]) simp
qed

section \<open>The header block\<close>

lemma put_blocks_other: "(\<And>i. i \<in> set is \<Longrightarrow> j + 4 \<le> 4 + 4 * i \<or> 4 + 4 * i + 4 \<le> j) \<Longrightarrow> get32 (put_blocks is f v) j = get32 v j"
  by (induction "is" arbitrary: v) auto

lemma put_blocks_get: "distinct is \<Longrightarrow> i \<in> set is \<Longrightarrow> get32 (put_blocks is f v) (4 + 4 * i) = f i"
proof (induction "is" arbitrary: v)
  case (Cons k ks)
  show ?case
  proof (cases "i = k")
    case True
    have "get32 (put_blocks ks f (put32 (4 + 4 * k) (f k) v)) (4 + 4 * k) = get32 (put32 (4 + 4 * k) (f k) v) (4 + 4 * k)"
    proof (rule put_blocks_other)
      fix j assume "j \<in> set ks"
      then have "j \<noteq> k" using Cons.prems by auto
      then show "4 + 4 * k + 4 \<le> 4 + 4 * j \<or> 4 + 4 * j + 4 \<le> 4 + 4 * k" by linarith
    qed
    then show ?thesis using True by simp
  next
    case False
    then show ?thesis using Cons by simp
  qed
qed simp

definition header :: "int \<Rightarrow> (nat \<Rightarrow> uint) \<Rightarrow> block \<Rightarrow> block" where
  "header n f v = put_blocks [0..<nat n] f (put32 0 (word_of_int n) v)"

lemma header_get:
  assumes "0 \<le> n" "n \<le> int LOGSIZE"
  shows "sint (get32 (header n f v) 0) = n" "i < nat n \<Longrightarrow> get32 (header n f v) (4 + 4 * i) = f i"
proof -
  have "get32 (header n f v) 0 = word_of_int n" unfolding header_def by (subst put_blocks_other) auto
  then show "sint (get32 (header n f v) 0) = n" using assms by (simp add: signed_of_int signed_take_bit_int_eq_self)
  show "i < nat n \<Longrightarrow> get32 (header n f v) (4 + 4 * i) = f i" unfolding header_def by (rule put_blocks_get) auto
qed

lemma write_head_run:
  assumes cv: "cview me s C B D W" and g: "g_dev s = 1" "g_start s = l" and n: "l < of_nat FSSIZE" and sp: "card B < NBUF"
  shows "\<exists>t. write_head me s = Ok t \<and> cview me t (C(l := header (g_n s) (g_block s) (C l))) (B - {l})
       (D(unat l := header (g_n s) (g_block s) (C l))) (W @ [(1, unat l, header (g_n s) (g_block s) (C l))]) \<and>
     bio.more t = bio.more s"
proof -
  let ?v = "header (g_n s) (g_block s) (C l)"
  obtain b t u where r: "bread me 1 l s = Ok (b, t)" "b_data (f_buf t b) = C l" "bio.more t = bio.more s"
     "bindR (bwrite me b (set_data b ?v t)) (brelse me b) = Ok u"
     "cview me u (C(l := ?v)) (B - {l}) (D(unat l := ?v)) (W @ [(1, unat l, ?v)])" "bio.more u = bio.more s"
    using wr_cview [OF cv n disjI2 [OF sp], of ?v] by blast
  have "g_n t = g_n s" "g_block t = g_block s" using r(3) by (cases s; cases t; simp)+
  then have "write_head me s = Ok u" using r(1,2,4) g by (simp add: write_head_def Let_def header_def)
  then show ?thesis using r(5,6) by blast
qed

section \<open>The loops\<close>

definition logblk :: "uint \<Rightarrow> nat \<Rightarrow> uint" where
  "logblk st i = st + of_nat i + 1"

abbreviation cmap :: "('i \<Rightarrow> uint) \<Rightarrow> ('i \<Rightarrow> block) \<Rightarrow> 'i list \<Rightarrow> (uint \<times> block) list" where
  "cmap f v ts \<equiv> map (\<lambda>i. (f i, v i)) ts"

abbreviation dmap :: "('i \<Rightarrow> uint) \<Rightarrow> ('i \<Rightarrow> block) \<Rightarrow> 'i list \<Rightarrow> (nat \<times> block) list" where
  "dmap f v ts \<equiv> map (\<lambda>i. (unat (f i), v i)) ts"

abbreviation wmap :: "('i \<Rightarrow> uint) \<Rightarrow> ('i \<Rightarrow> block) \<Rightarrow> 'i list \<Rightarrow> (nat \<times> nat \<times> block) list" where
  "wmap f v ts \<equiv> map (\<lambda>i. (1, unat (f i), v i)) ts"

lemma write_log_from_run:
  assumes "cview me s C B D W" "g_dev s = 1" "card B < NBUF"
    and "\<And>i. i \<in> set ts \<Longrightarrow> logblk (g_start s) i < of_nat FSSIZE \<and> g_block s i < of_nat FSSIZE \<and> g_block s i \<in> B \<and>
      logblk (g_start s) i \<notin> B"
  shows "\<exists>t. write_log_from me ts s = Ok t \<and> cview me t (upd_list (cmap (logblk (g_start s)) (\<lambda>i. C (g_block s i)) ts) C) B
       (upd_list (dmap (logblk (g_start s)) (\<lambda>i. C (g_block s i)) ts) D) (W @ wmap (logblk (g_start s)) (\<lambda>i. C (g_block s i)) ts) \<and>
     bio.more t = bio.more s"
  using assms
proof (induction ts arbitrary: s C D W)
  case Nil
  then show ?case by auto
next
  case (Cons i ts)
  let ?l = "logblk (g_start s) i" and ?d = "g_block s i"
  have i: "?l < of_nat FSSIZE" "?d < of_nat FSSIZE" "?d \<in> B" "?l \<notin> B" using Cons.prems(4) [of i] by simp_all
  then have "?d \<noteq> ?l" by auto
  then obtain t where t: "write_log_block me i s = Ok t"
      "cview me t (C(?l := C ?d)) (B - {?l}) (D(unat ?l := C ?d)) (W @ [(1, unat ?l, C ?d)])" "bio.more t = bio.more s"
    using write_log_block_run [OF Cons.prems(1,2), of i ?l ?d] i Cons.prems(3) by (auto simp: logblk_def)
  have g: "g_dev t = g_dev s" "g_start t = g_start s" "g_block t = g_block s" using t(3) by (cases s; cases t; simp)+
  have B: "B - {?l} = B" using i(4) by simp
  have nl: "g_block s j \<noteq> ?l" if "j \<in> set ts" for j using Cons.prems(4) [of j] that i(4) by auto
  have v: "cmap f (\<lambda>j. (C(?l := C ?d)) (g_block s j)) ts = cmap f (\<lambda>j. C (g_block s j)) ts"
    "dmap f (\<lambda>j. (C(?l := C ?d)) (g_block s j)) ts = dmap f (\<lambda>j. C (g_block s j)) ts"
    "wmap f (\<lambda>j. (C(?l := C ?d)) (g_block s j)) ts = wmap f (\<lambda>j. C (g_block s j)) ts" for f
    using nl by simp_all
  have "\<exists>u. write_log_from me ts t = Ok u \<and>
      cview me u (upd_list (cmap (logblk (g_start s)) (\<lambda>i. C (g_block s i)) ts) (C(?l := C ?d))) B
        (upd_list (dmap (logblk (g_start s)) (\<lambda>i. C (g_block s i)) ts) (D(unat ?l := C ?d)))
        ((W @ [(1, unat ?l, C ?d)]) @ wmap (logblk (g_start s)) (\<lambda>i. C (g_block s i)) ts) \<and> bio.more u = bio.more t"
    by (rule Cons.IH [OF t(2) [unfolded B], unfolded g v]) (use Cons.prems(2-4) in auto)
  then show ?case using t(1,3) by simp
qed

lemma install_from_run:
  assumes "cview me s C B D W" "g_dev s = 1" "card B < NBUF" "finite B" "distinct (map (g_block s) ts)"
    and "\<And>i. i \<in> set ts \<Longrightarrow> logblk (g_start s) i < of_nat FSSIZE \<and> g_block s i < of_nat FSSIZE \<and>
      (g_block s i \<in> B \<or> card B + 1 < NBUF)"
    and "\<And>i j. i \<in> set ts \<Longrightarrow> j \<in> set ts \<Longrightarrow> g_block s i \<noteq> logblk (g_start s) j"
  shows "\<exists>t. install_from me ts s = Ok t \<and> cview me t (upd_list (cmap (g_block s) (\<lambda>i. C (logblk (g_start s) i)) ts) C)
       (B - g_block s ` set ts) (upd_list (dmap (g_block s) (\<lambda>i. C (logblk (g_start s) i)) ts) D)
       (W @ wmap (g_block s) (\<lambda>i. C (logblk (g_start s) i)) ts) \<and>
     bio.more t = bio.more s"
  using assms
proof (induction ts arbitrary: s B C D W)
  case Nil
  then show ?case by auto
next
  case (Cons i ts)
  let ?l = "logblk (g_start s) i" and ?d = "g_block s i"
  have i: "?l < of_nat FSSIZE" "?d < of_nat FSSIZE" "?d \<in> B \<or> card B + 1 < NBUF" "?d \<noteq> ?l"
    using Cons.prems(6) [of i] Cons.prems(7) [of i i] by simp_all
  obtain t where t: "install_block me i s = Ok t"
      "cview me t (C(?d := C ?l)) (B - {?d}) (D(unat ?d := C ?l)) (W @ [(1, unat ?d, C ?l)])" "bio.more t = bio.more s"
    using install_block_run [OF Cons.prems(1,2), of i ?l ?d] i Cons.prems(3) by (auto simp: logblk_def)
  have g: "g_dev t = g_dev s" "g_start t = g_start s" "g_block t = g_block s" using t(3) by (cases s; cases t; simp)+
  have nl: "logblk (g_start s) j \<noteq> ?d" if "j \<in> set ts" for j using Cons.prems(7) [of i j] that by auto
  have v: "cmap f (\<lambda>j. (C(?d := C ?l)) (logblk (g_start s) j)) ts = cmap f (\<lambda>j. C (logblk (g_start s) j)) ts"
    "dmap f (\<lambda>j. (C(?d := C ?l)) (logblk (g_start s) j)) ts = dmap f (\<lambda>j. C (logblk (g_start s) j)) ts"
    "wmap f (\<lambda>j. (C(?d := C ?l)) (logblk (g_start s) j)) ts = wmap f (\<lambda>j. C (logblk (g_start s) j)) ts" for f
    using nl by simp_all
  have cB: "card (B - {?d}) \<le> card B" using Cons.prems(4) by (simp add: card_Diff1_le)
  have ok: "logblk (g_start s) j < of_nat FSSIZE \<and> g_block s j < of_nat FSSIZE \<and>
      (g_block s j \<in> B - {?d} \<or> card (B - {?d}) + 1 < NBUF)" if "j \<in> set ts" for j
  proof -
    have "g_block s j \<noteq> ?d" using Cons.prems(5) that by (auto simp: image_iff)
    then show ?thesis using Cons.prems(6) [of j] that cB by auto
  qed
  have "\<exists>u. install_from me ts t = Ok u \<and>
      cview me u (upd_list (cmap (g_block s) (\<lambda>i. C (logblk (g_start s) i)) ts) (C(?d := C ?l)))
        (B - {?d} - g_block s ` set ts) (upd_list (dmap (g_block s) (\<lambda>i. C (logblk (g_start s) i)) ts) (D(unat ?d := C ?l)))
        ((W @ [(1, unat ?d, C ?l)]) @ wmap (g_block s) (\<lambda>i. C (logblk (g_start s) i)) ts) \<and> bio.more u = bio.more t"
    by (rule Cons.IH [OF t(2), unfolded g v]) (use Cons.prems(2-5,7) cB ok in auto)
  moreover have "B - {?d} - g_block s ` set ts = B - g_block s ` set (i # ts)" by auto
  ultimately show ?case using t(1,3) by simp
qed

section \<open>Commit and recovery\<close>

text \<open>The blocks of the log, header included: mkfs.c sets aside \<^verbatim>\<open>nlog = LOGSIZE\<close> blocks from \<^verbatim>\<open>logstart\<close> on.\<close>

definition in_log :: "uint \<Rightarrow> uint \<Rightarrow> bool" where
  "in_log st m \<longleftrightarrow> unat st \<le> unat m \<and> unat m < unat st + LOGSIZE"

lemma unat_logblk:
  assumes "unat st + LOGSIZE < FSSIZE" "i < LOGSIZE"
  shows "unat (logblk st i) = unat st + i + 1"
proof -
  have "unat (of_nat i :: uint) = i" using assms(2) by (simp add: unat_of_nat take_bit_nat_eq_self)
  moreover have "unat (st + of_nat i) = unat st + unat (of_nat i :: uint)"
    using assms calculation by (intro unat_add_lem [THEN iffD1]) simp
  moreover have "unat (st + of_nat i + 1) = unat (st + of_nat i) + unat (1 :: uint)"
    using assms calculation by (intro unat_add_lem [THEN iffD1]) simp
  ultimately show ?thesis by (simp add: logblk_def)
qed

lemma logblk_in:
  assumes "unat st + LOGSIZE < FSSIZE" "i < n" "n < LOGSIZE"
  shows "in_log st (logblk st i)" "logblk st i < of_nat FSSIZE" "logblk st i \<noteq> st"
  using unat_logblk [OF assms(1) less_trans [OF assms(2,3)]] assms by (auto simp: in_log_def word_less_nat_alt)

lemma logblk_inj:
  assumes "unat st + LOGSIZE < FSSIZE" "n \<le> LOGSIZE"
  shows "inj_on (logblk st) {0..<n}"
proof (rule inj_onI)
  fix i j assume ij: "i \<in> {0..<n}" "j \<in> {0..<n}" "logblk st i = logblk st j"
  have "unat (logblk st i) = unat st + i + 1" "unat (logblk st j) = unat st + j + 1"
    by (rule unat_logblk [OF assms(1)], use ij assms(2) in simp)+
  then show "i = j" unfolding ij(3) by linarith
qed

lemma content_eqI:
  "f_buf t = f_buf s \<Longrightarrow> f_lru t = f_lru s \<Longrightarrow> f_ide t = f_ide s \<Longrightarrow> content t = content s"
  by (rule ext) (simp add: content_def cached_def split: option.split)

lemma cview_eqI:
  assumes "f_buf t = f_buf s" "f_lru t = f_lru s" "f_ide t = f_ide s"
  shows "cview me t C B D W = cview me s C B D W"
  using assms by (simp add: cview_def cache_inv_def content_eqI [OF assms] pinned_def dirty_def)

lemma g_upd_view [simp]:
  "cview me (s\<lparr>g_n := n\<rparr>) C B D W = cview me s C B D W"
  by (rule cview_eqI) simp_all

lemma content_clean:
  assumes "cache_inv me {} s" "m \<notin> pinned s"
  shows "content s m = id_disk (f_ide s) 1 (unat m)"
proof (cases "cached 1 m s")
  case None
  then show ?thesis by (simp add: content_def)
next
  case (Some b)
  note cd = cached_SomeD [OF assms(1) Some]
  have "b \<notin> dirty s" using assms(2) cd(3) by (auto simp: pinned_def)
  then have "b_data (f_buf s b) = id_disk (f_ide s) 1 (unat (b_blockno (f_buf s b)))"
    using dev1_ok(3) [OF assms(1) cd(1,2)] cd(1) by (auto simp: dirty_def)
  then show ?thesis using Some cd(3) by (simp add: content_def)
qed

text \<open>A transaction ready to commit: the log names distinct blocks outside of itself, which are exactly the pinned
  ones, and the header on disk is empty.\<close>

definition txn_ok :: "int \<Rightarrow> 'z logst_scheme \<Rightarrow> bool" where
  "txn_ok me s \<longleftrightarrow>
     cache_inv me {} s \<and> g_dev s = 1 \<and> 0 < g_n s \<and> g_n s < int LOGSIZE \<and>
     unat (g_start s) + LOGSIZE < FSSIZE \<and> 1 < unat (g_start s) \<and>
     pinned s = g_block s ` {0..<nat (g_n s)} \<and> inj_on (g_block s) {0..<nat (g_n s)} \<and>
     (\<forall>i < nat (g_n s). g_block s i < of_nat FSSIZE \<and> \<not> in_log (g_start s) (g_block s i) \<and> g_block s i \<noteq> 1) \<and>
     sint (get32 (id_disk (f_ide s) 1 (unat (g_start s))) 0) = 0 \<and>
     sb_logstart (sb_of (id_disk (f_ide s) 1 1)) = g_start s"

text \<open>The sectors a commit writes, in order.\<close>

definition commit_writes :: "nat \<Rightarrow> uint \<Rightarrow> (nat \<Rightarrow> uint) \<Rightarrow> (uint \<Rightarrow> block) \<Rightarrow> (nat \<times> block) list" where
  "commit_writes n st h C =
     dmap (logblk st) (\<lambda>i. C (h i)) [0..<n] @ [(unat st, header (int n) h (C st))] @
     dmap h (\<lambda>i. C (h i)) [0..<n] @ [(unat st, header 0 h (header (int n) h (C st)))]"

lemma upd_list_map_other:
  assumes "\<And>i. i \<in> set ts \<Longrightarrow> f i \<noteq> m"
  shows "upd_list (map (\<lambda>i. (f i, v i)) ts) g m = g m"
proof (rule upd_list_other)
  show "m \<notin> fst ` set (map (\<lambda>i. (f i, v i)) ts)" using assms by force
qed

lemma upd_list_map_get: "distinct (map f ts) \<Longrightarrow> i \<in> set ts \<Longrightarrow> upd_list (map (\<lambda>i. (f i, v i)) ts) g (f i) = v i"
  by (rule upd_list_distinct) (auto simp: comp_def)

lemma commit_run:
  assumes "txn_ok me s"
  shows "\<exists>t C. commit me s = Ok t \<and>
     cview me t C {} (upd_list (commit_writes (nat (g_n s)) (g_start s) (g_block s) (content s)) (id_disk (f_ide s) 1))
       (id_writes (f_ide s) @ map (Pair 1) (commit_writes (nat (g_n s)) (g_start s) (g_block s) (content s))) \<and>
     bio.more t = bio.more (s\<lparr>g_n := 0\<rparr>)"
proof -
  let ?n = "nat (g_n s)" and ?st = "g_start s" and ?h = "g_block s" and ?C = "content s"
  let ?ts = "[0..<nat (g_n s)]" and ?l = "logblk (g_start s)"
  have inv: "cache_inv me {} s" "g_dev s = 1" "0 < g_n s" "g_n s < int LOGSIZE" "unat ?st + LOGSIZE < FSSIZE"
      "pinned s = ?h ` {0..<?n}" "inj_on ?h {0..<?n}"
    and h: "\<And>i. i < ?n \<Longrightarrow> ?h i < of_nat FSSIZE \<and> \<not> in_log ?st (?h i)"
    using assms by (auto simp: txn_ok_def)
  have cB: "card (pinned s) = ?n" using inv(6,7) by (simp add: card_image)
  have fB: "finite (pinned s)" using inv(6) by simp
  have n: "?n < LOGSIZE" using inv(4) by simp
  have ll: "\<And>i. i < ?n \<Longrightarrow> in_log ?st (?l i) \<and> ?l i < of_nat FSSIZE \<and> ?l i \<noteq> ?st"
    using logblk_in [OF inv(5)] n by auto
  have stl: "in_log ?st ?st" "?st < of_nat FSSIZE" using inv(5) by (simp_all add: in_log_def word_less_nat_alt)
  have stB: "?st \<notin> pinned s" using h stl(1) inv(6) by auto
  have cv: "cview me s ?C (pinned s) (id_disk (f_ide s) 1) (id_writes (f_ide s))" using inv(1) by (simp add: cview_def)
  obtain a where a: "write_log_from me ?ts s = Ok a"
      "cview me a (upd_list (cmap ?l (\<lambda>i. ?C (?h i)) ?ts) ?C) (pinned s) (upd_list (dmap ?l (\<lambda>i. ?C (?h i)) ?ts) (id_disk (f_ide s) 1))
        (id_writes (f_ide s) @ wmap ?l (\<lambda>i. ?C (?h i)) ?ts)" "bio.more a = bio.more s"
  proof -
    have "\<exists>t. write_log_from me ?ts s = Ok t \<and> cview me t (upd_list (cmap ?l (\<lambda>i. ?C (?h i)) ?ts) ?C) (pinned s)
        (upd_list (dmap ?l (\<lambda>i. ?C (?h i)) ?ts) (id_disk (f_ide s) 1)) (id_writes (f_ide s) @ wmap ?l (\<lambda>i. ?C (?h i)) ?ts) \<and>
        bio.more t = bio.more s"
    proof (rule write_log_from_run [OF cv inv(2)])
      show "card (pinned s) < NBUF" using cB n by simp
      fix i assume "i \<in> set ?ts"
      then have i: "i < ?n" by simp
      have "?l i \<notin> pinned s" using ll [OF i] h inv(6) by auto
      then show "?l i < of_nat FSSIZE \<and> ?h i < of_nat FSSIZE \<and> ?h i \<in> pinned s \<and> ?l i \<notin> pinned s"
        using ll [OF i] h [OF i] inv(6) i by simp
    qed
    then show ?thesis using that by blast
  qed
  let ?C1 = "upd_list (cmap ?l (\<lambda>i. ?C (?h i)) ?ts) ?C"
  have ga: "g_dev a = 1" "g_start a = ?st" "g_block a = ?h" "g_n a = g_n s" using a(3) inv(2) by (cases s; cases a; simp)+
  have c1: "?C1 ?st = ?C ?st" by (rule upd_list_map_other) (use ll in auto)
  have n0: "int ?n = g_n s" using inv(3) by simp
  let ?hd = "header (g_n s) ?h (?C ?st)"
  obtain b where b: "write_head me a = Ok b"
      "cview me b (?C1(?st := ?hd)) (pinned s - {?st}) ((upd_list (dmap ?l (\<lambda>i. ?C (?h i)) ?ts) (id_disk (f_ide s) 1))(unat ?st := ?hd))
        ((id_writes (f_ide s) @ wmap ?l (\<lambda>i. ?C (?h i)) ?ts) @ [(1, unat ?st, ?hd)])" "bio.more b = bio.more a"
    using write_head_run [OF a(2) ga(1,2) stl(2)] cB n unfolding ga c1 by auto
  let ?C2 = "?C1(?st := ?hd)"
  have gb: "g_dev b = 1" "g_start b = ?st" "g_block b = ?h" "g_n b = g_n s" using b(3) ga by (cases a; cases b; simp)+
  have dl: "distinct (map ?l ?ts)"
    using logblk_inj [OF inv(5) less_imp_le [OF n]] by (simp add: distinct_map)
  have c2: "?C2 (?l i) = ?C (?h i)" if "i < ?n" for i
    using ll [OF that] upd_list_map_get [OF dl, of i "\<lambda>i. ?C (?h i)" ?C] that by simp
  have B2: "pinned s - {?st} = pinned s" using stB by simp
  have v: "cmap ?h (\<lambda>i. ?C2 (?l i)) ?ts = cmap ?h (\<lambda>i. ?C (?h i)) ?ts"
    "dmap ?h (\<lambda>i. ?C2 (?l i)) ?ts = dmap ?h (\<lambda>i. ?C (?h i)) ?ts" "wmap ?h (\<lambda>i. ?C2 (?l i)) ?ts = wmap ?h (\<lambda>i. ?C (?h i)) ?ts"
    using c2 by simp_all
  have hne: "?h i \<noteq> ?l j" if "i < ?n" "j < ?n" for i j using h [OF that(1)] ll [OF that(2)] by auto
  have ex: "\<exists>c. install_from me ?ts b = Ok c \<and> cview me c (upd_list (cmap ?h (\<lambda>i. ?C (?h i)) ?ts) ?C2) (pinned s - ?h ` set ?ts)
      (upd_list (dmap ?h (\<lambda>i. ?C (?h i)) ?ts) ((upd_list (dmap ?l (\<lambda>i. ?C (?h i)) ?ts) (id_disk (f_ide s) 1))(unat ?st := ?hd)))
      (((id_writes (f_ide s) @ wmap ?l (\<lambda>i. ?C (?h i)) ?ts) @ [(1, unat ?st, ?hd)]) @ wmap ?h (\<lambda>i. ?C (?h i)) ?ts) \<and>
      bio.more c = bio.more b"
  proof (rule install_from_run [OF b(2) [unfolded B2] gb(1), of ?ts, unfolded gb v])
    show "card (pinned s) < NBUF" "finite (pinned s)" using cB n fB by simp_all
    show "distinct (map ?h ?ts)" using inv(7) by (simp add: distinct_map)
    show "?l i < of_nat FSSIZE \<and> ?h i < of_nat FSSIZE \<and> (?h i \<in> pinned s \<or> card (pinned s) + 1 < NBUF)" if "i \<in> set ?ts" for i
      using ll [of i] h [of i] inv(6) that by simp
    show "?h i \<noteq> ?l j" if "i \<in> set ?ts" "j \<in> set ?ts" for i j using hne [of i j] that by simp
  qed
  have em: "pinned s - ?h ` set ?ts = {}" using inv(6) by simp
  obtain c where c: "install_from me ?ts b = Ok c" "cview me c (upd_list (cmap ?h (\<lambda>i. ?C (?h i)) ?ts) ?C2) {}
      (upd_list (dmap ?h (\<lambda>i. ?C (?h i)) ?ts) ((upd_list (dmap ?l (\<lambda>i. ?C (?h i)) ?ts) (id_disk (f_ide s) 1))(unat ?st := ?hd)))
      (((id_writes (f_ide s) @ wmap ?l (\<lambda>i. ?C (?h i)) ?ts) @ [(1, unat ?st, ?hd)]) @ wmap ?h (\<lambda>i. ?C (?h i)) ?ts)"
      "bio.more c = bio.more b" using ex unfolding em by blast
  have gc: "g_dev c = 1" "g_start c = ?st" "g_block c = ?h" using c(3) gb by (cases b; cases c; simp)+
  let ?c = "c\<lparr>g_n := 0\<rparr>"
  have gc': "g_dev ?c = 1" "g_start ?c = ?st" "g_block ?c = ?h" "g_n ?c = 0" using gc by simp_all
  have c3: "upd_list (cmap ?h (\<lambda>i. ?C (?h i)) ?ts) ?C2 ?st = ?hd"
  proof -
    have "?h i \<noteq> ?st" if "i \<in> set ?ts" for i using h [of i] stl(1) that by auto
    then have "upd_list (cmap ?h (\<lambda>i. ?C (?h i)) ?ts) ?C2 ?st = ?C2 ?st" by (rule upd_list_map_other)
    then show ?thesis by simp
  qed
  have "\<exists>d. write_head me ?c = Ok d \<and> cview me d ((upd_list (cmap ?h (\<lambda>i. ?C (?h i)) ?ts) ?C2)(?st := header 0 ?h ?hd)) ({} - {?st})
      ((upd_list (dmap ?h (\<lambda>i. ?C (?h i)) ?ts) ((upd_list (dmap ?l (\<lambda>i. ?C (?h i)) ?ts) (id_disk (f_ide s) 1))(unat ?st := ?hd)))
        (unat ?st := header 0 ?h ?hd))
      ((((id_writes (f_ide s) @ wmap ?l (\<lambda>i. ?C (?h i)) ?ts) @ [(1, unat ?st, ?hd)]) @ wmap ?h (\<lambda>i. ?C (?h i)) ?ts) @
        [(1, unat ?st, header 0 ?h ?hd)]) \<and> bio.more d = bio.more ?c"
    by (rule write_head_run [OF c(2) [folded g_upd_view [where s = c and n = 0]] gc'(1,2) stl(2), unfolded gc' c3]) simp
  moreover have "commit me s = write_head me ?c"
    using a(1) b(1) c(1) inv(3) by (simp add: commit_def write_log_def install_trans_def ga gb)
  moreover have "bio.more ?c = bio.more (s\<lparr>g_n := 0\<rparr>)"
    using a(3) b(3) c(3) by (cases s; cases a; cases b; cases c) simp
  moreover have "commit_writes ?n ?st ?h ?C = dmap ?l (\<lambda>i. ?C (?h i)) ?ts @ [(unat ?st, ?hd)] @
      dmap ?h (\<lambda>i. ?C (?h i)) ?ts @ [(unat ?st, header 0 ?h ?hd)]" by (simp only: commit_writes_def n0)
  ultimately show ?thesis
    by (simp only: upd_list_append upd_list.simps map_append list.map map_map comp_def append_assoc Diff_empty empty_Diff) blast
qed

text \<open>Reading a block of a cache in which nothing is pinned.\<close>

lemma rd_cview:
  fixes s :: "'z bio_scheme"
  assumes cv: "cview me s C {} D W" and n: "n < of_nat FSSIZE"
  shows "\<exists>b t. bread me 1 n s = Ok (b, t) \<and> b_data (f_buf t b) = C n \<and> bio.more t = bio.more s \<and>
     (\<forall>u :: 'z bio_scheme. f_buf u = f_buf t \<longrightarrow> f_lru u = f_lru t \<longrightarrow> f_ide u = f_ide t \<longrightarrow>
       (\<exists>w. brelse me b u = Ok w \<and> cview me w C {} D W \<and> bio.more w = bio.more u))"
proof -
  have s: "cache_inv me {} s" "content s = C" "pinned s = {}" "id_disk (f_ide s) 1 = D" "id_writes (f_ide s) = W"
    using cv by (simp_all add: cview_def)
  have "\<exists>e < NBUF. e \<notin> {} \<and> e \<notin> dirty s" using clean_exists [OF s(1)] s(3) by simp
  then obtain b t where r: "bread me 1 n s = Ok (b, t)" "reads me {} s n b t"
    using bread_run [OF s(1) n] by auto
  have t: "cache_inv me {b} t" "content t = C" "b_data (f_buf t b) = C n" "id_disk (f_ide t) 1 = D" "id_writes (f_ide t) = W"
      "bio.more t = bio.more s" "pinned t = {}"
    using r(2) s reads_pinned [OF s(1) r(2)] by (simp_all add: reads_def)
  have "\<exists>w. brelse me b u = Ok w \<and> cview me w C {} D W \<and> bio.more w = bio.more u"
    if u: "f_buf u = f_buf t" "f_lru u = f_lru t" "f_ide u = f_ide t" for u :: "'z bio_scheme"
  proof -
    have inv: "cache_inv me {b} u" using t(1) u by (simp add: cache_inv_def)
    have d: "dirty u = {}" using t(7) u by (simp add: pinned_def dirty_def)
    have "b \<in> dirty u \<or> b_data (f_buf u b) = id_disk (f_ide u) 1 (unat (b_blockno (f_buf u b)))"
      using reads_clean [OF s(1) r(2)] u by (simp add: dirty_def)
    then obtain w where w: "brelse me b u = Ok w" "cache_inv me ({b} - {b}) w" "content w = content u" "f_ide w = f_ide u"
        "dirty w = dirty u" "bio.more w = bio.more u"
      using brelse_run [OF inv, of b] by blast
    then show ?thesis
      using content_eqI [OF u] t(2,4,5) u(3) d by (auto simp: cview_def pinned_def)
  qed
  then show ?thesis using r(1) t(3,6) by (intro exI [of _ b] exI [of _ t]) simp
qed

lemma read_head_run:
  fixes s :: "'z logst_scheme"
  assumes cv: "cview me s C {} D W" and g: "g_dev s = 1" "g_start s = st" and n: "st < of_nat FSSIZE"
    and hd: "sint (get32 (C st) 0) = k" "k \<le> int LOGSIZE"
  shows "\<exists>t. read_head me s = Ok t \<and> cview me t C {} D W \<and> g_n t = k \<and> g_dev t = 1 \<and> g_start t = st \<and>
     (\<forall>i < nat k. g_block t i = get32 (C st) (4 + 4 * i))"
proof -
  obtain b t where r: "bread me 1 st s = Ok (b, t)" "b_data (f_buf t b) = C st" "bio.more t = bio.more s"
     "\<And>u :: 'z logst_scheme. f_buf u = f_buf t \<Longrightarrow> f_lru u = f_lru t \<Longrightarrow> f_ide u = f_ide t \<Longrightarrow>
       \<exists>w. brelse me b u = Ok w \<and> cview me w C {} D W \<and> bio.more w = bio.more u"
    using rd_cview [OF cv n] by blast
  let ?u = "t\<lparr>g_n := k, g_block := (\<lambda>i. if int i < k then get32 (C st) (4 + 4 * i) else g_block t i)\<rparr>"
  obtain w where w: "brelse me b ?u = Ok w" "cview me w C {} D W" "bio.more w = bio.more ?u" using r(4) [of ?u] by auto
  have "read_head me s = Ok w" using r(1,2) w(1) g hd by (simp add: read_head_def Let_def cong: if_cong)
  moreover have "g_n w = k \<and> g_dev w = g_dev s \<and> g_start w = g_start s \<and>
      g_block w = (\<lambda>i. if int i < k then get32 (C st) (4 + 4 * i) else g_block t i)"
    using w(3) r(3) by (cases s; cases t; cases w) simp
  ultimately show ?thesis using w(2) g by (intro exI [of _ w]) auto
qed

lemma recover_run:
  assumes cv: "cview me s C {} D W" and g: "g_dev s = 1" "g_start s = st" and st: "unat st + LOGSIZE < FSSIZE"
    and hd: "sint (get32 (C st) 0) = int n" "n < LOGSIZE"
    and h: "\<And>i. i < n \<Longrightarrow> h i = get32 (C st) (4 + 4 * i)"
    and ok: "\<And>i. i < n \<Longrightarrow> h i < of_nat FSSIZE \<and> \<not> in_log st (h i)" and inj: "inj_on h {0..<n}"
  shows "\<exists>t v. recover_from_log me s = Ok t \<and>
     id_disk (f_ide t) 1 = (upd_list (dmap h (\<lambda>i. C (logblk st i)) [0..<n]) D)(unat st := v)"
proof -
  let ?ts = "[0..<n]"
  have stl: "st < of_nat FSSIZE" "in_log st st" using st by (simp_all add: in_log_def word_less_nat_alt)
  obtain a where a: "read_head me s = Ok a" "cview me a C {} D W" "g_n a = int n" "g_dev a = 1" "g_start a = st"
      "\<And>i. i < n \<Longrightarrow> g_block a i = h i"
    using read_head_run [OF cv g stl(1) hd(1)] hd(2) h by auto
  have hm: "dmap (g_block a) (\<lambda>i. C (logblk st i)) ?ts = dmap h (\<lambda>i. C (logblk st i)) ?ts" using a(6) by simp
  have "\<exists>b. install_from me ?ts a = Ok b \<and> cview me b (upd_list (cmap (g_block a) (\<lambda>i. C (logblk st i)) ?ts) C)
      ({} - g_block a ` set ?ts) (upd_list (dmap h (\<lambda>i. C (logblk st i)) ?ts) D)
      (W @ wmap (g_block a) (\<lambda>i. C (logblk st i)) ?ts) \<and> bio.more b = bio.more a"
  proof (rule install_from_run [OF a(2,4), of ?ts, unfolded a(5) hm])
    show "distinct (map (g_block a) ?ts)" using inj a(6) by (simp add: distinct_map inj_on_def)
    show "logblk st i < of_nat FSSIZE \<and> g_block a i < of_nat FSSIZE \<and> (g_block a i \<in> {} \<or> card ({} :: uint set) + 1 < NBUF)"
      if "i \<in> set ?ts" for i
    proof -
      have i: "i < n" using that by simp
      have "logblk st i < of_nat FSSIZE" using logblk_in(2) [OF st i hd(2)] .
      then show ?thesis using ok [OF i] a(6) [OF i] by simp
    qed
    show "g_block a i \<noteq> logblk st j" if "i \<in> set ?ts" "j \<in> set ?ts" for i j
    proof -
      have ij: "i < n" "j < n" using that by simp_all
      have "in_log st (logblk st j)" using logblk_in(1) [OF st ij(2) hd(2)] .
      then show ?thesis using ok [OF ij(1)] a(6) [OF ij(1)] by auto
    qed
  qed simp_all
  then obtain b where b: "install_from me ?ts a = Ok b" "bio.more b = bio.more a"
      "cview me b (upd_list (cmap (g_block a) (\<lambda>i. C (logblk st i)) ?ts) C) {} (upd_list (dmap h (\<lambda>i. C (logblk st i)) ?ts) D)
        (W @ wmap (g_block a) (\<lambda>i. C (logblk st i)) ?ts)" by auto
  have gb: "g_dev (b\<lparr>g_n := 0\<rparr>) = 1" "g_start (b\<lparr>g_n := 0\<rparr>) = st" using b(2) a(4,5) by (cases a; cases b; simp)+
  obtain t v where "write_head me (b\<lparr>g_n := 0\<rparr>) = Ok t"
      "id_disk (f_ide t) 1 = (upd_list (dmap h (\<lambda>i. C (logblk st i)) ?ts) D)(unat st := v)"
    using write_head_run [OF b(3) [folded g_upd_view [where s = b and n = 0]] gb stl(1)] by (auto simp: cview_def)
  then show ?thesis using a(1,3) b(1) by (auto simp: recover_from_log_def install_trans_def)
qed

section \<open>Crash safety\<close>

text \<open>The machine after a crash: a zeroed kernel on a disk with the given sectors, up to \<^verbatim>\<open>binit\<close>.\<close>

definition reboot :: "(nat \<Rightarrow> block) \<Rightarrow> ide \<Rightarrow> logst" where
  "reboot D d = binit \<lparr>f_wakes = [], f_buf = (\<lambda>_. bss_buf), f_lru = [], f_ide = d\<lparr>id_disk := (id_disk d)(1 := D)\<rparr>,
     g_start = 0, g_size = 0, g_outstanding = 0, g_committing = 0, g_dev = 0, g_n = 0, g_block = (\<lambda>_. 0)\<rparr>"

lemma reboot_view:
  assumes "disk_ok d"
  shows "cview me (reboot D d) (\<lambda>m. D (unat m)) {} D (id_writes d)"
proof -
  have i: "idle me (reboot D d)" unfolding reboot_def
    by (rule binit_idle) (use assms in \<open>simp_all add: disk_ok_def ready_def\<close>)
  note r = binit_from_run [where bs = "[0..<NBUF]"]
  have ide: "f_ide (reboot D d) = d\<lparr>id_disk := (id_disk d)(1 := D)\<rparr>" by (simp add: reboot_def binit_def r(2))
  have b: "b_flags (f_buf (reboot D d) b) = 0" for b by (simp add: reboot_def binit_def r(3) bss_buf_def)
  then have p: "pinned (reboot D d) = {}" by (simp add: pinned_def dirty_def)
  have "content (reboot D d) m = D (unat m)" for m
    using content_clean [of me "reboot D d" m] i p ide by (simp add: idle_def)
  then show ?thesis using i p ide by (auto simp: cview_def idle_def)
qed

lemma initlog_run:
  assumes d: "disk_ok d" and sb: "sb_logstart (sb_of (D 1)) = st" and st: "unat st + LOGSIZE < FSSIZE"
    and hd: "sint (get32 (D (unat st)) 0) = int n" "n < LOGSIZE"
    and h: "\<And>i. i < n \<Longrightarrow> h i = get32 (D (unat st)) (4 + 4 * i)"
    and ok: "\<And>i. i < n \<Longrightarrow> h i < of_nat FSSIZE \<and> \<not> in_log st (h i)" and inj: "inj_on h {0..<n}"
  shows "\<exists>t v. initlog me 1 (reboot D d) = Ok t \<and>
     id_disk (f_ide t) 1 = (upd_list (dmap h (\<lambda>i. D (unat (logblk st i))) [0..<n]) D)(unat st := v)"
proof -
  note cv = reboot_view [OF d, of me D]
  have one: "(1 :: uint) < of_nat FSSIZE" by simp
  obtain b t where r: "bread me 1 1 (reboot D d) = Ok (b, t)" "b_data (f_buf t b) = D 1"
     "\<And>u :: logst. f_buf u = f_buf t \<Longrightarrow> f_lru u = f_lru t \<Longrightarrow> f_ide u = f_ide t \<Longrightarrow>
       \<exists>w. brelse me b u = Ok w \<and> cview me w (\<lambda>m. D (unat m)) {} D (id_writes d) \<and> bio.more w = bio.more u"
    using rd_cview [OF cv one] by auto
  obtain w where w: "brelse me b t = Ok w" "cview me w (\<lambda>m. D (unat m)) {} D (id_writes d)" using r(3) [of t] by auto
  let ?w = "w\<lparr>g_start := st, g_size := sint (sb_nlog (sb_of (D 1))), g_dev := 1\<rparr>"
  have "cview me ?w (\<lambda>m. D (unat m)) {} D (id_writes d)" using w(2) cview_eqI [of ?w w] by simp
  then have "\<exists>t v. recover_from_log me ?w = Ok t \<and>
      id_disk (f_ide t) 1 = (upd_list (dmap h (\<lambda>i. D (unat (logblk st i))) [0..<n]) D)(unat st := v)"
    by (rule recover_run) (use st hd h ok inj in simp_all)
  moreover have "initlog me 1 (reboot D d) = recover_from_log me ?w"
    using r(1,2) w(1) sb by (simp add: initlog_def readsb_def Let_def)
  ultimately show ?thesis by simp
qed

text \<open>The sectors after the first \<open>k\<close> writes of a commit: before the header is written, after it, and after it is erased.\<close>

lemma unat_ne: "m \<noteq> n \<Longrightarrow> unat m \<noteq> unat (n :: uint)"
  using word_unat_eq_iff by blast

lemma distinct_unat:
  assumes "inj_on f {0..<n}"
  shows "distinct (map (\<lambda>i. unat (f i :: uint)) [0..<n])"
proof -
  have "inj_on (\<lambda>i. unat (f i)) {0..<n}"
  proof (rule inj_onI)
    fix i j assume ij: "i \<in> {0..<n}" "j \<in> {0..<n}" "unat (f i) = unat (f j)"
    then have "f i = f j" using unat_ne by blast
    then show "i = j" using inj_onD [OF assms] ij by blast
  qed
  then show ?thesis by (simp add: distinct_map)
qed

lemma txnD:
  assumes "txn_ok me s"
  shows "cache_inv me {} s" "disk_ok (f_ide s)" "g_dev s = 1" "0 < g_n s" "g_n s < int LOGSIZE" "unat (g_start s) + LOGSIZE < FSSIZE"
    "pinned s = g_block s ` {0..<nat (g_n s)}" "inj_on (g_block s) {0..<nat (g_n s)}"
    "sint (get32 (id_disk (f_ide s) 1 (unat (g_start s))) 0) = 0" "sb_logstart (sb_of (id_disk (f_ide s) 1 1)) = g_start s"
    "\<And>i. i < nat (g_n s) \<Longrightarrow> g_block s i < of_nat FSSIZE \<and> \<not> in_log (g_start s) (g_block s i) \<and> g_block s i \<noteq> 1"
    "\<not> in_log (g_start s) 1" "in_log (g_start s) (g_start s)" "nat (g_n s) < LOGSIZE"
  using assms by (auto simp: txn_ok_def cache_inv_def in_log_def)

lemma log_keys:
  assumes "txn_ok me s" "\<not> in_log (g_start s) m"
  shows "unat m \<notin> fst ` set (dmap (logblk (g_start s)) v [0..<nat (g_n s)])" "unat m \<noteq> unat (g_start s)"
proof -
  note T = txnD [OF assms(1)]
  have "logblk (g_start s) i \<noteq> m" if "i < nat (g_n s)" for i
    using logblk_in(1) [OF T(6) that T(14)] assms(2) by auto
  then show "unat m \<notin> fst ` set (dmap (logblk (g_start s)) v [0..<nat (g_n s)])" using unat_ne by fastforce
  show "unat m \<noteq> unat (g_start s)" by (rule unat_ne) (use T(13) assms(2) in auto)
qed

lemma home_keys:
  assumes "txn_ok me s" "in_log (g_start s) m \<or> m = 1"
  shows "unat m \<notin> fst ` set (dmap (g_block s) v [0..<nat (g_n s)])"
proof -
  have "g_block s i \<noteq> m" if "i < nat (g_n s)" for i using txnD(11) [OF assms(1) that] assms(2) by auto
  then show ?thesis using unat_ne by fastforce
qed

lemma crash_before:
  assumes T: "txn_ok me s" and d: "disk_ok d" and k: "k \<le> nat (g_n s)"
    and ws: "ws = commit_writes (nat (g_n s)) (g_start s) (g_block s) (content s)"
    and D: "D = upd_list (take k ws) (id_disk (f_ide s) 1)"
  shows "\<exists>r. initlog me' 1 (reboot D d) = Ok r \<and> (\<forall>m. \<not> in_log (g_start s) m \<longrightarrow>
     id_disk (f_ide r) 1 (unat m) = id_disk (f_ide s) 1 (unat m))"
proof -
  let ?A = "dmap (logblk (g_start s)) (\<lambda>i. content s (g_block s i)) [0..<nat (g_n s)]"
  note t = txnD [OF T]
  have tk: "take k ws = take k ?A" using k by (simp add: ws commit_writes_def)
  have same: "D x = id_disk (f_ide s) 1 x" if "x \<notin> fst ` set ?A" for x
    unfolding D tk by (rule upd_list_other) (use that set_take_subset [of k ?A] in auto)
  have "logblk (g_start s) i \<noteq> g_start s" if "i < nat (g_n s)" for i by (rule logblk_in(3) [OF t(6) that t(14)])
  then have "unat (g_start s) \<notin> fst ` set ?A" using unat_ne by fastforce
  then have st: "D (unat (g_start s)) = id_disk (f_ide s) 1 (unat (g_start s))" by (rule same)
  have one: "D 1 = id_disk (f_ide s) 1 1" using same log_keys(1) [OF T t(12)] by simp
  obtain r v where "initlog me' 1 (reboot D d) = Ok r" "id_disk (f_ide r) 1 = D(unat (g_start s) := v)"
    using initlog_run [OF d, where me = me' and D = D and st = "g_start s" and n = 0] st one t(6,9,10) by auto
  then show ?thesis using same log_keys [OF T] by (intro exI [of _ r]) simp
qed

lemma crash_after:
  assumes T: "txn_ok me s" and d: "disk_ok d" and j: "j \<le> nat (g_n s)"
    and ws: "ws = commit_writes (nat (g_n s)) (g_start s) (g_block s) (content s)"
    and D: "D = upd_list (take (nat (g_n s) + 1 + j) ws) (id_disk (f_ide s) 1)"
  shows "\<exists>r. initlog me' 1 (reboot D d) = Ok r \<and> (\<forall>m. \<not> in_log (g_start s) m \<longrightarrow>
     id_disk (f_ide r) 1 (unat m) = content s m)"
proof -
  let ?n = "nat (g_n s)" and ?st = "g_start s" and ?h = "g_block s" and ?C = "content s" and ?D = "id_disk (f_ide s) 1"
  let ?ts = "[0..<nat (g_n s)]" and ?l = "logblk (g_start s)"
  let ?A = "dmap ?l (\<lambda>i. ?C (?h i)) ?ts" and ?B = "dmap ?h (\<lambda>i. ?C (?h i)) ?ts" and ?hd = "header (int ?n) ?h (?C ?st)"
  note t = txnD [OF T]
  have tk: "take (?n + 1 + j) ws = ?A @ [(unat ?st, ?hd)] @ take j ?B" using j by (simp add: ws commit_writes_def)
  have Dx: "D x = upd_list (?A @ [(unat ?st, ?hd)]) ?D x" if "x \<notin> fst ` set ?B" for x
    unfolding D tk append_assoc [symmetric] upd_list_append [of _ "take j ?B"]
    by (rule upd_list_other) (use that set_take_subset [of j ?B] in auto)
  have Dst: "D (unat ?st) = ?hd" using Dx [OF home_keys [OF T disjI1 [OF t(13)]]] by (simp add: upd_list_append)
  have logpart: "upd_list (?A @ [(unat ?st, ?hd)]) ?D (unat m) = ?D (unat m)" if "\<not> in_log ?st m" for m
  proof (rule upd_list_other)
    show "unat m \<notin> fst ` set (?A @ [(unat ?st, ?hd)])"
      unfolding set_append image_Un using log_keys [OF T that] by simp
  qed
  have one: "D 1 = ?D 1"
  proof -
    have "D (unat (1 :: uint)) = upd_list (?A @ [(unat ?st, ?hd)]) ?D (unat (1 :: uint))"
      by (rule Dx [OF home_keys [OF T disjI2 [OF refl]]])
    also have "\<dots> = ?D (unat (1 :: uint))" by (rule logpart [OF t(12)])
    finally show ?thesis by simp
  qed
  have lin: "in_log ?st (?l i)" "?l i \<noteq> ?st" if "i < ?n" for i by (rule logblk_in [OF t(6) that t(14)])+
  have da: "distinct (map (\<lambda>i. unat (?l i)) ?ts)"
    by (rule distinct_unat [OF logblk_inj [OF t(6) less_imp_le [OF t(14)]]])
  have Dl: "D (unat (?l i)) = ?C (?h i)" if i: "i < ?n" for i
  proof -
    have "D (unat (?l i)) = upd_list (?A @ [(unat ?st, ?hd)]) ?D (unat (?l i))"
      by (rule Dx [OF home_keys [OF T disjI1 [OF lin(1) [OF i]]]])
    also have "\<dots> = upd_list ?A ?D (unat (?l i))" using unat_ne [OF lin(2) [OF i]] by (simp add: upd_list_append)
    also have "\<dots> = ?C (?h i)"
      using upd_list_map_get [OF da, of i "\<lambda>i. ?C (?h i)" ?D] i by simp
    finally show ?thesis .
  qed
  have n: "?n < LOGSIZE" "0 \<le> int ?n" "int ?n \<le> int LOGSIZE" using t(5) by simp_all
  have "\<exists>r v. initlog me' 1 (reboot D d) = Ok r \<and>
      id_disk (f_ide r) 1 = (upd_list (dmap ?h (\<lambda>i. D (unat (?l i))) ?ts) D)(unat ?st := v)"
  proof (rule initlog_run [OF d _ t(6) _ n(1)])
    show "sb_logstart (sb_of (D 1)) = ?st" using one t(10) by simp
    show "sint (get32 (D (unat ?st)) 0) = int ?n" unfolding Dst by (rule header_get(1) [OF n(2,3)])
    show "?h i = get32 (D (unat ?st)) (4 + 4 * i)" if "i < ?n" for i
      unfolding Dst using header_get(2) [OF n(2,3)] that by simp
  qed (use t(8,11) in auto)
  then obtain r v where r: "initlog me' 1 (reboot D d) = Ok r"
      "id_disk (f_ide r) 1 = (upd_list (dmap ?h (\<lambda>i. D (unat (?l i))) ?ts) D)(unat ?st := v)" by blast
  have dd: "dmap ?h (\<lambda>i. D (unat (?l i))) ?ts = ?B" using Dl by simp
  have db: "distinct (map (\<lambda>i. unat (?h i)) ?ts)" by (rule distinct_unat [OF t(8)])
  have "id_disk (f_ide r) 1 (unat m) = ?C m" if m: "\<not> in_log ?st m" for m
  proof (cases "m \<in> pinned s")
    case True
    then obtain i where "i < ?n" "m = ?h i" using t(7) by auto
    then show ?thesis
      unfolding r(2) dd using upd_list_map_get [OF db, of i "\<lambda>i. ?C (?h i)" D] log_keys(2) [OF T m] by simp
  next
    case False
    have "?h i \<noteq> m" if "i < ?n" for i using False t(7) that by auto
    then have nb: "unat m \<notin> fst ` set ?B" using unat_ne by fastforce
    have "D (unat m) = ?D (unat m)" using Dx [OF nb] logpart [OF m] by simp
    then show ?thesis
      unfolding r(2) dd using upd_list_other [OF nb, of D] log_keys(2) [OF T m] content_clean [OF t(1) False] by simp
  qed
  then show ?thesis using r(1) by blast
qed

lemma crash_done:
  assumes T: "txn_ok me s" and d: "disk_ok d"
    and ws: "ws = commit_writes (nat (g_n s)) (g_start s) (g_block s) (content s)"
    and D: "D = upd_list ws (id_disk (f_ide s) 1)"
  shows "\<exists>r. initlog me' 1 (reboot D d) = Ok r \<and> (\<forall>m. \<not> in_log (g_start s) m \<longrightarrow>
     id_disk (f_ide r) 1 (unat m) = content s m)" and "\<And>m. \<not> in_log (g_start s) m \<Longrightarrow> D (unat m) = content s m"
    and "sint (get32 (D (unat (g_start s))) 0) = 0"
proof -
  let ?n = "nat (g_n s)" and ?st = "g_start s" and ?h = "g_block s" and ?C = "content s" and ?D = "id_disk (f_ide s) 1"
  let ?ts = "[0..<nat (g_n s)]" and ?l = "logblk (g_start s)"
  let ?A = "dmap ?l (\<lambda>i. ?C (?h i)) ?ts" and ?B = "dmap ?h (\<lambda>i. ?C (?h i)) ?ts" and ?hd = "header (int ?n) ?h (?C ?st)"
  let ?D1 = "upd_list (?A @ [(unat ?st, ?hd)]) ?D"
  note t = txnD [OF T]
  have D2: "D = (upd_list ?B ?D1)(unat ?st := header 0 ?h ?hd)"
    by (simp add: D ws commit_writes_def upd_list_append)
  have Dst: "D (unat ?st) = header 0 ?h ?hd" by (simp add: D2)
  show h0: "sint (get32 (D (unat ?st)) 0) = 0" unfolding Dst by (rule header_get(1)) simp_all
  have logpart: "?D1 (unat m) = ?D (unat m)" if "\<not> in_log ?st m" for m
  proof (rule upd_list_other)
    show "unat m \<notin> fst ` set (?A @ [(unat ?st, ?hd)])"
      unfolding set_append image_Un using log_keys [OF T that] by simp
  qed
  show Dm: "D (unat m) = ?C m" if m: "\<not> in_log ?st m" for m
  proof (cases "m \<in> pinned s")
    case True
    then obtain i where i: "i < ?n" "m = ?h i" using t(7) by auto
    have "upd_list ?B ?D1 (unat (?h i)) = ?C (?h i)"
      using upd_list_map_get [OF distinct_unat [OF t(8)], of i "\<lambda>i. ?C (?h i)" ?D1] i(1) by simp
    then show ?thesis unfolding D2 i(2) using log_keys(2) [OF T m] i(2) by simp
  next
    case False
    have "?h i \<noteq> m" if "i < ?n" for i using False t(7) that by auto
    then have nb: "unat m \<notin> fst ` set ?B" using unat_ne by fastforce
    show ?thesis
      unfolding D2 using upd_list_other [OF nb, of ?D1] logpart [OF m] log_keys(2) [OF T m] content_clean [OF t(1) False] by simp
  qed
  have "D (unat (1 :: uint)) = ?C 1" by (rule Dm [OF t(12)])
  also have "\<dots> = ?D (unat (1 :: uint))"
  proof -
    have "1 \<notin> pinned s" using t(7,11) by auto
    then show ?thesis by (rule content_clean [OF t(1)])
  qed
  finally have one: "D 1 = ?D 1" by simp
  obtain r v where "initlog me' 1 (reboot D d) = Ok r" "id_disk (f_ide r) 1 = D(unat ?st := v)"
    using initlog_run [OF d, where me = me' and D = D and st = "?st" and n = 0] h0 one t(6,10) by auto
  then show "\<exists>r. initlog me' 1 (reboot D d) = Ok r \<and> (\<forall>m. \<not> in_log ?st m \<longrightarrow> id_disk (f_ide r) 1 (unat m) = ?C m)"
    using Dm log_keys(2) [OF T] by (intro exI [of _ r]) simp
qed

lemma crash_any:
  assumes T: "txn_ok me s" and d: "disk_ok d"
    and ws: "ws = commit_writes (nat (g_n s)) (g_start s) (g_block s) (content s)"
  shows "\<exists>r. initlog me' 1 (reboot (upd_list (take k ws) (id_disk (f_ide s) 1)) d) = Ok r \<and> (\<forall>m. \<not> in_log (g_start s) m \<longrightarrow>
     id_disk (f_ide r) 1 (unat m) = (if k \<le> nat (g_n s) then id_disk (f_ide s) 1 (unat m) else content s m))"
proof -
  have len: "length ws = 2 * nat (g_n s) + 2" by (simp add: ws commit_writes_def)
  consider "k \<le> nat (g_n s)" | j where "k = nat (g_n s) + 1 + j" "j \<le> nat (g_n s)" | "2 * nat (g_n s) + 2 \<le> k"
  proof -
    have "k \<le> nat (g_n s) \<or> k = nat (g_n s) + 1 + (k - nat (g_n s) - 1) \<and> k - nat (g_n s) - 1 \<le> nat (g_n s) \<or> 2 * nat (g_n s) + 2 \<le> k"
      by linarith
    then show ?thesis using that by blast
  qed
  then show ?thesis
  proof cases
    case 1
    then show ?thesis using crash_before [OF T d 1 ws refl] by simp
  next
    case 2
    then show ?thesis using crash_after [OF T d 2(2) ws refl] by simp
  next
    case 3
    then have "take k ws = ws" using len by simp
    then show ?thesis using crash_done(1) [OF T d ws refl] 3 by simp
  qed
qed

end
