(* ===== verification/Txn.thy ===== *)
theory Txn
  imports Crash
begin

text \<open>
  Whole transactions: \<^verbatim>\<open>begin_op\<close>, any number of block updates through \<^verbatim>\<open>log_write\<close>, \<^verbatim>\<open>end_op\<close>. The
  updates are visible in the cache at once and reach their home locations atomically.
\<close>

text \<open>
  The log while buffers \<open>H\<close> are held. The buffers that are not pinned agree with the disk, also those that are held,
  since whoever changes one calls \<^verbatim>\<open>log_write\<close> before releasing it. Without buffers held, it is the log between
  two updates: as for \<^const>\<open>txn_ok\<close>, but possibly empty.
\<close>

definition log_held :: "int \<Rightarrow> nat set \<Rightarrow> 'z logst_scheme \<Rightarrow> bool" where
  "log_held me H s \<longleftrightarrow>
     cache_inv me H s \<and> g_dev s = 1 \<and> 0 \<le> g_n s \<and> g_n s < int LOGSIZE \<and>
     unat (g_start s) + LOGSIZE < FSSIZE \<and> 1 < unat (g_start s) \<and>
     pinned s = g_block s ` {0..<nat (g_n s)} \<and> inj_on (g_block s) {0..<nat (g_n s)} \<and>
     (\<forall>i < nat (g_n s). g_block s i < of_nat FSSIZE \<and> \<not> in_log (g_start s) (g_block s i) \<and> g_block s i \<noteq> 1) \<and>
     sint (get32 (id_disk (f_ide s) 1 (unat (g_start s))) 0) = 0 \<and>
     sb_logstart (sb_of (id_disk (f_ide s) 1 1)) = g_start s \<and>
     (\<forall>b \<in> H. b \<in> dirty s \<or> b_data (f_buf s b) = id_disk (f_ide s) 1 (unat (b_blockno (f_buf s b))))"

definition log_ready :: "int \<Rightarrow> 'z logst_scheme \<Rightarrow> bool" where
  "log_ready me s \<longleftrightarrow> log_held me {} s"

lemma log_ready_txn: "log_ready me s \<Longrightarrow> 0 < g_n s \<Longrightarrow> txn_ok me s"
  by (simp add: log_ready_def log_held_def txn_ok_def)

text \<open>How the file system changes a block (the comment above \<^verbatim>\<open>log_write\<close>).\<close>

definition update_block :: "int \<Rightarrow> uint \<Rightarrow> block \<Rightarrow> 'z logst_scheme \<Rightarrow> 'z logst_scheme res" where
  "update_block me n v s =
     bindR (bread me 1 n s) (\<lambda>(b, s).
     bindR (log_write b (set_data b v s)) (brelse me b))"

lemma log_slot_cases:
  "log_slot is bn n f \<in> set is \<and> f (log_slot is bn n f) = bn \<or> log_slot is bn n f = n \<and> (\<forall>i \<in> set is. f i \<noteq> bn)"
  by (induction "is") auto

lemma log_slot_upd:
  assumes i: "i = log_slot [0..<n] bn n f" and inj: "inj_on f {0..<n}"
  defines "n' \<equiv> if i = n then n + 1 else n"
  shows "(f(i := bn)) ` {0..<n'} = insert bn (f ` {0..<n})" "inj_on (f(i := bn)) {0..<n'}"
proof -
  consider "i < n" "f i = bn" | "i = n" "\<forall>j < n. f j \<noteq> bn" using log_slot_cases [of "[0..<n]" bn n f] i by auto
  then have "(f(i := bn)) ` {0..<n'} = insert bn (f ` {0..<n}) \<and> inj_on (f(i := bn)) {0..<n'}"
  proof cases
    case 1
    then have "f(i := bn) = f" "n' = n" by (auto simp: n'_def)
    then show ?thesis using 1 inj by auto
  next
    case 2
    then have n': "n' = Suc n" by (simp add: n'_def)
    have img: "(f(n := bn)) ` {0..<n} = f ` {0..<n}" by (rule image_cong) auto
    have "inj_on (f(n := bn)) {0..<n}" using inj by (simp add: inj_on_def)
    then have "inj_on (f(n := bn)) (insert n {0..<n})" using 2 img by (auto simp: inj_on_insert)
    moreover have "(f(n := bn)) ` (insert n {0..<n}) = insert bn (f ` {0..<n})" unfolding image_insert img by simp
    ultimately show ?thesis using 2(1) unfolding n' atLeast0_lessThan_Suc by blast
  qed
  then show "(f(i := bn)) ` {0..<n'} = insert bn (f ` {0..<n})" "inj_on (f(i := bn)) {0..<n'}" by simp_all
qed

text \<open>What an update leaves alone in the log's own variables.\<close>

definition log_same :: "'z logst_scheme \<Rightarrow> 'z logst_scheme \<Rightarrow> bool" where
  "log_same s t \<longleftrightarrow> g_start t = g_start s \<and> g_size t = g_size s \<and> g_outstanding t = g_outstanding s \<and>
     g_committing t = g_committing s \<and> g_dev t = g_dev s \<and> logst.more t = logst.more s"

lemma log_same_more: "bio.more t = bio.more s \<Longrightarrow> log_same s t \<and> g_n t = g_n s \<and> g_block t = g_block s"
  by (cases s; cases t) (simp add: log_same_def)

text \<open>What a step leaves alone besides: the disk and what has been written to it.\<close>

definition quiet :: "'z logst_scheme \<Rightarrow> 'z logst_scheme \<Rightarrow> bool" where
  "quiet s t \<longleftrightarrow> log_same s t \<and> id_disk (f_ide t) = id_disk (f_ide s) \<and> id_writes (f_ide t) = id_writes (f_ide s)"

lemma quiet_refl [simp]: "quiet s s"
  by (simp add: quiet_def log_same_def)

lemma quiet_trans: "quiet s t \<Longrightarrow> quiet t u \<Longrightarrow> quiet s u"
  by (simp add: quiet_def log_same_def)

lemma quietD:
  assumes "quiet s t"
  shows "g_start t = g_start s" "g_size t = g_size s" "g_outstanding t = g_outstanding s" "logst.more t = logst.more s"
  using assms by (simp_all add: quiet_def log_same_def)

lemma log_held_card: "log_held me H s \<Longrightarrow> g_n s = int (card (pinned s))"
  by (simp add: log_held_def card_image)

lemma held_read:
  assumes L: "log_held me H s" and n: "n < of_nat FSSIZE" "\<And>b. b \<in> H \<Longrightarrow> b_blockno (f_buf s b) \<noteq> n"
    and room: "g_n s + int (card H) < int NBUF"
  shows "\<exists>b t. bread me 1 n s = Ok (b, t) \<and> log_held me (insert b H) t \<and> b \<notin> H \<and> b_data (f_buf t b) = content s n \<and>
     b_blockno (f_buf t b) = n \<and> (\<forall>c. c \<noteq> b \<longrightarrow> f_buf t c = f_buf s c) \<and> content t = content s \<and> pinned t = pinned s \<and>
     g_n t = g_n s \<and> quiet s t"
proof -
  have s: "cache_inv me H s" using L by (simp add: log_held_def)
  have "card (pinned s) + card H < NBUF" using room log_held_card [OF L] by simp
  then obtain b t where r: "bread me 1 n s = Ok (b, t)" "reads me H s n b t"
    using bread_run [OF s n(1)] n(2) clean_exists [OF s] by blast
  note c = reads_clean [OF s r(2) n(2)]
  note p = reads_pinned [OF s r(2)]
  have t: "cache_inv me (insert b H) t" "b \<notin> H" "b_blockno (f_buf t b) = n" "b_data (f_buf t b) = content s n" "content t = content s"
      "id_disk (f_ide t) = id_disk (f_ide s)" "id_writes (f_ide t) = id_writes (f_ide s)" "dirty t = dirty s"
      "\<forall>c. c \<noteq> b \<longrightarrow> f_buf t c = f_buf s c" "bio.more t = bio.more s"
    using r(2) by (simp_all add: reads_def)
  note g = log_same_more [OF t(10)]
  have cl: "e \<in> dirty t \<or> b_data (f_buf t e) = id_disk (f_ide t) 1 (unat (b_blockno (f_buf t e)))" if "e \<in> insert b H" for e
  proof (cases "e = b")
    case False
    then have "e \<in> dirty s \<or> b_data (f_buf s e) = id_disk (f_ide s) 1 (unat (b_blockno (f_buf s e)))"
      using that L by (simp add: log_held_def)
    then show ?thesis using False t(6,8,9) by simp
  qed (use c in simp)
  have "log_held me (insert b H) t"
    using L t(1,6) g p cl by (simp add: log_held_def log_same_def)
  then show ?thesis using r(1) t g p by (auto simp: quiet_def)
qed

lemma held_write:
  assumes L: "log_held me H s" and b: "b \<in> H" and n: "n = b_blockno (f_buf s b)" "\<not> in_log (g_start s) n" "n \<noteq> 1"
    and g: "g_n s < int LOGSIZE - 1" "g_n s < g_size s - 1" "1 \<le> g_outstanding s"
  shows "\<exists>t. log_write b (set_data b v s) = Ok t \<and> log_held me H t \<and> content t = (content s)(n := v) \<and>
     pinned t = insert n (pinned s) \<and> (\<forall>c. c \<noteq> b \<longrightarrow> f_buf t c = f_buf s c) \<and> b_blockno (f_buf t b) = n \<and>
     b_data (f_buf t b) = v \<and> quiet s t"
proof -
  have s: "cache_inv me H s" "0 \<le> g_n s" "pinned s = g_block s ` {0..<nat (g_n s)}" "inj_on (g_block s) {0..<nat (g_n s)}"
    using L by (auto simp: log_held_def)
  have nl: "n < of_nat FSSIZE" using heldD(6) [OF s(1) b] n(1) by simp
  let ?a = "set_data b v s"
  note sd = set_data_run [OF s(1) b, of v]
  have gs: "log_same s ?a \<and> g_n ?a = g_n s \<and> g_block ?a = g_block s" using log_same_more [OF sd(5)] .
  let ?k = "nat (g_n s)"
  define i where "i = log_slot [0..<?k] n ?k (g_block s)"
  let ?n' = "if i = ?k then ?k + 1 else ?k"
  let ?c = "?a\<lparr>g_block := (g_block s)(i := n), g_n := int ?n'\<rparr>"
  have bn: "b_blockno (f_buf ?a b) = n" using sd(6) n(1) by simp
  have ik: "(int i = g_n s) = (i = ?k)" using s(2) by auto
  have lw: "log_write b ?a = Ok (pin b ?c)"
  proof (cases "i = ?k")
    case True
    then show ?thesis
      using g gs s(2) ik by (simp add: log_write_def bn Let_def i_def [symmetric] log_same_def add.commute)
  next
    case False
    have gn: "g_n s = g_n ?a" using gs by simp
    have e: "?a\<lparr>g_block := (g_block s)(i := n), g_n := g_n s\<rparr> = ?a\<lparr>g_block := (g_block s)(i := n)\<rparr>" unfolding gn by simp
    show ?thesis
      using False g gs s(2) ik by (simp add: log_write_def bn Let_def i_def [symmetric] log_same_def) (simp only: e)
  qed
  have cinv: "cache_inv me H ?c" using sd(1) by (simp add: cache_inv_def)
  note pr = pin_run [OF cinv b]
  have fc: "f_buf ?c = f_buf ?a" "f_lru ?c = f_lru ?a" "f_ide ?c = f_ide ?a" by simp_all
  let ?t = "pin b ?c"
  have fb: "f_buf ?t = (f_buf s)(b := (f_buf s b)\<lparr>b_data := v, b_flags := b_flags (f_buf s b) OR B_DIRTY\<rparr>)"
    using pr(6) sd(6) by simp
  have dt: "dirty ?t = insert b (dirty s)" using pr(3) sd(3) by (simp add: dirty_def)
  have bnt: "b_blockno (f_buf ?t e) = b_blockno (f_buf s e)" for e using fb by simp
  have "pinned ?t = insert n (pinned s)" unfolding pinned_def dt bnt using n(1) by simp
  then have pin: "pinned ?t = insert n (pinned s)" "pinned ?t = ((g_block s)(i := n)) ` {0..<?n'}" "inj_on ((g_block s)(i := n)) {0..<?n'}"
    using log_slot_upd [OF i_def s(4)] s(3) by simp_all
  have gt: "log_same s ?t" "g_n ?t = int ?n'" "g_block ?t = (g_block s)(i := n)"
    using gs by (simp_all add: pin_def upd_buf_def log_same_def)
  have ct: "content ?t = (content s)(n := v)" using pr(2) content_eqI [OF fc] sd(2) n(1) by simp
  have di: "id_disk (f_ide ?t) = id_disk (f_ide s)" "id_writes (f_ide ?t) = id_writes (f_ide s)"
    using pr(4) sd(4) by simp_all
  have blk: "((g_block s)(i := n)) j < of_nat FSSIZE \<and> \<not> in_log (g_start s) (((g_block s)(i := n)) j) \<and> ((g_block s)(i := n)) j \<noteq> 1"
    if "j < ?n'" for j
    using L n nl that by (auto simp: log_held_def split: if_splits)
  have cl: "e \<in> dirty ?t \<or> b_data (f_buf ?t e) = id_disk (f_ide ?t) 1 (unat (b_blockno (f_buf ?t e)))" if "e \<in> H" for e
    using that L dt fb di(1) by (cases "e = b") (auto simp: log_held_def)
  have "log_held me H ?t"
    using L pr(1) gt pin blk di g(1) cl by (auto simp: log_held_def log_same_def)
  then show ?thesis using lw ct pin(1) fb gt(1) di n(1) by (auto simp: quiet_def)
qed

lemma held_release:
  assumes L: "log_held me H s" and b: "b \<in> H"
  shows "\<exists>t. brelse me b s = Ok t \<and> log_held me (H - {b}) t \<and> content t = content s \<and> pinned t = pinned s \<and>
     (\<forall>c. c \<noteq> b \<longrightarrow> f_buf t c = f_buf s c) \<and> g_n t = g_n s \<and> quiet s t"
proof -
  have s: "cache_inv me H s" "b \<in> dirty s \<or> b_data (f_buf s b) = id_disk (f_ide s) 1 (unat (b_blockno (f_buf s b)))"
    using L b by (auto simp: log_held_def)
  obtain t where t: "brelse me b s = Ok t" "cache_inv me (H - {b}) t" "content t = content s" "f_ide t = f_ide s" "dirty t = dirty s"
      "\<forall>c. c \<noteq> b \<longrightarrow> f_buf t c = f_buf s c" "b_blockno (f_buf t b) = b_blockno (f_buf s b)" "bio.more t = bio.more s"
    using brelse_run [OF s(1) b s(2)] by blast
  have p: "pinned t = pinned s" by (rule pinned_same [OF s(1) t(2,5,6)]) (rule t(7))
  note g = log_same_more [OF t(8)]
  have "log_held me (H - {b}) t"
    using L t(2,4-6) g p by (auto simp: log_held_def log_same_def)
  then show ?thesis using t(1,3,4,6) p g by (auto simp: quiet_def)
qed

lemma update_block_run:
  assumes R: "log_ready me s" and n: "n < of_nat FSSIZE" "\<not> in_log (g_start s) n" "n \<noteq> 1"
    and g: "g_n s < int LOGSIZE - 1" "g_n s < g_size s - 1" "1 \<le> g_outstanding s"
  shows "\<exists>t. update_block me n v s = Ok t \<and> log_ready me t \<and> content t = (content s)(n := v) \<and>
     id_disk (f_ide t) = id_disk (f_ide s) \<and> id_writes (f_ide t) = id_writes (f_ide s) \<and>
     0 < g_n t \<and> g_n t \<le> g_n s + 1 \<and> log_same s t"
proof -
  have L: "log_held me {} s" using R by (simp add: log_ready_def)
  obtain b a where a: "bread me 1 n s = Ok (b, a)" "log_held me {b} a" "b_blockno (f_buf a b) = n" "content a = content s"
      "pinned a = pinned s" "g_n a = g_n s" "quiet s a"
    using held_read [OF L n(1)] g(1) by auto
  note qa = quietD [OF a(7)]
  obtain c where c: "log_write b (set_data b v a) = Ok c" "log_held me {b} c" "content c = (content a)(n := v)"
      "pinned c = insert n (pinned a)" "quiet a c"
    using held_write [OF a(2), of b n v] a(3,6) n g qa by auto
  obtain t where t: "brelse me b c = Ok t" "log_held me ({b} - {b}) t" "content t = content c" "pinned t = pinned c" "quiet c t"
    using held_release [OF c(2), of b] by auto
  have p: "pinned t = insert n (pinned s)" using t(4) c(4) a(5) by simp
  have q: "quiet s t" using a(7) c(5) t(5) by (blast intro: quiet_trans)
  have fin: "finite (pinned s)" by (simp add: pinned_def)
  have "g_n t = int (card (pinned t))" "g_n s = int (card (pinned s))" using log_held_card t(2) L by auto
  then have "0 < g_n t" "g_n t \<le> g_n s + 1" unfolding p using fin by (auto simp: card_insert_if card_gt_0_iff)
  moreover have "update_block me n v s = Ok t" using a(1) c(1) t(1) by (simp add: update_block_def)
  ultimately show ?thesis using t a(4) c(3) q by (auto simp: log_ready_def quiet_def)
qed

lemma updates_run:
  assumes "log_ready me s" "g_n s + int (length us) < int LOGSIZE" "g_n s + int (length us) < g_size s" "1 \<le> g_outstanding s"
    and "\<And>n v. (n, v) \<in> set us \<Longrightarrow> n < of_nat FSSIZE \<and> \<not> in_log (g_start s) n \<and> n \<noteq> 1"
  shows "\<exists>t. write_list (update_block me) us s = Ok t \<and> log_ready me t \<and> content t = upd_list us (content s) \<and>
     id_disk (f_ide t) = id_disk (f_ide s) \<and> id_writes (f_ide t) = id_writes (f_ide s) \<and>
     (us = [] \<or> 0 < g_n t) \<and> g_n t \<le> g_n s + int (length us) \<and> log_same s t"
  using assms
proof (induction us arbitrary: s)
  case Nil
  then show ?case by (auto simp: log_same_def)
next
  case (Cons u us)
  obtain n v where u: "u = (n, v)" by (cases u)
  have n: "n < of_nat FSSIZE" "\<not> in_log (g_start s) n" "n \<noteq> 1" using Cons.prems(5) u by auto
  obtain t where t: "update_block me n v s = Ok t" "log_ready me t" "content t = (content s)(n := v)"
      "id_disk (f_ide t) = id_disk (f_ide s)" "id_writes (f_ide t) = id_writes (f_ide s)" "0 < g_n t" "g_n t \<le> g_n s + 1" "log_same s t"
    using update_block_run [OF Cons.prems(1) n] Cons.prems(2-4) by auto
  have g: "g_start t = g_start s" "g_size t = g_size s" "g_outstanding t = g_outstanding s" using t(8) by (simp_all add: log_same_def)
  obtain w where w: "write_list (update_block me) us t = Ok w" "log_ready me w" "content w = upd_list us (content t)"
      "id_disk (f_ide w) = id_disk (f_ide t)" "id_writes (f_ide w) = id_writes (f_ide t)"
      "us = [] \<or> 0 < g_n w" "g_n w \<le> g_n t + int (length us)" "log_same t w"
    using Cons.IH [OF t(2)] Cons.prems(2-5) t(7) g by auto
  have pos: "0 < g_n w" using w(1,6) t(6) by (cases us) auto
  have "log_same s w" using t(8) w(8) by (simp add: log_same_def)
  then show ?case using t u w pos by auto
qed

lemma commit_done:
  assumes "txn_ok me s"
  shows "\<exists>t. commit me s = Ok t \<and> log_ready me t \<and> g_n t = 0 \<and> log_same s t \<and>
     (\<forall>m. \<not> in_log (g_start s) m \<longrightarrow> content t m = content s m \<and> id_disk (f_ide t) 1 (unat m) = content s m) \<and>
     id_writes (f_ide t) = id_writes (f_ide s) @ map (Pair 1) (commit_writes (nat (g_n s)) (g_start s) (g_block s) (content s))"
proof -
  let ?ws = "commit_writes (nat (g_n s)) (g_start s) (g_block s) (content s)"
  note T = txnD [OF assms]
  obtain t C where t: "commit me s = Ok t" "cview me t C {} (upd_list ?ws (id_disk (f_ide s) 1)) (id_writes (f_ide s) @ map (Pair 1) ?ws)"
      "bio.more t = bio.more (s\<lparr>g_n := 0\<rparr>)"
    using commit_run [OF assms] by blast
  have tv: "cache_inv me {} t" "pinned t = {}" "id_disk (f_ide t) 1 = upd_list ?ws (id_disk (f_ide s) 1)"
      "id_writes (f_ide t) = id_writes (f_ide s) @ map (Pair 1) ?ws"
    using t(2) by (simp_all add: cview_def)
  note cd = crash_done [OF assms T(2) refl refl]
  have g: "log_same s t" "g_n t = 0" using log_same_more [OF t(3)] by (simp_all add: log_same_def)
  have m: "content t m = content s m \<and> id_disk (f_ide t) 1 (unat m) = content s m" if "\<not> in_log (g_start s) m" for m
    using cd(2) [OF that] content_clean [OF tv(1), of m] tv(2,3) by simp
  have "1 \<notin> pinned s" using T(7,11) by auto
  then have "id_disk (f_ide t) 1 1 = id_disk (f_ide s) 1 1" using m [OF T(12)] content_clean [OF T(1), of 1] by simp
  then have "log_ready me t"
    using tv cd(3) g T assms by (simp add: log_ready_def log_held_def log_same_def txn_ok_def)
  then show ?thesis using t(1) g m tv(4) by blast
qed

lemma txn_committing: "txn_ok me (s\<lparr>g_outstanding := a, g_committing := b\<rparr>) = txn_ok me s"
proof -
  have c: "cache_inv me {} (s\<lparr>g_outstanding := a, g_committing := b\<rparr>) = cache_inv me {} s"
    "pinned (s\<lparr>g_outstanding := a, g_committing := b\<rparr>) = pinned s"
    by (simp_all add: cache_inv_def pinned_def dirty_def)
  show ?thesis unfolding txn_ok_def c by simp
qed

lemma ready_fields:
  "log_ready me (s\<lparr>g_outstanding := a\<rparr>) = log_ready me s" "log_ready me (wake c (s\<lparr>g_committing := b\<rparr>)) = log_ready me s"
proof -
  have c: "cache_inv me {} (s\<lparr>g_outstanding := a\<rparr>) = cache_inv me {} s" "pinned (s\<lparr>g_outstanding := a\<rparr>) = pinned s"
    "cache_inv me {} (wake c (s\<lparr>g_committing := b\<rparr>)) = cache_inv me {} s" "pinned (wake c (s\<lparr>g_committing := b\<rparr>)) = pinned s"
    by (simp_all add: cache_inv_def pinned_def dirty_def)
  show "log_ready me (s\<lparr>g_outstanding := a\<rparr>) = log_ready me s" unfolding log_ready_def log_held_def c by simp
  show "log_ready me (wake c (s\<lparr>g_committing := b\<rparr>)) = log_ready me s"
    unfolding log_ready_def log_held_def c by (simp add: wake_def)
qed

section \<open>Properties\<close>

definition transaction :: "int \<Rightarrow> (uint \<times> block) list \<Rightarrow> 'z logst_scheme \<Rightarrow> 'z logst_scheme res" where
  "transaction me us s = bindR (begin_op s) (\<lambda>s. bindR (write_list (update_block me) us s) (end_op me))"

text \<open>
  C4: File system transactions are atomic across crashes. On an empty log with no operation in progress, let
  one operation (\<^verbatim>\<open>begin_op\<close>, up to \<^const>\<open>MAXOPBLOCKS\<close> block updates through
  \<^verbatim>\<open>log_write\<close>, \<^verbatim>\<open>end_op\<close>) run on blocks outside of the log. It completes, leaves the log
  empty, and the updated contents are in the cache and at their home locations on disk. Cut the
  disk writes it issued after any number \<open>k\<close> of them and boot the kernel on what the disk then holds
  (\<^verbatim>\<open>binit\<close>, \<^verbatim>\<open>initlog\<close> with its recovery): every block outside of the log is as before the
  operation if \<open>k\<close> is at most some \<open>j\<close>, and every one is as after it otherwise.
\<close>

theorem transaction_crash_safe:
  assumes R: "log_ready me s" and g: "g_n s = 0" "g_outstanding s = 0" "g_committing s = 0"
    and us: "us \<noteq> []" "length us \<le> MAXOPBLOCKS" "int (length us) < g_size s"
    and ok: "\<And>n v. (n, v) \<in> set us \<Longrightarrow> n < of_nat FSSIZE \<and> \<not> in_log (g_start s) n \<and> n \<noteq> 1"
  shows "\<exists>t ws j. transaction me us s = Ok t \<and> log_ready me t \<and> g_n t = 0 \<and> g_outstanding t = 0 \<and> g_committing t = 0 \<and>
     id_writes (f_ide t) = id_writes (f_ide s) @ map (Pair 1) ws \<and>
     (\<forall>m. \<not> in_log (g_start s) m \<longrightarrow>
        content t m = upd_list us (content s) m \<and> id_disk (f_ide t) 1 (unat m) = upd_list us (content s) m) \<and>
     (\<forall>k d. disk_ok d \<longrightarrow> (\<exists>r. initlog me' 1 (reboot (upd_list (take k ws) (id_disk (f_ide s) 1)) d) = Ok r \<and>
        (\<forall>m. \<not> in_log (g_start s) m \<longrightarrow>
           id_disk (f_ide r) 1 (unat m) = (if k \<le> j then id_disk (f_ide s) 1 (unat m) else upd_list us (content s) m))))"
proof -
  let ?a = "s\<lparr>g_outstanding := 1\<rparr>"
  have a: "begin_op s = Ok ?a" "log_ready me ?a" "content ?a = content s"
    using g R content_eqI [of ?a s] by (simp_all add: begin_op_def ready_fields)
  obtain b where b: "write_list (update_block me) us ?a = Ok b" "log_ready me b" "content b = upd_list us (content s)"
      "id_disk (f_ide b) = id_disk (f_ide s)" "id_writes (f_ide b) = id_writes (f_ide s)" "0 < g_n b" "log_same ?a b"
  proof -
    have "\<exists>t. write_list (update_block me) us ?a = Ok t \<and> log_ready me t \<and> content t = upd_list us (content ?a) \<and>
        id_disk (f_ide t) = id_disk (f_ide ?a) \<and> id_writes (f_ide t) = id_writes (f_ide ?a) \<and>
        (us = [] \<or> 0 < g_n t) \<and> g_n t \<le> g_n ?a + int (length us) \<and> log_same ?a t"
      by (rule updates_run [OF a(2)]) (use g us ok in simp_all)
    then show ?thesis using that us(1) unfolding a(3) by auto
  qed
  have gb: "g_outstanding b = 1" "g_committing b = 0" "g_start b = g_start s" using b(7) g by (simp_all add: log_same_def)
  let ?c = "b\<lparr>g_outstanding := 0, g_committing := 1\<rparr>"
  have tx: "txn_ok me ?c" using log_ready_txn [OF b(2,6)] by (simp add: txn_committing)
  have "content ?c = content b" by (rule content_eqI) simp_all
  then have cc: "content ?c = content b" "id_disk (f_ide ?c) = id_disk (f_ide b)" by simp_all
  obtain d where d: "commit me ?c = Ok d" "log_ready me d" "g_n d = 0" "log_same ?c d"
      "\<forall>m. \<not> in_log (g_start b) m \<longrightarrow> content d m = content b m \<and> id_disk (f_ide d) 1 (unat m) = content b m"
      "id_writes (f_ide d) = id_writes (f_ide b) @ map (Pair 1) (commit_writes (nat (g_n b)) (g_start b) (g_block b) (content b))"
    using commit_done [OF tx] unfolding cc by auto
  let ?t = "wake CLog (d\<lparr>g_committing := 0\<rparr>)" and ?ws = "commit_writes (nat (g_n b)) (g_start b) (g_block b) (content b)"
  have run: "transaction me us s = Ok ?t"
    using a(1) b(1) gb d(1) by (simp add: transaction_def end_op_def Let_def)
  have ct: "content ?t = content d" by (rule content_eqI) simp_all
  have "g_n ?t = 0" "g_outstanding ?t = 0" "g_committing ?t = 0" using d(3,4) by (simp_all add: wake_def log_same_def)
  moreover have "log_ready me ?t" using d(2) by (simp add: ready_fields)
  moreover have "id_writes (f_ide ?t) = id_writes (f_ide s) @ map (Pair 1) ?ws" using d(6) b(5) by simp
  moreover have "content ?t m = upd_list us (content s) m \<and> id_disk (f_ide ?t) 1 (unat m) = upd_list us (content s) m"
    if "\<not> in_log (g_start s) m" for m using d(5) that ct b(3) gb(3) by simp
  moreover have "\<exists>r. initlog me' 1 (reboot (upd_list (take k ?ws) (id_disk (f_ide s) 1)) e) = Ok r \<and>
        (\<forall>m. \<not> in_log (g_start s) m \<longrightarrow>
           id_disk (f_ide r) 1 (unat m) = (if k \<le> nat (g_n b) then id_disk (f_ide s) 1 (unat m) else upd_list us (content s) m))"
    if "disk_ok e" for k e
    using crash_any [OF tx that refl, of me' k] unfolding cc by (simp add: b(3,4) gb(3) cong: if_cong)
  ultimately show ?thesis
    using run by (intro exI [of _ ?t] exI [of _ ?ws] exI [of _ "nat (g_n b)"]) simp
qed

text \<open>A disk with the super block of mkfs.c, everything else zero.\<close>

definition demo_disk :: "nat \<Rightarrow> block" where
  "demo_disk n = (if n = 1 then put_sb mkfs_sb else (\<lambda>_. 0))"

definition demo_log :: logst where
  "demo_log = (reboot demo_disk two_drives)\<lparr>g_start := 2, g_size := 30, g_dev := 1\<rparr>"

lemma binit_more: "bio.more (binit s) = bio.more s"
proof -
  have "bio.more (binit_from bs r) = bio.more r" for bs and r :: "'a bio_scheme"
    by (induction bs arbitrary: r) (auto simp: upd_buf_def)
  then show ?thesis by (simp add: binit_def)
qed

lemma demo_log_ready:
  "log_ready me demo_log" "g_n demo_log = 0" "g_outstanding demo_log = 0" "g_committing demo_log = 0" "g_size demo_log = 30" "g_start demo_log = 2"
proof -
  have dk: "disk_ok two_drives" by (simp add: disk_ok_def two_drives_def ready_def)
  have more: "bio.more (reboot demo_disk two_drives) =
      \<lparr>g_start = 0, g_size = 0, g_outstanding = 0, g_committing = 0, g_dev = 0, g_n = 0, g_block = (\<lambda>_. 0)\<rparr>"
    unfolding reboot_def by (subst binit_more) (simp add: bio.defs)
  then show g: "g_n demo_log = 0" "g_outstanding demo_log = 0" "g_committing demo_log = 0" "g_size demo_log = 30" "g_start demo_log = 2"
    by (cases "reboot demo_disk two_drives"; simp add: demo_log_def)+
  have "cview me demo_log (\<lambda>m. demo_disk (unat m)) {} demo_disk (id_writes two_drives)"
    using reboot_view [OF dk, of me demo_disk] cview_eqI [of demo_log "reboot demo_disk two_drives"] by (simp add: demo_log_def)
  moreover have "get32 (demo_disk 2) 0 = 0" by (simp add: demo_disk_def get32_def)
  ultimately show "log_ready me demo_log"
    using g by (simp add: log_ready_def log_held_def cview_def demo_log_def mkfs_sb_eq demo_disk_def)
qed

theorem transaction_crash_safe_witness:
  "\<exists>t. transaction 1 [(32, \<lambda>_. 7), (59, \<lambda>_. 8)] demo_log = Ok t \<and> content t 32 = (\<lambda>_. 7) \<and> id_disk (f_ide t) 1 59 = (\<lambda>_. 8)"
proof -
  let ?us = "[(32, \<lambda>_. 7), (59, \<lambda>_. 8)] :: (uint \<times> block) list"
  have ok: "n < of_nat FSSIZE \<and> \<not> in_log (g_start demo_log) n \<and> n \<noteq> 1" if "(n, v) \<in> set ?us" for n v
    using that demo_log_ready(6) by (auto simp: in_log_def)
  have us: "?us \<noteq> []" "length ?us \<le> MAXOPBLOCKS" "int (length ?us) < g_size demo_log" using demo_log_ready(5) by simp_all
  obtain t where t: "transaction 1 ?us demo_log = Ok t"
      "\<forall>m. \<not> in_log (g_start demo_log) m \<longrightarrow> content t m = upd_list ?us (content demo_log) m \<and>
        id_disk (f_ide t) 1 (unat m) = upd_list ?us (content demo_log) m"
    using transaction_crash_safe [OF demo_log_ready(1-4) us, where me = 1 and me' = 1] ok by blast
  have "\<not> in_log (g_start demo_log) 32" "\<not> in_log (g_start demo_log) 59" using demo_log_ready(6) by (simp_all add: in_log_def)
  then have "content t 32 = upd_list ?us (content demo_log) 32" "id_disk (f_ide t) 1 (unat (59 :: uint)) = upd_list ?us (content demo_log) 59"
    using t(2) by blast+
  then show ?thesis using t(1) by simp
qed

end
