(* ===== verification/CString.thy ===== *)
theory CString
  imports Prelude
begin

text \<open>
  C strings and the string routines of string.c and ulib.c. A string is the list of its bytes without
  the terminating zero; \<open>fst_ch s\<close> is the byte a pointer to \<open>s\<close> reads, zero at the end. The copying routines
  return the bytes they store, in order.
\<close>

type_synonym cstr = "uchar list"

text \<open>A string literal of the source.\<close>

definition lit :: "string \<Rightarrow> cstr" where
  "lit s = map of_char s"

definition fst_ch :: "cstr \<Rightarrow> uchar" where
  "fst_ch s = (case s of [] \<Rightarrow> 0 | c # _ \<Rightarrow> c)"

section \<open>string.c\<close>

fun strncmp :: "cstr \<Rightarrow> cstr \<Rightarrow> nat \<Rightarrow> int" where
  "strncmp p q 0 = 0"
| "strncmp p q (Suc n) =
     (if fst_ch p \<noteq> 0 \<and> fst_ch p = fst_ch q then strncmp (tl p) (tl q) n else uint (fst_ch p) - uint (fst_ch q))"

fun strncpy :: "cstr \<Rightarrow> nat \<Rightarrow> uchar list" where
  "strncpy t 0 = []"
| "strncpy t (Suc n) = fst_ch t # (if fst_ch t \<noteq> 0 then strncpy (tl t) n else replicate n 0)"

fun safestrcpy_loop :: "cstr \<Rightarrow> nat \<Rightarrow> uchar list" where
  "safestrcpy_loop t 0 = [0]"
| "safestrcpy_loop t (Suc n) = fst_ch t # (if fst_ch t \<noteq> 0 then safestrcpy_loop (tl t) n else [0])"

definition safestrcpy :: "cstr \<Rightarrow> int \<Rightarrow> uchar list" where
  "safestrcpy t n = (if n \<le> 0 then [] else safestrcpy_loop t (nat (n - 1)))"

fun strlen :: "cstr \<Rightarrow> int" where
  "strlen [] = 0"
| "strlen (c # s) = (if c = 0 then 0 else 1 + strlen s)"

section \<open>ulib.c\<close>

fun strcpy :: "cstr \<Rightarrow> uchar list" where
  "strcpy [] = [0]"
| "strcpy (c # t) = c # (if c \<noteq> 0 then strcpy t else [])"

function strcmp :: "cstr \<Rightarrow> cstr \<Rightarrow> int" where
  "strcmp p q = (if fst_ch p \<noteq> 0 \<and> fst_ch p = fst_ch q then strcmp (tl p) (tl q) else uint (fst_ch p) - uint (fst_ch q))"
  by pat_completeness auto
termination by (relation "measure (\<lambda>(p, q). length p)") (auto simp: fst_ch_def split: list.splits)

declare strcmp.simps [simp del]

text \<open>The pointer \<^verbatim>\<open>strchr\<close> returns is given by the string it points to.\<close>

fun strchr :: "cstr \<Rightarrow> uchar \<Rightarrow> cstr option" where
  "strchr [] c = None"
| "strchr (a # s) c = (if a = 0 then None else if a = c then Some (a # s) else strchr s c)"

fun atoi_loop :: "cstr \<Rightarrow> int \<Rightarrow> int" where
  "atoi_loop [] n = n"
| "atoi_loop (c # s) n = (if 48 \<le> c \<and> c \<le> 57 then atoi_loop s (n * 10 + uint c - 48) else n)"

definition atoi :: "cstr \<Rightarrow> int" where
  "atoi s = atoi_loop s 0"

section \<open>Strings as values\<close>

text \<open>The string in a buffer: its bytes up to the first zero.\<close>

definition str_of :: "uchar list \<Rightarrow> cstr" where
  "str_of bs = takeWhile (\<lambda>c. c \<noteq> 0) bs"

lemma str_of_Nil [simp]: "str_of [] = []" and str_of_Cons: "str_of (c # s) = (if c = 0 then [] else c # str_of s)"
  by (simp_all add: str_of_def)

lemma fst_str_of [simp]: "fst_ch (str_of s) = fst_ch s"
  by (cases s) (simp_all add: fst_ch_def str_of_Cons)

lemma str_of_fst: "str_of s = (if fst_ch s = 0 then [] else fst_ch s # str_of (tl s))"
  by (cases s) (simp_all add: fst_ch_def str_of_Cons)

lemma uint_diff_zero [simp]: "uint c - uint d = 0 \<longleftrightarrow> c = (d :: uchar)"
  by (simp add: word_uint_eq_iff)

lemma strncmp_eq: "strncmp p q n = 0 \<longleftrightarrow> take n (str_of p) = take n (str_of q)"
proof (induction n arbitrary: p q)
  case (Suc n)
  then show ?case by (auto simp: str_of_fst [of p] str_of_fst [of q] simp del: right_minus_eq)
qed simp

lemma strcmp_eq: "strcmp p q = 0 \<longleftrightarrow> str_of p = str_of q"
proof (induction p q rule: strcmp.induct)
  case (1 p q)
  then show ?case
    by (subst strcmp.simps) (auto simp: str_of_fst [of p] str_of_fst [of q] uint_0_iff simp del: right_minus_eq)
qed

lemma strncpy_props: "length (strncpy t n) = n \<and> str_of (strncpy t n) = take n (str_of t)"
proof (induction n arbitrary: t)
  case (Suc n)
  then show ?case by (auto simp: str_of_fst [of t] str_of_Cons)
qed simp

lemma strlen_length: "strlen s = int (length (str_of s))"
  by (induction s) (auto simp: str_of_Cons)

lemma strcpy_bytes: "strcpy s = str_of s @ [0]"
  by (induction s) (auto simp: str_of_Cons)

lemma safestrcpy_loop_props:
  "length (safestrcpy_loop t n) \<le> Suc n \<and> 0 \<in> set (safestrcpy_loop t n) \<and> str_of (safestrcpy_loop t n) = take n (str_of t)"
proof (induction n arbitrary: t)
  case (Suc n)
  then show ?case by (auto simp: str_of_fst [of t] str_of_Cons)
qed (simp add: str_of_Cons)

section \<open>What the routines promise\<close>

text \<open>
  \<^bold>\<open>C28.\<close> The bounded string routines agree with each other: a copy made by \<^verbatim>\<open>strncpy\<close> fills exactly its \<open>n\<close>
  bytes and compares equal (\<^verbatim>\<open>strncmp\<close> over the same \<open>n\<close>) to exactly the strings with the same first \<open>n\<close>
  characters; \<^verbatim>\<open>safestrcpy\<close> stores at most \<open>n\<close> bytes, among them a terminating zero, and the copy is the
  string cut to \<open>n - 1\<close> characters.
\<close>

theorem string_copies:
  "length (strncpy t n) = n \<and>
   (strncmp s (strncpy t n) n = 0 \<longleftrightarrow> take n (str_of s) = take n (str_of t)) \<and>
   (0 < m \<longrightarrow> int (length (safestrcpy t m)) \<le> m \<and> 0 \<in> set (safestrcpy t m) \<and>
      strlen (safestrcpy t m) = min (m - 1) (strlen t) \<and>
      str_of (safestrcpy t m) = take (nat (m - 1)) (str_of t))"
proof -
  have "int (length (safestrcpy t m)) \<le> m \<and> 0 \<in> set (safestrcpy t m) \<and>
      strlen (safestrcpy t m) = min (m - 1) (strlen t) \<and> str_of (safestrcpy t m) = take (nat (m - 1)) (str_of t)"
    if "0 < m"
    using that safestrcpy_loop_props [of t "nat (m - 1)"] unfolding safestrcpy_def strlen_length by auto
  then show ?thesis using strncpy_props [of t n] by (auto simp: strncmp_eq)
qed

theorem string_copies_witness:
  "strncpy [97, 98] 4 = [97, 98, 0, 0] \<and> strncmp [97, 98] (strncpy [97, 98] 4) 4 = 0 \<and>
   safestrcpy [97, 98, 99] 3 = [97, 98, 0] \<and> 0 \<in> set (safestrcpy [97, 98, 99] 3)"
proof -
  have "strncpy [97, 98] 4 = [97, 98, 0, 0] \<and> safestrcpy [97, 98, 99] 3 = [97, 98, 0]" by code_simp
  then show ?thesis
    using string_copies [of "[97, 98]" 4 "[97, 98]" 3] string_copies [of "[97, 98, 99]" 4 "[97, 98]" 3] by auto
qed

end
