(* ===== verification/Fs.thy ===== *)
theory Fs
  imports Log CString
begin

text \<open>
  The file system proper, fs.c: block allocation in the bitmap, inodes and their cache, file contents,
  directories and path names. An inode pointer is its index in \<^verbatim>\<open>icache.inode\<close>; a null pointer that a
  routine returns is \<^const>\<open>None\<close>. Sections under \<^verbatim>\<open>icache.lock\<close> are one step. Buffers of the caller are
  lists of bytes: \<^verbatim>\<open>readi\<close> returns the bytes it stores, \<^verbatim>\<open>writei\<close> gets the bytes to write. The device
  switch \<^verbatim>\<open>devsw\<close>, a table of functions, is an argument.
\<close>

section \<open>State\<close>

abbreviation (input) ROOTINO :: uint where "ROOTINO \<equiv> 1"
abbreviation (input) NDIRECT :: nat where "NDIRECT \<equiv> 12"
abbreviation (input) NINDIRECT :: nat where "NINDIRECT \<equiv> 128"
abbreviation (input) MAXFILE :: uint where "MAXFILE \<equiv> 140"
abbreviation (input) IPB :: uint where "IPB \<equiv> 8"
abbreviation (input) BPB :: nat where "BPB \<equiv> 4096"
abbreviation (input) DIRSIZ :: nat where "DIRSIZ \<equiv> 14"
abbreviation (input) T_DIR :: ushort where "T_DIR \<equiv> 1"
abbreviation (input) T_FILE :: ushort where "T_FILE \<equiv> 2"
abbreviation (input) T_DEV :: ushort where "T_DEV \<equiv> 3"

record dinode =
  d_type :: ushort
  d_major :: ushort
  d_minor :: ushort
  d_nlink :: ushort
  d_size :: uint
  d_addrs :: "nat \<Rightarrow> uint"

record inode = dinode +
  i_dev :: uint
  i_inum :: uint
  i_ref :: int
  i_lock :: sleeplock
  i_valid :: int

record dirent =
  de_inum :: ushort
  de_name :: cstr

record stat =
  st_type :: ushort
  st_dev :: uint
  st_ino :: uint
  st_nlink :: ushort
  st_size :: uint

record fsst = logst +
  x_sb :: superblock
  x_inode :: "nat \<Rightarrow> inode"

type_synonym 's dev_read = "nat \<Rightarrow> int \<Rightarrow> 's \<Rightarrow> (int \<times> uchar list \<times> 's) res"
type_synonym 's dev_write = "nat \<Rightarrow> uchar list \<Rightarrow> int \<Rightarrow> 's \<Rightarrow> (int \<times> 's) res"

definition upd_inode :: "nat \<Rightarrow> (inode \<Rightarrow> inode) \<Rightarrow> 'z fsst_scheme \<Rightarrow> 'z fsst_scheme" where
  "upd_inode ip f s = s\<lparr>x_inode := (x_inode s)(ip := f (x_inode s ip))\<rparr>"

definition IBLOCK :: "uint \<Rightarrow> superblock \<Rightarrow> uint" where
  "IBLOCK i sb = i div IPB + sb_inodestart sb"

definition BBLOCK :: "uint \<Rightarrow> superblock \<Rightarrow> uint" where
  "BBLOCK b sb = b div of_nat BPB + sb_bmapstart sb"

text \<open>The structures that overlay a block or a buffer: the dinode at offset \<open>o\<close>, and the 16 bytes of a directory entry.\<close>

definition get_dinode :: "block \<Rightarrow> nat \<Rightarrow> dinode" where
  "get_dinode v o1 = \<lparr>d_type = get16 v o1, d_major = get16 v (o1 + 2), d_minor = get16 v (o1 + 4), d_nlink = get16 v (o1 + 6),
     d_size = get32 v (o1 + 8), d_addrs = (\<lambda>i. if i \<le> NDIRECT then get32 v (o1 + 12 + 4 * i) else 0)\<rparr>"

fun put_addrs :: "nat list \<Rightarrow> nat \<Rightarrow> (nat \<Rightarrow> uint) \<Rightarrow> block \<Rightarrow> block" where
  "put_addrs [] o1 f v = v"
| "put_addrs (i # is) o1 f v = put_addrs is o1 f (put32 (o1 + 4 * i) (f i) v)"

definition put_dinode :: "nat \<Rightarrow> 'y dinode_scheme \<Rightarrow> block \<Rightarrow> block" where
  "put_dinode o1 d v =
     (let v = put16 o1 (d_type d) v; v = put16 (o1 + 2) (d_major d) v; v = put16 (o1 + 4) (d_minor d) v;
          v = put16 (o1 + 6) (d_nlink d) v; v = put32 (o1 + 8) (d_size d) v
      in put_addrs [0..<Suc NDIRECT] (o1 + 12) (d_addrs d) v)"

definition dinode_at :: "uint \<Rightarrow> nat" where
  "dinode_at inum = 64 * unat (inum mod IPB)"

definition blk_get :: "block \<Rightarrow> nat \<Rightarrow> nat \<Rightarrow> uchar list" where
  "blk_get v o1 m = map (\<lambda>i. v (o1 + i)) [0..<m]"

definition blk_put :: "nat \<Rightarrow> uchar list \<Rightarrow> block \<Rightarrow> block" where
  "blk_put o1 bs v = (\<lambda>i. if o1 \<le> i \<and> i < o1 + length bs then bs ! (i - o1) else v i)"

definition get_dirent :: "uchar list \<Rightarrow> dirent" where
  "get_dirent bs = \<lparr>de_inum = get16 (\<lambda>i. bs ! i) 0, de_name = drop 2 bs\<rparr>"

definition put_dirent :: "dirent \<Rightarrow> uchar list" where
  "put_dirent d = [ucast (de_inum d), ucast (drop_bit 8 (de_inum d))] @ de_name d"

section \<open>Blocks\<close>

definition bzero :: "int \<Rightarrow> uint \<Rightarrow> uint \<Rightarrow> 'z logst_scheme \<Rightarrow> 'z logst_scheme res" where
  "bzero me dev bno s =
     bindR (bread me dev bno s) (\<lambda>(bp, s).
     bindR (log_write bp (set_data bp (blk_put 0 (replicate BSIZE 0) (b_data (f_buf s bp))) s)) (brelse me bp))"

text \<open>\<^verbatim>\<open>m = 1 << (bi % 8)\<close>: the bit of block \<open>bi\<close> in its byte.\<close>

definition bit_mask :: "nat \<Rightarrow> uchar" where
  "bit_mask bi = push_bit (bi mod 8) 1"

definition bit_clear :: "block \<Rightarrow> nat \<Rightarrow> bool" where
  "bit_clear v bi \<longleftrightarrow> v (bi div 8) AND bit_mask bi = 0"

text \<open>The outer loop of \<^verbatim>\<open>balloc\<close> over the bitmap blocks; the inner one is the search for the first clear bit.\<close>

fun balloc_from :: "int \<Rightarrow> uint \<Rightarrow> nat list \<Rightarrow> 'z fsst_scheme \<Rightarrow> (uint \<times> 'z fsst_scheme) res" where
  "balloc_from me dev [] s = Panic ''balloc: out of blocks''"
| "balloc_from me dev (b # bs) s =
     bindR (bread me dev (BBLOCK (of_nat b) (x_sb s)) s) (\<lambda>(bp, s).
       let v = b_data (f_buf s bp)
       in case List.find (\<lambda>bi. b + bi < unat (sb_size (x_sb s)) \<and> bit_clear v bi) [0..<BPB] of
            Some bi \<Rightarrow>
              bindR (log_write bp (set_data bp (v(bi div 8 := v (bi div 8) OR bit_mask bi)) s)) (\<lambda>s.
              bindR (brelse me bp s) (\<lambda>s.
              bindR (bzero me dev (of_nat (b + bi)) s) (\<lambda>s. Ok (of_nat (b + bi), s))))
          | None \<Rightarrow> bindR (brelse me bp s) (balloc_from me dev bs))"

definition balloc :: "int \<Rightarrow> uint \<Rightarrow> 'z fsst_scheme \<Rightarrow> (uint \<times> 'z fsst_scheme) res" where
  "balloc me dev s = balloc_from me dev (map (\<lambda>k. k * BPB) [0..<(unat (sb_size (x_sb s)) + BPB - 1) div BPB]) s"

definition bfree :: "int \<Rightarrow> uint \<Rightarrow> uint \<Rightarrow> 'z fsst_scheme \<Rightarrow> 'z fsst_scheme res" where
  "bfree me dev b s =
     bindR (bread me dev (BBLOCK b (x_sb s)) s) (\<lambda>(bp, s).
       let v = b_data (f_buf s bp); bi = unat b mod BPB
       in if bit_clear v bi then Panic ''freeing free block''
          else bindR (log_write bp (set_data bp (v(bi div 8 := v (bi div 8) AND NOT (bit_mask bi))) s)) (brelse me bp))"

section \<open>Inodes\<close>

definition iinit :: "int \<Rightarrow> uint \<Rightarrow> 'z fsst_scheme \<Rightarrow> 'z fsst_scheme res" where
  "iinit me dev s =
     (let s = s\<lparr>x_inode := (\<lambda>i. if i < NINODE then (x_inode s i)\<lparr>i_lock := initsleeplock ''inode'' (i_lock (x_inode s i))\<rparr>
                                else x_inode s i)\<rparr>
      in bindR (readsb me dev s) (\<lambda>(sb, s). Ok (s\<lparr>x_sb := sb\<rparr>)))"

definition iget :: "uint \<Rightarrow> uint \<Rightarrow> 'z fsst_scheme \<Rightarrow> (nat \<times> 'z fsst_scheme) res" where
  "iget dev inum s =
     (case List.find (\<lambda>i. i_ref (x_inode s i) > 0 \<and> i_dev (x_inode s i) = dev \<and> i_inum (x_inode s i) = inum) [0..<NINODE] of
        Some ip \<Rightarrow> Ok (ip, upd_inode ip (\<lambda>x. x\<lparr>i_ref := i_ref x + 1\<rparr>) s)
      | None \<Rightarrow>
          (case List.find (\<lambda>i. i_ref (x_inode s i) = 0) [0..<NINODE] of
             None \<Rightarrow> Panic ''iget: no inodes''
           | Some ip \<Rightarrow> Ok (ip, upd_inode ip (\<lambda>x. x\<lparr>i_dev := dev, i_inum := inum, i_ref := 1, i_valid := 0\<rparr>) s)))"

fun ialloc_from :: "int \<Rightarrow> uint \<Rightarrow> ushort \<Rightarrow> nat list \<Rightarrow> 'z fsst_scheme \<Rightarrow> (nat \<times> 'z fsst_scheme) res" where
  "ialloc_from me dev ty [] s = Panic ''ialloc: no inodes''"
| "ialloc_from me dev ty (inum # is) s =
     bindR (bread me dev (IBLOCK (of_nat inum) (x_sb s)) s) (\<lambda>(bp, s).
       let v = b_data (f_buf s bp); o1 = dinode_at (of_nat inum)
       in if d_type (get_dinode v o1) = 0
          then bindR (log_write bp (set_data bp (put16 o1 ty (blk_put o1 (replicate 64 0) v)) s)) (\<lambda>s.
               bindR (brelse me bp s) (iget dev (of_nat inum)))
          else bindR (brelse me bp s) (ialloc_from me dev ty is))"

definition ialloc :: "int \<Rightarrow> uint \<Rightarrow> ushort \<Rightarrow> 'z fsst_scheme \<Rightarrow> (nat \<times> 'z fsst_scheme) res" where
  "ialloc me dev ty s = ialloc_from me dev ty [1..<unat (sb_ninodes (x_sb s))] s"

definition iupdate :: "int \<Rightarrow> nat \<Rightarrow> 'z fsst_scheme \<Rightarrow> 'z fsst_scheme res" where
  "iupdate me ip s =
     bindR (bread me (i_dev (x_inode s ip)) (IBLOCK (i_inum (x_inode s ip)) (x_sb s)) s) (\<lambda>(bp, s).
     bindR (log_write bp (set_data bp
              (put_dinode (dinode_at (i_inum (x_inode s ip))) (x_inode s ip) (b_data (f_buf s bp))) s)) (brelse me bp))"

definition idup :: "nat \<Rightarrow> 'z fsst_scheme \<Rightarrow> 'z fsst_scheme" where
  "idup ip s = upd_inode ip (\<lambda>x. x\<lparr>i_ref := i_ref x + 1\<rparr>) s"

definition lock_inode :: "int \<Rightarrow> nat \<Rightarrow> 'z fsst_scheme \<Rightarrow> 'z fsst_scheme res" where
  "lock_inode me ip s =
     bindR (acquiresleep me (i_lock (x_inode s ip))) (\<lambda>k. Ok (upd_inode ip (\<lambda>x. x\<lparr>i_lock := k\<rparr>) s))"

definition release_inode :: "nat \<Rightarrow> 'z fsst_scheme \<Rightarrow> 'z fsst_scheme" where
  "release_inode ip s = wake (CInodeLock ip) (upd_inode ip (\<lambda>x. x\<lparr>i_lock := releasesleep (i_lock x)\<rparr>) s)"

text \<open>The copy of the fields of the dinode into the inode in \<^verbatim>\<open>ilock\<close>.\<close>

definition load_inode :: "dinode \<Rightarrow> inode \<Rightarrow> inode" where
  "load_inode d x = x\<lparr>d_type := d_type d, d_major := d_major d, d_minor := d_minor d, d_nlink := d_nlink d,
     d_size := d_size d, d_addrs := d_addrs d\<rparr>"

definition ilock :: "int \<Rightarrow> nat \<Rightarrow> 'z fsst_scheme \<Rightarrow> 'z fsst_scheme res" where
  "ilock me ip s =
     (if i_ref (x_inode s ip) < 1 then Panic ''ilock''
      else bindR (lock_inode me ip s) (\<lambda>s.
        if i_valid (x_inode s ip) = 0
        then bindR (bread me (i_dev (x_inode s ip)) (IBLOCK (i_inum (x_inode s ip)) (x_sb s)) s) (\<lambda>(bp, s).
             let dip = get_dinode (b_data (f_buf s bp)) (dinode_at (i_inum (x_inode s ip)));
                 s = upd_inode ip (load_inode dip) s
             in bindR (brelse me bp s) (\<lambda>s.
                let s = upd_inode ip (\<lambda>x. x\<lparr>i_valid := 1\<rparr>) s
                in if d_type (x_inode s ip) = 0 then Panic ''ilock: no type'' else Ok s))
        else Ok s))"

definition iunlock :: "int \<Rightarrow> nat \<Rightarrow> 'z fsst_scheme \<Rightarrow> 'z fsst_scheme res" where
  "iunlock me ip s =
     (if \<not> holdingsleep me (i_lock (x_inode s ip)) \<or> i_ref (x_inode s ip) < 1 then Panic ''iunlock''
      else Ok (release_inode ip s))"

text \<open>The two loops of \<^verbatim>\<open>itrunc\<close>: the direct blocks, and the entries of the indirect block in buffer \<open>bp\<close>.\<close>

fun trunc_direct :: "int \<Rightarrow> nat \<Rightarrow> nat list \<Rightarrow> 'z fsst_scheme \<Rightarrow> 'z fsst_scheme res" where
  "trunc_direct me ip [] s = Ok s"
| "trunc_direct me ip (i # is) s =
     bindR (if d_addrs (x_inode s ip) i \<noteq> 0
            then bindR (bfree me (i_dev (x_inode s ip)) (d_addrs (x_inode s ip) i) s) (\<lambda>s.
                   Ok (upd_inode ip (\<lambda>x. x\<lparr>d_addrs := (d_addrs x)(i := 0)\<rparr>) s))
            else Ok s)
       (trunc_direct me ip is)"

fun trunc_indirect :: "int \<Rightarrow> nat \<Rightarrow> nat \<Rightarrow> nat list \<Rightarrow> 'z fsst_scheme \<Rightarrow> 'z fsst_scheme res" where
  "trunc_indirect me ip bp [] s = Ok s"
| "trunc_indirect me ip bp (j # js) s =
     (let a = get32 (b_data (f_buf s bp)) (4 * j)
      in bindR (if a \<noteq> 0 then bfree me (i_dev (x_inode s ip)) a s else Ok s) (trunc_indirect me ip bp js))"

definition itrunc :: "int \<Rightarrow> nat \<Rightarrow> 'z fsst_scheme \<Rightarrow> 'z fsst_scheme res" where
  "itrunc me ip s =
     bindR (trunc_direct me ip [0..<NDIRECT] s) (\<lambda>s.
     bindR (if d_addrs (x_inode s ip) NDIRECT \<noteq> 0
            then bindR (bread me (i_dev (x_inode s ip)) (d_addrs (x_inode s ip) NDIRECT) s) (\<lambda>(bp, s).
                 bindR (trunc_indirect me ip bp [0..<NINDIRECT] s) (\<lambda>s.
                 bindR (brelse me bp s) (\<lambda>s.
                 bindR (bfree me (i_dev (x_inode s ip)) (d_addrs (x_inode s ip) NDIRECT) s) (\<lambda>s.
                   Ok (upd_inode ip (\<lambda>x. x\<lparr>d_addrs := (d_addrs x)(NDIRECT := 0)\<rparr>) s)))))
            else Ok s) (\<lambda>s.
       iupdate me ip (upd_inode ip (\<lambda>x. x\<lparr>d_size := 0\<rparr>) s)))"

definition iput :: "int \<Rightarrow> nat \<Rightarrow> 'z fsst_scheme \<Rightarrow> 'z fsst_scheme res" where
  "iput me ip s =
     bindR (lock_inode me ip s) (\<lambda>s.
     bindR (if i_valid (x_inode s ip) \<noteq> 0 \<and> d_nlink (x_inode s ip) = 0 \<and> i_ref (x_inode s ip) = 1
            then bindR (itrunc me ip s) (\<lambda>s.
                 bindR (iupdate me ip (upd_inode ip (\<lambda>x. x\<lparr>d_type := 0\<rparr>) s)) (\<lambda>s.
                   Ok (upd_inode ip (\<lambda>x. x\<lparr>i_valid := 0\<rparr>) s)))
            else Ok s) (\<lambda>s.
       Ok (upd_inode ip (\<lambda>x. x\<lparr>i_ref := i_ref x - 1\<rparr>) (release_inode ip s))))"

definition iunlockput :: "int \<Rightarrow> nat \<Rightarrow> 'z fsst_scheme \<Rightarrow> 'z fsst_scheme res" where
  "iunlockput me ip s = bindR (iunlock me ip s) (iput me ip)"

section \<open>Contents\<close>

text \<open>\<^verbatim>\<open>if((addr = ip->addrs[k]) == 0) ip->addrs[k] = addr = balloc(ip->dev)\<close>, twice in \<^verbatim>\<open>bmap\<close>.\<close>

definition bmap_addr :: "int \<Rightarrow> nat \<Rightarrow> nat \<Rightarrow> 'z fsst_scheme \<Rightarrow> (uint \<times> 'z fsst_scheme) res" where
  "bmap_addr me ip k s =
     (let addr = d_addrs (x_inode s ip) k
      in if addr = 0
         then bindR (balloc me (i_dev (x_inode s ip)) s) (\<lambda>(addr, s).
                Ok (addr, upd_inode ip (\<lambda>x. x\<lparr>d_addrs := (d_addrs x)(k := addr)\<rparr>) s))
         else Ok (addr, s))"

definition bmap :: "int \<Rightarrow> nat \<Rightarrow> uint \<Rightarrow> 'z fsst_scheme \<Rightarrow> (uint \<times> 'z fsst_scheme) res" where
  "bmap me ip bn s =
     (if bn < of_nat NDIRECT then bmap_addr me ip (unat bn) s
      else let bn = bn - of_nat NDIRECT
        in if bn < of_nat NINDIRECT
           then bindR (bmap_addr me ip NDIRECT s) (\<lambda>(addr, s).
                bindR (bread me (i_dev (x_inode s ip)) addr s) (\<lambda>(bp, s).
                  let addr = get32 (b_data (f_buf s bp)) (4 * unat bn)
                  in bindR (if addr = 0
                            then bindR (balloc me (i_dev (x_inode s ip)) s) (\<lambda>(addr, s).
                                 bindR (log_write bp (set_data bp (put32 (4 * unat bn) addr (b_data (f_buf s bp))) s)) (\<lambda>s.
                                   Ok (addr, s)))
                            else Ok (addr, s)) (\<lambda>(addr, s).
                     bindR (brelse me bp s) (\<lambda>s. Ok (addr, s)))))
           else Panic ''bmap: out of range'')"

definition stati :: "nat \<Rightarrow> 'z fsst_scheme \<Rightarrow> stat" where
  "stati ip s = (let x = x_inode s ip
     in \<lparr>st_type = d_type x, st_dev = i_dev x, st_ino = i_inum x, st_nlink = d_nlink x, st_size = d_size x\<rparr>)"

text \<open>
  The loops of \<^verbatim>\<open>readi\<close> and \<^verbatim>\<open>writei\<close>. The argument \<open>r\<close> is \<^verbatim>\<open>n - tot\<close>, the number of bytes still to go; every round
  takes at least one of them, so \<open>r\<close> rounds are enough fuel.
\<close>

definition chunk :: "uint \<Rightarrow> uint \<Rightarrow> uint" where
  "chunk off r = min r (of_nat BSIZE - off mod of_nat BSIZE)"

fun readi_loop :: "nat \<Rightarrow> int \<Rightarrow> nat \<Rightarrow> uint \<Rightarrow> uint \<Rightarrow> 'z fsst_scheme \<Rightarrow> (uchar list \<times> 'z fsst_scheme) res" where
  "readi_loop 0 me ip off r s = (if r = 0 then Ok ([], s) else Diverge)"
| "readi_loop (Suc k) me ip off r s =
     (if r = 0 then Ok ([], s)
      else bindR (bmap me ip (off div of_nat BSIZE) s) (\<lambda>(addr, s).
           bindR (bread me (i_dev (x_inode s ip)) addr s) (\<lambda>(bp, s).
             let m = chunk off r;
                 bs = blk_get (b_data (f_buf s bp)) (unat (off mod of_nat BSIZE)) (unat m)
             in bindR (brelse me bp s) (\<lambda>s.
                bindR (readi_loop k me ip (off + m) (r - m) s) (\<lambda>(bs', s). Ok (bs @ bs', s))))))"

definition readi :: "(int \<Rightarrow> 'z fsst_scheme dev_read option) \<Rightarrow> int \<Rightarrow> nat \<Rightarrow> uint \<Rightarrow> uint \<Rightarrow> 'z fsst_scheme \<Rightarrow>
    (int \<times> uchar list \<times> 'z fsst_scheme) res" where
  "readi devsw me ip off n s =
     (let x = x_inode s ip
      in if d_type x = T_DEV
         then (if sint (d_major x) < 0 \<or> sint (d_major x) \<ge> NDEV then Ok (-1, [], s)
               else case devsw (sint (d_major x)) of None \<Rightarrow> Ok (-1, [], s) | Some rd \<Rightarrow> rd ip (sint n) s)
         else if off > d_size x \<or> off + n < off then Ok (-1, [], s)
         else let n = (if off + n > d_size x then d_size x - off else n)
              in bindR (readi_loop (unat n) me ip off n s) (\<lambda>(bs, s). Ok (sint n, bs, s)))"

fun writei_loop :: "nat \<Rightarrow> int \<Rightarrow> nat \<Rightarrow> uchar list \<Rightarrow> uint \<Rightarrow> uint \<Rightarrow> 'z fsst_scheme \<Rightarrow> (uint \<times> 'z fsst_scheme) res" where
  "writei_loop 0 me ip src off r s = (if r = 0 then Ok (off, s) else Diverge)"
| "writei_loop (Suc k) me ip src off r s =
     (if r = 0 then Ok (off, s)
      else bindR (bmap me ip (off div of_nat BSIZE) s) (\<lambda>(addr, s).
           bindR (bread me (i_dev (x_inode s ip)) addr s) (\<lambda>(bp, s).
             let m = chunk off r;
                 v = blk_put (unat (off mod of_nat BSIZE)) (take (unat m) src) (b_data (f_buf s bp))
             in bindR (log_write bp (set_data bp v s)) (\<lambda>s.
                bindR (brelse me bp s) (\<lambda>s.
                  writei_loop k me ip (drop (unat m) src) (off + m) (r - m) s)))))"

definition writei :: "(int \<Rightarrow> 'z fsst_scheme dev_write option) \<Rightarrow> int \<Rightarrow> nat \<Rightarrow> uchar list \<Rightarrow> uint \<Rightarrow> uint \<Rightarrow> 'z fsst_scheme \<Rightarrow>
    (int \<times> 'z fsst_scheme) res" where
  "writei devsw me ip src off n s =
     (let x = x_inode s ip
      in if d_type x = T_DEV
         then (if sint (d_major x) < 0 \<or> sint (d_major x) \<ge> NDEV then Ok (-1, s)
               else case devsw (sint (d_major x)) of None \<Rightarrow> Ok (-1, s) | Some wr \<Rightarrow> wr ip src (sint n) s)
         else if off > d_size x \<or> off + n < off then Ok (-1, s)
         else if off + n > MAXFILE * of_nat BSIZE then Ok (-1, s)
         else bindR (writei_loop (unat n) me ip src off n s) (\<lambda>(off, s).
              bindR (if n > 0 \<and> off > d_size (x_inode s ip)
                     then iupdate me ip (upd_inode ip (\<lambda>x. x\<lparr>d_size := off\<rparr>) s) else Ok s) (\<lambda>s.
                Ok (sint n, s))))"

section \<open>Directories\<close>

definition namecmp :: "cstr \<Rightarrow> cstr \<Rightarrow> int" where
  "namecmp s t = strncmp s t DIRSIZ"

text \<open>
  A directory is never a device, so \<^verbatim>\<open>devsw\<close> plays no part in reading and writing its entries. The offsets
  \<^verbatim>\<open>off\<close> of the loops are \<open>0, 16, 32, ...\<close> below the size.
\<close>

definition no_dev :: "int \<Rightarrow> 'a option" where "no_dev = (\<lambda>_. None)"

definition entry_offs :: "uint \<Rightarrow> uint \<Rightarrow> uint list" where
  "entry_offs start sz = map (\<lambda>k. start + 16 * of_nat k) [0..<(unat sz - unat start + 15) div 16]"

fun dirlookup_from :: "int \<Rightarrow> nat \<Rightarrow> cstr \<Rightarrow> uint list \<Rightarrow> 'z fsst_scheme \<Rightarrow> ((nat \<times> uint) option \<times> 'z fsst_scheme) res" where
  "dirlookup_from me dp name [] s = Ok (None, s)"
| "dirlookup_from me dp name (off # os) s =
     bindR (readi no_dev me dp off 16 s) (\<lambda>(r, bs, s).
       let de = get_dirent bs
       in if r \<noteq> 16 then Panic ''dirlookup read''
          else if de_inum de = 0 then dirlookup_from me dp name os s
          else if namecmp name (de_name de) = 0
          then bindR (iget (i_dev (x_inode s dp)) (ucast (de_inum de)) s) (\<lambda>(ip, s). Ok (Some (ip, off), s))
          else dirlookup_from me dp name os s)"

definition dirlookup :: "int \<Rightarrow> nat \<Rightarrow> cstr \<Rightarrow> 'z fsst_scheme \<Rightarrow> ((nat \<times> uint) option \<times> 'z fsst_scheme) res" where
  "dirlookup me dp name s =
     (if d_type (x_inode s dp) \<noteq> T_DIR then Panic ''dirlookup not DIR''
      else dirlookup_from me dp name (entry_offs 0 (d_size (x_inode s dp))) s)"

text \<open>The search of \<^verbatim>\<open>dirlink\<close> for an empty entry, which ends at offset \<open>fin\<close> if there is none.\<close>

fun dirlink_from :: "int \<Rightarrow> nat \<Rightarrow> uint \<Rightarrow> uint list \<Rightarrow> 'z fsst_scheme \<Rightarrow> (uint \<times> 'z fsst_scheme) res" where
  "dirlink_from me dp fin [] s = Ok (fin, s)"
| "dirlink_from me dp fin (off # os) s =
     bindR (readi no_dev me dp off 16 s) (\<lambda>(r, bs, s).
       if r \<noteq> 16 then Panic ''dirlink read''
       else if de_inum (get_dirent bs) = 0 then Ok (off, s)
       else dirlink_from me dp fin os s)"

definition dirlink :: "int \<Rightarrow> nat \<Rightarrow> cstr \<Rightarrow> uint \<Rightarrow> 'z fsst_scheme \<Rightarrow> (int \<times> 'z fsst_scheme) res" where
  "dirlink me dp name inum s =
     bindR (dirlookup me dp name s) (\<lambda>(found, s).
       case found of
         Some (ip, _) \<Rightarrow> bindR (iput me ip s) (\<lambda>s. Ok (-1, s))
       | None \<Rightarrow>
           (let sz = d_size (x_inode s dp); offs = entry_offs 0 sz
            in bindR (dirlink_from me dp (16 * of_nat (length offs)) offs s) (\<lambda>(off, s).
               bindR (writei no_dev me dp (put_dirent \<lparr>de_inum = ucast inum, de_name = strncpy name DIRSIZ\<rparr>) off 16 s) (\<lambda>(r, s).
                 if r \<noteq> 16 then Panic ''dirlink'' else Ok (0, s)))))"

section \<open>Paths\<close>

text \<open>The path after the first element, and the element as it stands in \<^verbatim>\<open>name\<close>.\<close>

definition skipelem :: "cstr \<Rightarrow> (cstr \<times> cstr) option" where
  "skipelem path =
     (let path = dropWhile (\<lambda>c. c = 47) path
      in if fst_ch path = 0 then None
         else let elem = takeWhile (\<lambda>c. c \<noteq> 47 \<and> c \<noteq> 0) path;
                  path = dropWhile (\<lambda>c. c \<noteq> 47 \<and> c \<noteq> 0) path
              in Some (dropWhile (\<lambda>c. c = 47) path, if length elem \<ge> DIRSIZ then take DIRSIZ elem else elem))"

lemma skipelem_shorter: "skipelem path = Some (rest, name) \<Longrightarrow> length rest < length path"
proof -
  assume "skipelem path = Some (rest, name)"
  moreover define p where "p = dropWhile (\<lambda>c. c = 47) path"
  ultimately have p: "fst_ch p \<noteq> 0" "rest = dropWhile (\<lambda>c. c = 47) (dropWhile (\<lambda>c. c \<noteq> 47 \<and> c \<noteq> 0) p)"
    by (auto simp: skipelem_def Let_def split: if_splits)
  have "p \<noteq> []" using p(1) by (auto simp: fst_ch_def)
  then have "hd p \<noteq> 47" using hd_dropWhile [of "\<lambda>c. c = 47" path] unfolding p_def by blast
  with \<open>p \<noteq> []\<close> p(1) have "length (dropWhile (\<lambda>c. c \<noteq> 47 \<and> c \<noteq> 0) p) < length p"
    by (cases p) (auto simp: fst_ch_def le_imp_less_Suc length_dropWhile_le)
  moreover have "length p \<le> length path" unfolding p_def by (rule length_dropWhile_le)
  moreover have "length rest \<le> length (dropWhile (\<lambda>c. c \<noteq> 47 \<and> c \<noteq> 0) p)" unfolding p(2) by (rule length_dropWhile_le)
  ultimately show ?thesis by linarith
qed

text \<open>The loop of \<^verbatim>\<open>namex\<close>, \<open>name\<close> being the last element copied.\<close>

function namex_loop :: "int \<Rightarrow> bool \<Rightarrow> nat \<Rightarrow> cstr \<Rightarrow> cstr \<Rightarrow> 'z fsst_scheme \<Rightarrow> ((nat \<times> cstr) option \<times> 'z fsst_scheme) res" where
  "namex_loop me parent ip path name s =
     (case skipelem path of
        None \<Rightarrow> if parent then bindR (iput me ip s) (\<lambda>s. Ok (None, s)) else Ok (Some (ip, name), s)
      | Some (path, name) \<Rightarrow>
          bindR (ilock me ip s) (\<lambda>s.
            if d_type (x_inode s ip) \<noteq> T_DIR then bindR (iunlockput me ip s) (\<lambda>s. Ok (None, s))
            else if parent \<and> fst_ch path = 0 then bindR (iunlock me ip s) (\<lambda>s. Ok (Some (ip, name), s))
            else bindR (dirlookup me ip name s) (\<lambda>(found, s).
              case found of
                None \<Rightarrow> bindR (iunlockput me ip s) (\<lambda>s. Ok (None, s))
              | Some (next, _) \<Rightarrow> bindR (iunlockput me ip s) (namex_loop me parent next path name))))"
  by pat_completeness auto
termination by (relation "measure (\<lambda>(me, parent, ip, path, name, s). length path)") (auto dest: skipelem_shorter)

declare namex_loop.simps [simp del]

definition namex :: "int \<Rightarrow> nat \<Rightarrow> cstr \<Rightarrow> bool \<Rightarrow> 'z fsst_scheme \<Rightarrow> ((nat \<times> cstr) option \<times> 'z fsst_scheme) res" where
  "namex me cwd path parent s =
     bindR (if fst_ch path = 47 then iget ROOTDEV ROOTINO s else Ok (cwd, idup cwd s)) (\<lambda>(ip, s).
       namex_loop me parent ip path [] s)"

definition namei :: "int \<Rightarrow> nat \<Rightarrow> cstr \<Rightarrow> 'z fsst_scheme \<Rightarrow> (nat option \<times> 'z fsst_scheme) res" where
  "namei me cwd path s = bindR (namex me cwd path False s) (\<lambda>(r, s). Ok (map_option fst r, s))"

definition nameiparent :: "int \<Rightarrow> nat \<Rightarrow> cstr \<Rightarrow> 'z fsst_scheme \<Rightarrow> ((nat \<times> cstr) option \<times> 'z fsst_scheme) res" where
  "nameiparent me cwd path s = namex me cwd path True s"

end
