(* ===== verification/FsBlock.thy ===== *)
theory FsBlock
  imports Txn Fs
begin

text \<open>
  Block operations of the file system inside a transaction, and the allocation of blocks. The contents of the blocks
  are seen through the buffer cache; the blocks that a transaction has written are the pinned ones.
\<close>

section \<open>Block operations inside a transaction\<close>

text \<open>
  The bound on the number of blocks a transaction may pin; the state between block operations, with buffers \<open>H\<close> held;
  and the state inside a transaction.
\<close>

definition cap :: "'z logst_scheme \<Rightarrow> int" where
  "cap s = min (int LOGSIZE - 1) (g_size s - 1)"

definition cache_op :: "int \<Rightarrow> nat set \<Rightarrow> 'z logst_scheme \<Rightarrow> bool" where
  "cache_op me H s \<longleftrightarrow> log_held me H s \<and> card H \<le> 1 \<and> int (card (pinned s)) < cap s"

definition in_op :: "int \<Rightarrow> nat set \<Rightarrow> 'z logst_scheme \<Rightarrow> bool" where
  "in_op me H s \<longleftrightarrow> cache_op me H s \<and> 1 \<le> g_outstanding s"

text \<open>A block that file system data may be written to, and that no buffer in \<open>H\<close> holds.\<close>

definition avail :: "nat set \<Rightarrow> 'z logst_scheme \<Rightarrow> uint \<Rightarrow> bool" where
  "avail H s n \<longleftrightarrow> n < of_nat FSSIZE \<and> \<not> in_log (g_start s) n \<and> n \<noteq> 1 \<and> (\<forall>b \<in> H. b_blockno (f_buf s b) \<noteq> n)"

text \<open>What a complete block operation leaves alone: as \<^const>\<open>quiet\<close>, and the buffers that are held.\<close>

definition untouched :: "nat set \<Rightarrow> 'z logst_scheme \<Rightarrow> 'z logst_scheme \<Rightarrow> bool" where
  "untouched H s t \<longleftrightarrow> quiet s t \<and> (\<forall>b \<in> H. f_buf t b = f_buf s b)"

lemma untouched_refl [simp]: "untouched H s s"
  by (simp add: untouched_def)

lemma untouched_trans: "untouched H s t \<Longrightarrow> untouched H t u \<Longrightarrow> untouched H s u"
  by (auto simp: untouched_def intro: quiet_trans)

lemma cap_quiet: "quiet s t \<Longrightarrow> cap t = cap s"
  by (simp add: cap_def quietD)

lemma untouchedD:
  assumes "untouched H s t"
  shows "cap t = cap s" "avail H t n = avail H s n" "g_start t = g_start s" "logst.more t = logst.more s"
  using assms quietD [of s t] cap_quiet [of s t] by (auto simp: untouched_def avail_def)

lemma quiet_fs:
  fixes s :: "'z fsst_scheme"
  assumes "quiet s t"
  shows "x_sb t = x_sb s" "x_inode t = x_inode s"
  using quietD(4) [OF assms] by (cases s; cases t; simp)+

lemma untouched_fs:
  fixes s :: "'z fsst_scheme"
  assumes "untouched H s t"
  shows "x_sb t = x_sb s" "x_inode t = x_inode s"
  using assms quiet_fs by (auto simp: untouched_def)

lemma finite_pinned [simp]: "finite (pinned s)"
  by (simp add: pinned_def)

lemma untouched_op: "untouched H s t \<Longrightarrow> cache_op me K t \<Longrightarrow> in_op me H s \<Longrightarrow> in_op me K t"
  by (auto simp: in_op_def untouched_def quietD)

lemma read_only:
  assumes O: "cache_op me H s" and n: "n < of_nat FSSIZE" "\<forall>b \<in> H. b_blockno (f_buf s b) \<noteq> n"
  shows "\<exists>b u. bread me 1 n s = Ok (b, u) \<and> b_data (f_buf u b) = content s n \<and> b \<notin> H \<and> log_held me (insert b H) u \<and>
     b_blockno (f_buf u b) = n \<and> content u = content s \<and> pinned u = pinned s \<and> untouched H s u \<and>
     (\<exists>t. brelse me b u = Ok t \<and> cache_op me H t \<and> content t = content s \<and> pinned t = pinned s \<and> untouched H s t)"
proof -
  have L: "log_held me H s" "g_n s + int (card H) < int NBUF"
    using O log_held_card [of me H s] by (auto simp: cache_op_def cap_def)
  have fin: "finite H" using L(1) finite_subset [of H "{0..<NBUF}"] by (simp add: log_held_def cache_inv_def)
  obtain b u where u: "bread me 1 n s = Ok (b, u)" "log_held me (insert b H) u" "b \<notin> H" "b_data (f_buf u b) = content s n"
      "b_blockno (f_buf u b) = n" "\<forall>c. c \<noteq> b \<longrightarrow> f_buf u c = f_buf s c" "content u = content s" "pinned u = pinned s" "quiet s u"
    using held_read [OF L(1) n(1) _ L(2)] n(2) by auto
  obtain t where t: "brelse me b u = Ok t" "log_held me (insert b H - {b}) t" "content t = content u" "pinned t = pinned u"
      "\<forall>c. c \<noteq> b \<longrightarrow> f_buf t c = f_buf u c" "quiet u t"
    using held_release [OF u(2), of b] by auto
  have H: "insert b H - {b} = H" using u(3) by auto
  have q: "quiet s t" using u(9) t(6) by (rule quiet_trans)
  have "untouched H s u" using u(3,6,9) by (auto simp: untouched_def)
  moreover have "untouched H s t" using q u(3,6) t(5) by (auto simp: untouched_def)
  moreover have "cache_op me H t"
    using O t(2,4) u(8) q H cap_quiet [OF q] by (simp add: cache_op_def)
  ultimately show ?thesis using u t by auto
qed

lemma read_run:
  assumes O: "in_op me H s" and n: "n < of_nat FSSIZE" "\<forall>b \<in> H. b_blockno (f_buf s b) \<noteq> n"
  shows "\<exists>b u. bread me 1 n s = Ok (b, u) \<and> b_data (f_buf u b) = content s n \<and> b \<notin> H \<and> log_held me (insert b H) u \<and>
     b_blockno (f_buf u b) = n \<and> content u = content s \<and> pinned u = pinned s \<and> untouched H s u \<and>
     (\<exists>t. brelse me b u = Ok t \<and> in_op me H t \<and> content t = content s \<and> pinned t = pinned s \<and> untouched H s t)"
proof -
  have "cache_op me H s" using O by (simp add: in_op_def)
  then show ?thesis using read_only [OF _ n, of me] untouched_op [OF _ _ O] by fastforce
qed

text \<open>A block is read, changed and logged, and the buffer is released.\<close>

lemma write_run:
  assumes O: "in_op me H s" and n: "avail H s n" and c: "int (card (insert n (pinned s))) < cap s"
  shows "\<exists>b u. bread me 1 n s = Ok (b, u) \<and> b_data (f_buf u b) = content s n \<and> untouched H s u \<and>
     (\<forall>v. \<exists>w t. log_write b (set_data b v u) = Ok w \<and> brelse me b w = Ok t \<and> in_op me H t \<and> untouched H s w \<and> untouched H s t \<and>
        content t = (content s)(n := v) \<and> pinned t = insert n (pinned s))"
proof -
  obtain b u where u: "bread me 1 n s = Ok (b, u)" "b_data (f_buf u b) = content s n" "b \<notin> H" "log_held me (insert b H) u"
      "b_blockno (f_buf u b) = n" "content u = content s" "pinned u = pinned s" "untouched H s u"
    using read_run [OF O, of n] n by (auto simp: avail_def)
  note cu = untouchedD [OF u(8)]
  have H: "insert b H - {b} = H" using u(3) by auto
  have gu: "g_n u = int (card (pinned s))" using log_held_card [OF u(4)] u(7) by simp
  have le: "card (pinned s) \<le> card (insert n (pinned s))" by (simp add: card_mono subset_insertI)
  have ou: "1 \<le> g_outstanding u" "g_size u = g_size s" using O u(8) by (auto simp: in_op_def untouched_def quietD)
  have lim: "g_n u < int LOGSIZE - 1" "g_n u < g_size u - 1" using gu le c ou(2) by (auto simp: cap_def)
  have "\<exists>w t. log_write b (set_data b v u) = Ok w \<and> brelse me b w = Ok t \<and> in_op me H t \<and> untouched H s w \<and> untouched H s t \<and>
        content t = (content s)(n := v) \<and> pinned t = insert n (pinned s)" for v
  proof -
    obtain w where w: "log_write b (set_data b v u) = Ok w" "log_held me (insert b H) w" "content w = (content u)(n := v)"
        "pinned w = insert n (pinned u)" "\<forall>c. c \<noteq> b \<longrightarrow> f_buf w c = f_buf u c" "quiet u w"
      using held_write [OF u(4), of b n v] u(5) n lim ou cu(3) by (auto simp: avail_def)
    obtain t where t: "brelse me b w = Ok t" "log_held me (insert b H - {b}) t" "content t = content w" "pinned t = pinned w"
        "\<forall>c. c \<noteq> b \<longrightarrow> f_buf t c = f_buf w c" "quiet w t"
      using held_release [OF w(2), of b] by auto
    have nb: "c \<noteq> b" if "c \<in> H" for c using that u(3) by auto
    have cw: "untouched H u w" "untouched H w t" using w(5,6) t(5,6) nb by (simp_all add: untouched_def)
    then have ct: "untouched H s w" "untouched H s t" using u(8) untouched_trans by blast+
    then have q: "quiet s t" by (simp add: untouched_def)
    have "in_op me H t"
      using O t(2,4) w(4) u(7) H c cap_quiet [OF q] q by (simp add: in_op_def cache_op_def quietD(3))
    then show ?thesis using w t ct u(6,7) by auto
  qed
  then show ?thesis using u by auto
qed

section \<open>The bitmap\<close>

text \<open>
  The layout of the disk (the comment in \<^verbatim>\<open>fs.h\<close>): log, inodes, bitmap and data follow each other. A disk of at most
  \<^const>\<open>BPB\<close> blocks has a single bitmap block.
\<close>

abbreviation bmapb :: "'z fsst_scheme \<Rightarrow> uint" where
  "bmapb s \<equiv> sb_bmapstart (x_sb s)"

definition layout :: "'z fsst_scheme \<Rightarrow> bool" where
  "layout s \<longleftrightarrow> unat (sb_size (x_sb s)) \<le> FSSIZE \<and> 1 < unat (g_start s) \<and> unat (g_start s) + LOGSIZE \<le> unat (sb_inodestart (x_sb s)) \<and>
     unat (sb_inodestart (x_sb s)) + unat (sb_ninodes (x_sb s)) div 8 < unat (bmapb s) \<and> unat (bmapb s) < unat (sb_size (x_sb s))"

definition free_blk :: "'z fsst_scheme \<Rightarrow> nat \<Rightarrow> bool" where
  "free_blk s b \<longleftrightarrow> b < unat (sb_size (x_sb s)) \<and> bit_clear (content s (bmapb s)) b"

text \<open>The blocks before the data are in use, and so are the blocks of the buffers that are held.\<close>

definition bitmap_ok :: "nat set \<Rightarrow> 'z fsst_scheme \<Rightarrow> bool" where
  "bitmap_ok H s \<longleftrightarrow> layout s \<and> (\<forall>b. free_blk s b \<longrightarrow> unat (bmapb s) < b) \<and>
     (\<forall>c \<in> H. b_blockno (f_buf s c) \<noteq> bmapb s \<and> \<not> free_blk s (unat (b_blockno (f_buf s c))))"

definition set_bit_of :: "nat \<Rightarrow> block \<Rightarrow> block" where
  "set_bit_of b v = v(b div 8 := v (b div 8) OR bit_mask b)"

definition zero_block :: "block \<Rightarrow> block" where
  "zero_block v = (\<lambda>i. if i < BSIZE then 0 else v i)"

lemma bit_clear_iff: "bit_clear v b \<longleftrightarrow> \<not> bit (v (b div 8)) (b mod 8)"
  by (simp add: bit_clear_def bit_mask_def push_bit_of_1 and_exp_eq_0_iff_not_bit)

lemma same_bit: "b div 8 = c div 8 \<Longrightarrow> b mod 8 = c mod 8 \<Longrightarrow> b = (c :: nat)"
  by (metis div_mult_mod_eq)

lemma bit_bit_mask: "k < 8 \<Longrightarrow> bit (bit_mask b) k \<longleftrightarrow> k = b mod 8"
  by (auto simp: bit_mask_def push_bit_of_1 bit_exp_iff possible_bit_word)

lemma bit_clear_set: "bit_clear (set_bit_of b v) c \<longleftrightarrow> c \<noteq> b \<and> bit_clear v c"
  using same_bit [of b c] by (auto simp: bit_clear_iff set_bit_of_def bit_or_iff bit_bit_mask)

lemma bit_clear_clear: "bit_clear (v(b div 8 := v (b div 8) AND NOT (bit_mask b))) c \<longleftrightarrow> c = b \<or> bit_clear v c"
  using same_bit [of b c] by (auto simp: bit_clear_iff bit_and_iff bit_not_iff bit_bit_mask)

lemma find_first:
  assumes "P b" "b < n" "\<forall>c < b. \<not> P c"
  shows "List.find P [0..<n] = Some b"
proof -
  have "[0..<n] ! b = b" "b < length [0..<n]" using assms(2) by simp_all
  then show ?thesis unfolding find_Some_iff using assms by (intro exI [of _ b]) auto
qed

lemma layoutD:
  assumes "layout s"
  shows "bmapb s < of_nat FSSIZE" "\<not> in_log (g_start s) (bmapb s)" "bmapb s \<noteq> 1"
    "unat (bmapb s) < b \<Longrightarrow> b < unat (sb_size (x_sb s)) \<Longrightarrow>
      unat (of_nat b :: uint) = b \<and> of_nat b < (of_nat FSSIZE :: uint) \<and> \<not> in_log (g_start s) (of_nat b) \<and> (of_nat b :: uint) \<noteq> 1 \<and> of_nat b \<noteq> bmapb s"
proof -
  have l: "1 < unat (g_start s)" "unat (g_start s) + 30 < unat (bmapb s)" "unat (bmapb s) < unat (sb_size (x_sb s))" "unat (sb_size (x_sb s)) \<le> 1000"
    using assms by (auto simp: layout_def)
  show "bmapb s < of_nat FSSIZE" using l by (simp add: word_less_nat_alt)
  show "\<not> in_log (g_start s) (bmapb s)" using l by (simp add: in_log_def)
  show "bmapb s \<noteq> 1" using l by auto
  assume b: "unat (bmapb s) < b" "b < unat (sb_size (x_sb s))"
  have u: "unat (of_nat b :: uint) = b" using b l by (simp add: unat_of_nat take_bit_nat_eq_self)
  then show "unat (of_nat b :: uint) = b \<and> of_nat b < (of_nat FSSIZE :: uint) \<and> \<not> in_log (g_start s) (of_nat b) \<and> (of_nat b :: uint) \<noteq> 1 \<and> of_nat b \<noteq> bmapb s"
    using b l by (auto simp: word_less_nat_alt in_log_def)
qed

lemma bitmap_avail:
  assumes "bitmap_ok H s"
  shows "avail H s (bmapb s)" "free_blk s b \<Longrightarrow> avail H s (of_nat b)" "free_blk s b \<Longrightarrow> unat (of_nat b :: uint) = b"
    "free_blk s b \<Longrightarrow> of_nat b \<noteq> bmapb s"
proof -
  have l: "layout s" using assms by (simp add: bitmap_ok_def)
  show "avail H s (bmapb s)" using layoutD [OF l] assms by (auto simp: avail_def bitmap_ok_def)
  assume f: "free_blk s b"
  then have "unat (bmapb s) < b" "b < unat (sb_size (x_sb s))" using assms by (auto simp: bitmap_ok_def free_blk_def)
  note d = layoutD(4) [OF l this]
  then show "unat (of_nat b :: uint) = b" "of_nat b \<noteq> bmapb s" by simp_all
  show "avail H s (of_nat b)" using d f assms by (auto simp: avail_def bitmap_ok_def)
qed

lemma balloc_list:
  assumes "layout s"
  shows "map (\<lambda>k. k * BPB) [0..<(unat (sb_size (x_sb s)) + BPB - 1) div BPB] = [0]"
proof -
  have "0 < unat (sb_size (x_sb s))" "unat (sb_size (x_sb s)) \<le> 1000" using assms by (auto simp: layout_def)
  then have "(unat (sb_size (x_sb s)) + BPB - 1) div BPB = 1" by (intro div_nat_eqI) simp_all
  then show ?thesis by simp
qed

lemma bzero_run:
  assumes "in_op me H s" "avail H s n" "int (card (insert n (pinned s))) < cap s"
  shows "\<exists>t. bzero me 1 n s = Ok t \<and> in_op me H t \<and> untouched H s t \<and> content t = (content s)(n := zero_block (content s n)) \<and>
     pinned t = insert n (pinned s)"
proof -
  have z: "blk_put 0 (replicate BSIZE 0) v = zero_block v" for v by (auto simp: blk_put_def zero_block_def)
  obtain b u where u: "bread me 1 n s = Ok (b, u)" "b_data (f_buf u b) = content s n"
    and k: "\<And>v. \<exists>w t. log_write b (set_data b v u) = Ok w \<and> brelse me b w = Ok t \<and> in_op me H t \<and> untouched H s w \<and> untouched H s t \<and>
        content t = (content s)(n := v) \<and> pinned t = insert n (pinned s)"
    using write_run [OF assms] by blast
  obtain w t where t: "log_write b (set_data b (zero_block (content s n)) u) = Ok w" "brelse me b w = Ok t" "in_op me H t"
      "untouched H s t" "content t = (content s)(n := zero_block (content s n))" "pinned t = insert n (pinned s)"
    using k by blast
  then show ?thesis using u by (simp add: bzero_def z)
qed

text \<open>A \<^verbatim>\<open>balloc\<close> that finds a free block takes the first one, marks it, and clears it.\<close>

lemma balloc_run:
  fixes s :: "'z fsst_scheme"
  assumes O: "in_op me H s" and B: "bitmap_ok H s" and b: "free_blk s b" "\<forall>c < b. \<not> free_blk s c"
    and c: "int (card (insert (of_nat b) (insert (bmapb s) (pinned s)))) < cap s"
  shows "\<exists>t. balloc me 1 s = Ok (of_nat b, t) \<and> in_op me H t \<and> untouched H s t \<and>
     content t = (content s)(bmapb s := set_bit_of b (content s (bmapb s)), of_nat b := zero_block (content s (of_nat b))) \<and>
     pinned t = insert (of_nat b) (insert (bmapb s) (pinned s))"
proof -
  have l: "layout s" using B by (simp add: bitmap_ok_def)
  note av = bitmap_avail [OF B]
  have bm: "BBLOCK (of_nat 0) (x_sb s) = bmapb s" by (simp add: BBLOCK_def)
  have fnd: "List.find (\<lambda>bi. 0 + bi < unat (sb_size (x_sb s)) \<and> bit_clear (content s (bmapb s)) bi) [0..<BPB] = Some b"
  proof (rule find_first)
    show "b < BPB" using b(1) l by (simp add: free_blk_def layout_def)
  qed (use b in \<open>auto simp: free_blk_def\<close>)
  have "card (insert (bmapb s) (pinned s)) \<le> card (insert (of_nat b) (insert (bmapb s) (pinned s)))" by (rule card_mono) auto
  then have c1: "int (card (insert (bmapb s) (pinned s))) < cap s" using c by linarith
  obtain bp u where u: "bread me 1 (bmapb s) s = Ok (bp, u)" "b_data (f_buf u bp) = content s (bmapb s)" "untouched H s u"
    and k: "\<And>v. \<exists>w t. log_write bp (set_data bp v u) = Ok w \<and> brelse me bp w = Ok t \<and> in_op me H t \<and> untouched H s w \<and> untouched H s t \<and>
        content t = (content s)(bmapb s := v) \<and> pinned t = insert (bmapb s) (pinned s)"
    using write_run [OF O av(1) c1] by blast
  obtain w a where a: "log_write bp (set_data bp (set_bit_of b (content s (bmapb s))) u) = Ok w" "brelse me bp w = Ok a" "in_op me H a"
      "untouched H s a" "content a = (content s)(bmapb s := set_bit_of b (content s (bmapb s)))" "pinned a = insert (bmapb s) (pinned s)"
    using k by blast
  note ca = untouchedD [OF a(4)]
  have "avail H a (of_nat b)" using av(2) [OF b(1)] ca(2) by simp
  moreover have "int (card (insert (of_nat b) (pinned a))) < cap a" using c ca(1) a(6) by simp
  ultimately obtain t where t: "bzero me 1 (of_nat b) a = Ok t" "in_op me H t" "untouched H a t"
      "content t = (content a)(of_nat b := zero_block (content a (of_nat b)))" "pinned t = insert (of_nat b) (pinned a)"
    using bzero_run [OF a(3)] by blast
  have "balloc me 1 s = Ok (of_nat b, t)"
    using u a(1,2) t(1) fnd unfolding balloc_def balloc_list [OF l] balloc_from.simps bm
    by (simp add: untouched_fs(1) [OF u(3)] Let_def set_bit_of_def)
  moreover have "untouched H s t" using a(4) t(3) by (rule untouched_trans)
  ultimately show ?thesis using t a(5,6) av(4) [OF b(1)] by auto
qed

lemma balloc_full:
  fixes s :: "'z fsst_scheme"
  assumes O: "in_op me H s" and B: "bitmap_ok H s" and b: "\<forall>b. \<not> free_blk s b"
  shows "balloc me 1 s = Panic ''balloc: out of blocks''"
proof -
  have l: "layout s" using B by (simp add: bitmap_ok_def)
  have bm: "BBLOCK (of_nat 0) (x_sb s) = bmapb s" by (simp add: BBLOCK_def)
  have fnd: "List.find (\<lambda>bi. 0 + bi < unat (sb_size (x_sb s)) \<and> bit_clear (content s (bmapb s)) bi) [0..<BPB] = None"
    using b by (auto simp: find_None_iff free_blk_def)
  obtain bp u t where u: "bread me 1 (bmapb s) s = Ok (bp, u)" "b_data (f_buf u bp) = content s (bmapb s)" "untouched H s u" "brelse me bp u = Ok t"
    using read_run [OF O, of "bmapb s"] bitmap_avail(1) [OF B] by (auto simp: avail_def)
  show ?thesis
    using u fnd unfolding balloc_def balloc_list [OF l] balloc_from.simps bm
    by (simp add: untouched_fs(1) [OF u(3)] Let_def)
qed

lemma bfree_run:
  fixes s :: "'z fsst_scheme"
  assumes O: "in_op me H s" and B: "bitmap_ok H s" and b: "unat b < unat (sb_size (x_sb s))" "\<not> free_blk s (unat b)"
    and c: "int (card (insert (bmapb s) (pinned s))) < cap s"
  shows "\<exists>t. bfree me 1 b s = Ok t \<and> in_op me H t \<and> untouched H s t \<and> pinned t = insert (bmapb s) (pinned s) \<and>
     (\<forall>n. n \<noteq> bmapb s \<longrightarrow> content t n = content s n) \<and> (\<forall>c. free_blk t c \<longleftrightarrow> c = unat b \<or> free_blk s c)"
proof -
  have l: "layout s" using B by (simp add: bitmap_ok_def)
  have b1: "unat b < 4096" using b(1) l by (simp add: layout_def)
  have "b div 4096 = 0" using b1 by (simp add: word_unat_eq_iff unat_div)
  then have bm: "BBLOCK b (x_sb s) = bmapb s" by (simp add: BBLOCK_def)
  let ?v = "content s (bmapb s)" and ?w = "(content s (bmapb s))(unat b div 8 := content s (bmapb s) (unat b div 8) AND NOT (bit_mask (unat b)))"
  have nc: "\<not> bit_clear ?v (unat b)" using b by (simp add: free_blk_def)
  obtain bp u where u: "bread me 1 (bmapb s) s = Ok (bp, u)" "b_data (f_buf u bp) = content s (bmapb s)" "untouched H s u"
    and k: "\<And>v. \<exists>w t. log_write bp (set_data bp v u) = Ok w \<and> brelse me bp w = Ok t \<and> in_op me H t \<and> untouched H s w \<and> untouched H s t \<and>
        content t = (content s)(bmapb s := v) \<and> pinned t = insert (bmapb s) (pinned s)"
    using write_run [OF O bitmap_avail(1) [OF B] c] by blast
  obtain w t where t: "log_write bp (set_data bp ?w u) = Ok w" "brelse me bp w = Ok t" "in_op me H t"
      "untouched H s t" "content t = (content s)(bmapb s := ?w)" "pinned t = insert (bmapb s) (pinned s)"
    using k by blast
  have "bfree me 1 b s = Ok t" using u t(1,2) nc b1 by (simp add: bfree_def bm Let_def)
  moreover have "free_blk t c \<longleftrightarrow> c = unat b \<or> free_blk s c" for c
    using t(5) b(1) bit_clear_clear [of ?v "unat b" c] by (auto simp: free_blk_def untouched_fs [OF t(4)])
  ultimately show ?thesis using t by auto
qed

lemma bfree_free:
  fixes s :: "'z fsst_scheme"
  assumes O: "in_op me H s" and B: "bitmap_ok H s" and b: "free_blk s (unat b)"
  shows "bfree me 1 b s = Panic ''freeing free block''"
proof -
  have b1: "unat b < 4096" "bit_clear (content s (bmapb s)) (unat b)" using B b by (simp_all add: layout_def bitmap_ok_def free_blk_def)
  have "b div 4096 = 0" using b1 by (simp add: word_unat_eq_iff unat_div)
  then have bm: "BBLOCK b (x_sb s) = bmapb s" by (simp add: BBLOCK_def)
  obtain bp u where "bread me 1 (bmapb s) s = Ok (bp, u)" "b_data (f_buf u bp) = content s (bmapb s)"
    using read_run [OF O, of "bmapb s"] bitmap_avail(1) [OF B] by (auto simp: avail_def)
  then show ?thesis using b1 by (simp add: bfree_def bm Let_def)
qed

lemma first_free: "free_blk s b \<Longrightarrow> \<exists>b. free_blk s b \<and> (\<forall>c < b. \<not> free_blk s c)"
  using exists_least_iff [of "free_blk s"] by blast

lemma free_after:
  assumes "untouched H s t" "content t (bmapb s) = set_bit_of b (content s (bmapb s))"
  shows "free_blk t c \<longleftrightarrow> c \<noteq> b \<and> free_blk s c"
  using assms by (auto simp: free_blk_def untouched_fs [OF assms(1)] bit_clear_set)

lemma bitmap_ok_less:
  assumes "bitmap_ok H s" "untouched H s t" "\<And>c. free_blk t c \<Longrightarrow> free_blk s c"
  shows "bitmap_ok H t"
  using assms untouchedD [OF assms(2)] untouched_fs [OF assms(2)] by (auto simp: bitmap_ok_def layout_def untouched_def)

section \<open>Properties\<close>

text \<open>
  C12: Block allocation is correct. Within a transaction that has room for two more blocks, \<^verbatim>\<open>balloc\<close> returns the
  first block that is free in the bitmap, marks exactly that block as used, fills it with zeros and touches no
  other block; without a free block it panics. A \<^verbatim>\<open>bfree\<close> of the block then gives back exactly the bitmap
  from before. Freeing a block that is free already panics.
\<close>

theorem block_allocation:
  fixes s :: "'z fsst_scheme"
  assumes O: "in_op me {} s" and B: "bitmap_ok {} s" and c: "int (card (pinned s)) + 2 < cap s"
  shows "((\<exists>b. free_blk s b) \<longrightarrow> (\<exists>b t. balloc me 1 s = Ok (of_nat b, t) \<and> free_blk s b \<and> (\<forall>c < b. \<not> free_blk s c) \<and> bitmap_ok {} t \<and>
       (\<forall>c. free_blk t c \<longleftrightarrow> c \<noteq> b \<and> free_blk s c) \<and> (\<forall>i < BSIZE. content t (of_nat b) i = 0) \<and>
       (\<forall>n. n \<noteq> bmapb s \<longrightarrow> n \<noteq> of_nat b \<longrightarrow> content t n = content s n) \<and>
       (\<exists>u. bfree me 1 (of_nat b) t = Ok u \<and> (\<forall>c. free_blk u c \<longleftrightarrow> free_blk s c) \<and> (\<forall>n. n \<noteq> bmapb s \<longrightarrow> content u n = content t n)))) \<and>
     ((\<forall>b. \<not> free_blk s b) \<longrightarrow> balloc me 1 s = Panic ''balloc: out of blocks'') \<and>
     (\<forall>b. free_blk s (unat b) \<longrightarrow> bfree me 1 b s = Panic ''freeing free block'')"
proof (intro conjI impI allI)
  assume "\<exists>b. free_blk s b"
  then obtain b where b: "free_blk s b" "\<forall>c < b. \<not> free_blk s c" using first_free [of s] by blast
  note av = bitmap_avail(3,4) [OF B b(1)]
  have "card (insert (of_nat b) (insert (bmapb s) (pinned s))) \<le> card (pinned s) + 2" by (simp add: card_insert_if)
  then have c2: "int (card (insert (of_nat b) (insert (bmapb s) (pinned s)))) < cap s" using c by linarith
  obtain t where t: "balloc me 1 s = Ok (of_nat b, t)" "in_op me {} t" "untouched {} s t"
      "content t = (content s)(bmapb s := set_bit_of b (content s (bmapb s)), of_nat b := zero_block (content s (of_nat b)))"
      "pinned t = insert (of_nat b) (insert (bmapb s) (pinned s))"
    using balloc_run [OF O B b c2] by blast
  have ft: "free_blk t c \<longleftrightarrow> c \<noteq> b \<and> free_blk s c" for c by (rule free_after [OF t(3)]) (use t(4) av(2) in simp)
  have Bt: "bitmap_ok {} t" by (rule bitmap_ok_less [OF B t(3)]) (simp add: ft)
  note sb = untouched_fs(1) [OF t(3)] and ca = untouchedD [OF t(3)]
  have bs: "unat (of_nat b :: uint) < unat (sb_size (x_sb t))" "\<not> free_blk t (unat (of_nat b :: uint))"
    using b(1) av(1) unfolding ft by (simp_all add: free_blk_def sb)
  have "int (card (insert (bmapb t) (pinned t))) < cap t" using t(5) c2 by (simp add: sb ca(1) insert_commute)
  then obtain u where u: "bfree me 1 (of_nat b) t = Ok u" "\<forall>n. n \<noteq> bmapb t \<longrightarrow> content u n = content t n"
      "\<forall>c. free_blk u c \<longleftrightarrow> c = unat (of_nat b :: uint) \<or> free_blk t c"
    using bfree_run [OF t(2) Bt bs] by blast
  have "free_blk u c \<longleftrightarrow> free_blk s c" for c using u(3) ft b(1) av(1) by auto
  moreover have "\<forall>i < BSIZE. content t (of_nat b) i = 0" "\<forall>n. n \<noteq> bmapb s \<longrightarrow> n \<noteq> of_nat b \<longrightarrow> content t n = content s n"
    using t(4) by (simp_all add: zero_block_def)
  ultimately show "\<exists>b t. balloc me 1 s = Ok (of_nat b, t) \<and> free_blk s b \<and> (\<forall>c < b. \<not> free_blk s c) \<and> bitmap_ok {} t \<and>
       (\<forall>c. free_blk t c \<longleftrightarrow> c \<noteq> b \<and> free_blk s c) \<and> (\<forall>i < BSIZE. content t (of_nat b) i = 0) \<and>
       (\<forall>n. n \<noteq> bmapb s \<longrightarrow> n \<noteq> of_nat b \<longrightarrow> content t n = content s n) \<and>
       (\<exists>u. bfree me 1 (of_nat b) t = Ok u \<and> (\<forall>c. free_blk u c \<longleftrightarrow> free_blk s c) \<and> (\<forall>n. n \<noteq> bmapb s \<longrightarrow> content u n = content t n))"
    using t(1) b Bt ft u(1,2) by (intro exI [of _ b] exI [of _ t]) (simp add: sb)
next
  assume "\<forall>b. \<not> free_blk s b"
  then show "balloc me 1 s = Panic ''balloc: out of blocks''" by (rule balloc_full [OF O B])
next
  fix b :: uint assume "free_blk s (unat b)"
  then show "bfree me 1 b s = Panic ''freeing free block''" by (rule bfree_free [OF O B])
qed

text \<open>
  The file system that mkfs.c makes of one empty file called \<open>a\<close>, inside a transaction. Inode 1 is the root directory with its
  block 59, which holds the entries of root and file; inode 2 is the file, cached and locked. The blocks below 60 are in use.
\<close>

definition demo_root :: dinode where
  "demo_root = \<lparr>d_type = T_DIR, d_major = 0, d_minor = 0, d_nlink = 1, d_size = 512, d_addrs = (\<lambda>i. if i = 0 then 59 else 0)\<rparr>"

definition demo_file_inode :: inode where
  "demo_file_inode = \<lparr>d_type = T_FILE, d_major = 0, d_minor = 0, d_nlink = 1, d_size = 0, d_addrs = (\<lambda>_. 0), i_dev = 1, i_inum = 2,
     i_ref = 1, i_lock = \<lparr>sk_locked = 1, sk_name = ''inode'', sk_pid = 1\<rparr>, i_valid = 1\<rparr>"

definition demo_fs_disk :: "nat \<Rightarrow> block" where
  "demo_fs_disk n =
     (if n = 1 then put_sb mkfs_sb
      else if n = 32 then put_dinode 128 demo_file_inode (put_dinode 64 demo_root (\<lambda>_. 0))
      else if n = 58 then (\<lambda>i. if i < 7 then 255 else if i = 7 then 15 else 0)
      else if n = 59
      then blk_put 32 (put_dirent \<lparr>de_inum = 2, de_name = strncpy (lit ''a'') DIRSIZ\<rparr>)
            (blk_put 16 (put_dirent \<lparr>de_inum = 1, de_name = strncpy (lit ''..'') DIRSIZ\<rparr>)
            (blk_put 0 (put_dirent \<lparr>de_inum = 1, de_name = strncpy (lit ''.'') DIRSIZ\<rparr>) (\<lambda>_. 0)))
      else (\<lambda>_. 0))"

definition demo_fs :: fsst where
  "demo_fs = (let r = reboot demo_fs_disk two_drives
     in \<lparr>f_wakes = [], f_buf = f_buf r, f_lru = f_lru r, f_ide = f_ide r, g_start = 2, g_size = 30, g_outstanding = 1, g_committing = 0,
         g_dev = 1, g_n = 0, g_block = (\<lambda>_. 0), x_sb = mkfs_sb, x_inode = (\<lambda>_. demo_file_inode)\<rparr>)"

lemma demo_fs_facts:
  "in_op me {} demo_fs" "pinned demo_fs = {}" "content demo_fs n = demo_fs_disk (unat n)" "cap demo_fs = 29" "x_sb demo_fs = mkfs_sb"
  "g_start demo_fs = 2" "x_inode demo_fs i = demo_file_inode"
proof -
  have dk: "disk_ok two_drives" by (simp add: disk_ok_def two_drives_def ready_def)
  have cv: "cview me demo_fs (\<lambda>m. demo_fs_disk (unat m)) {} demo_fs_disk (id_writes two_drives)"
    using reboot_view [OF dk, of me demo_fs_disk] cview_eqI [of demo_fs "reboot demo_fs_disk two_drives"] by (simp add: demo_fs_def Let_def)
  then show c: "pinned demo_fs = {}" "content demo_fs n = demo_fs_disk (unat n)" by (simp_all add: cview_def)
  show cap: "cap demo_fs = 29" "x_sb demo_fs = mkfs_sb" "g_start demo_fs = 2" "x_inode demo_fs i = demo_file_inode"
    by (simp_all add: demo_fs_def Let_def cap_def)
  have "get32 (demo_fs_disk 2) 0 = 0" by (simp add: demo_fs_disk_def get32_def)
  then have "log_held me {} demo_fs"
    using cv by (simp add: log_held_def cview_def demo_fs_def Let_def mkfs_sb_eq demo_fs_disk_def)
  then show "in_op me {} demo_fs" using cap c by (simp add: in_op_def cache_op_def) (simp add: demo_fs_def Let_def)
qed

lemma demo_free: "free_blk demo_fs b \<longleftrightarrow> 60 \<le> b \<and> b < 1000"
proof -
  have "bit_clear (demo_fs_disk 58) b \<longleftrightarrow> 60 \<le> b"
  proof (cases "b < 64")
    case True
    have "\<forall>b \<in> set [0..<64]. bit_clear (demo_fs_disk 58) b \<longleftrightarrow> 60 \<le> b" by code_simp
    then show ?thesis using True by simp
  next
    case False
    then have "8 \<le> b div 8" by simp
    then show ?thesis using False by (simp add: bit_clear_def demo_fs_disk_def)
  qed
  then show ?thesis by (auto simp: free_blk_def demo_fs_facts mkfs_sb_eq)
qed

lemma demo_bitmap: "bitmap_ok {} demo_fs"
  by (auto simp: bitmap_ok_def demo_free layout_def demo_fs_facts mkfs_sb_eq)

theorem block_allocation_witness:
  "\<exists>t u. balloc 1 1 demo_fs = Ok (60, t) \<and> bfree 1 1 60 t = Ok u \<and> free_blk demo_fs 60 \<and> \<not> free_blk t 60 \<and> free_blk u 60"
proof -
  have r: "int (card (pinned demo_fs)) + 2 < cap demo_fs" by (simp add: demo_fs_facts)
  have f: "\<exists>b. free_blk demo_fs b" unfolding demo_free by (rule exI [of _ 60]) simp
  obtain b t u where b: "balloc 1 1 demo_fs = Ok (of_nat b, t)" "free_blk demo_fs b" "\<forall>c < b. \<not> free_blk demo_fs c"
      "\<forall>c. free_blk t c \<longleftrightarrow> c \<noteq> b \<and> free_blk demo_fs c" "bfree 1 1 (of_nat b) t = Ok u" "\<forall>c. free_blk u c \<longleftrightarrow> free_blk demo_fs c"
    using block_allocation [OF demo_fs_facts(1) demo_bitmap r, of 1] f by blast
  have "b = 60" using b(2,3) unfolding demo_free by (cases "60 < b") auto
  then show ?thesis using b by auto
qed

end
