(* ===== verification/FsMap.thy ===== *)
theory FsMap
  imports FsBlock
begin

text \<open>
  Block maps. The block addresses in an inode and in its indirect block make a file an array of bytes, in which blocks
  that are not allocated read as zeros; \<^verbatim>\<open>bmap\<close> allocates blocks without changing that array.
\<close>

section \<open>A file as an array of bytes\<close>

abbreviation addrs :: "'z fsst_scheme \<Rightarrow> nat \<Rightarrow> nat \<Rightarrow> uint" where
  "addrs s ip \<equiv> d_addrs (x_inode s ip)"

text \<open>The address in slot \<open>k\<close>: data blocks 0 to 139, of which the first 12 are direct, and in slot 140 the indirect block.\<close>

definition slot :: "'z fsst_scheme \<Rightarrow> nat \<Rightarrow> nat \<Rightarrow> uint" where
  "slot s ip k = (if k < 12 then addrs s ip k else if k = 140 then addrs s ip 12
     else if addrs s ip 12 = 0 then 0 else get32 (content s (addrs s ip 12)) (4 * (k - 12)))"

definition data_blk :: "'z fsst_scheme \<Rightarrow> uint \<Rightarrow> bool" where
  "data_blk s a \<longleftrightarrow> unat (bmapb s) < unat a \<and> unat a < unat (sb_size (x_sb s)) \<and> \<not> free_blk s (unat a)"

definition file_ok :: "'z fsst_scheme \<Rightarrow> nat \<Rightarrow> bool" where
  "file_ok s ip \<longleftrightarrow> i_dev (x_inode s ip) = 1 \<and> (\<forall>k \<le> 140. slot s ip k \<noteq> 0 \<longrightarrow> data_blk s (slot s ip k)) \<and>
     (\<forall>k \<le> 140. \<forall>l \<le> 140. slot s ip k \<noteq> 0 \<longrightarrow> slot s ip k = slot s ip l \<longrightarrow> k = l)"

definition fdata :: "'z fsst_scheme \<Rightarrow> nat \<Rightarrow> nat \<Rightarrow> uchar" where
  "fdata s ip i = (let a = slot s ip (i div BSIZE) in if a = 0 then 0 else content s a (i mod BSIZE))"

text \<open>The parts of the state that no operation on a file changes.\<close>

definition ctl :: "'z fsst_scheme \<Rightarrow> uint \<times> int \<times> int \<times> int \<times> uint \<times> superblock \<times> 'z" where
  "ctl s = (g_start s, g_size s, g_outstanding s, g_committing s, g_dev s, x_sb s, fsst.more s)"

lemma ctl_eq [simp]:
  "ctl t = ctl s \<longleftrightarrow> g_start t = g_start s \<and> g_size t = g_size s \<and> g_outstanding t = g_outstanding s \<and> g_committing t = g_committing s \<and>
     g_dev t = g_dev s \<and> x_sb t = x_sb s \<and> fsst.more t = fsst.more s"
  by (auto simp: ctl_def)

lemma untouched_ctl:
  fixes s :: "'z fsst_scheme"
  assumes "untouched H s t"
  shows "ctl t = ctl s"
proof -
  have l: "log_same s t" using assms by (simp add: untouched_def quiet_def)
  then have "logst.more t = logst.more s" by (simp add: log_same_def)
  then have "x_sb t = x_sb s \<and> fsst.more t = fsst.more s" by (cases s; cases t) simp
  then show ?thesis using l by (simp add: log_same_def)
qed

text \<open>What a step that may allocate blocks for file \<open>ip\<close> leaves alone.\<close>

definition steady :: "nat \<Rightarrow> 'z fsst_scheme \<Rightarrow> 'z fsst_scheme \<Rightarrow> bool" where
  "steady ip s t \<longleftrightarrow> ctl t = ctl s \<and>
     (\<exists>f. x_inode t = (x_inode s)(ip := (x_inode s ip)\<lparr>d_addrs := f\<rparr>)) \<and>
     (\<forall>c. free_blk t c \<longrightarrow> free_blk s c) \<and>
     (\<forall>k \<le> 140. if slot s ip k = 0 then slot t ip k = 0 \<or> free_blk s (unat (slot t ip k)) else slot t ip k = slot s ip k) \<and>
     (\<forall>n. n \<noteq> bmapb s \<longrightarrow> \<not> free_blk s (unat n) \<longrightarrow> n \<noteq> slot s ip 140 \<longrightarrow> content t n = content s n)"

lemma steady_refl [simp]: "steady ip s s"
  by (auto simp: steady_def intro: exI [of _ "addrs s ip"])

lemma steady_slot:
  assumes "steady ip s t" "k \<le> 140"
  shows "slot s ip k \<noteq> 0 \<Longrightarrow> slot t ip k = slot s ip k"
    "slot s ip k = 0 \<Longrightarrow> slot t ip k = 0 \<or> free_blk s (unat (slot t ip k))"
  using assms by (auto simp: steady_def split: if_splits)

lemma steady_trans:
  assumes "steady ip s t" "steady ip t u"
  shows "steady ip s u"
proof -
  have sb: "x_sb t = x_sb s" "x_sb u = x_sb t" "\<And>c. free_blk t c \<Longrightarrow> free_blk s c" using assms by (auto simp: steady_def)
  have "content u n = content s n" if n: "n \<noteq> bmapb s" "\<not> free_blk s (unat n)" "n \<noteq> slot s ip 140" for n
  proof -
    have "n \<noteq> slot t ip 140" using n steady_slot [OF assms(1), of 140] by (cases "slot s ip 140 = 0") auto
    then have "content u n = content t n" using assms(2) n sb by (auto simp: steady_def)
    then show ?thesis using assms(1) n by (simp add: steady_def)
  qed
  moreover have "if slot s ip k = 0 then slot u ip k = 0 \<or> free_blk s (unat (slot u ip k)) else slot u ip k = slot s ip k" if "k \<le> 140" for k
    using steady_slot [OF assms(1) that] steady_slot [OF assms(2) that] sb(3) by (cases "slot t ip k = 0") auto
  moreover obtain f g where "x_inode t = (x_inode s)(ip := (x_inode s ip)\<lparr>d_addrs := f\<rparr>)" "x_inode u = (x_inode t)(ip := (x_inode t ip)\<lparr>d_addrs := g\<rparr>)"
    using assms by (auto simp: steady_def)
  then have "x_inode u = (x_inode s)(ip := (x_inode s ip)\<lparr>d_addrs := g\<rparr>)" by simp
  ultimately show ?thesis using assms unfolding steady_def by auto
qed

lemma file_okD:
  assumes "file_ok s ip"
  shows "i_dev (x_inode s ip) = 1"
    "k \<le> 140 \<Longrightarrow> slot s ip k \<noteq> 0 \<Longrightarrow> data_blk s (slot s ip k)"
    "k \<le> 140 \<Longrightarrow> l \<le> 140 \<Longrightarrow> slot s ip k \<noteq> 0 \<Longrightarrow> slot s ip k = slot s ip l \<Longrightarrow> k = l"
  using assms by (auto simp: file_ok_def)

lemma data_blk_ne: "data_blk s a \<Longrightarrow> a \<noteq> bmapb s \<and> \<not> free_blk s (unat a)"
  by (auto simp: data_blk_def)

lemma steady_content:
  assumes "steady ip s t" "n \<noteq> bmapb s" "\<not> free_blk s (unat n)" "n \<noteq> slot s ip 140"
  shows "content t n = content s n"
  using assms by (simp add: steady_def)

text \<open>Blocks of the file are never the bitmap, and the data of the file survives a steady step.\<close>

lemma steady_data:
  assumes st: "steady ip s t" and F: "file_ok s ip" and k: "k < 140" "slot s ip k \<noteq> 0"
  shows "content t (slot t ip k) = content s (slot s ip k)"
proof -
  have d: "data_blk s (slot s ip k)" using file_okD(2) [OF F, of k] k by simp
  have "slot s ip k \<noteq> slot s ip 140" using file_okD(3) [OF F, of k 140] k by auto
  then have "content t (slot s ip k) = content s (slot s ip k)"
    using steady_content [OF st] data_blk_ne [OF d] by blast
  then show ?thesis using steady_slot(1) [OF st, of k] k by simp
qed

text \<open>The effect of allocating block \<open>a\<close> for slot \<open>j\<close>.\<close>

definition allocates :: "nat \<Rightarrow> nat \<Rightarrow> nat \<Rightarrow> 'z fsst_scheme \<Rightarrow> 'z fsst_scheme \<Rightarrow> bool" where
  "allocates ip j a s t \<longleftrightarrow> j \<le> 140 \<and> slot s ip j = 0 \<and> free_blk s a \<and>
     (\<forall>k \<le> 140. slot t ip k = (if k = j then of_nat a else slot s ip k)) \<and> (\<forall>c. free_blk t c \<longleftrightarrow> c \<noteq> a \<and> free_blk s c) \<and>
     (\<forall>i < BSIZE. j < 140 \<longrightarrow> content t (of_nat a) i = 0) \<and>
     (\<forall>n. n \<noteq> bmapb s \<longrightarrow> n \<noteq> of_nat a \<longrightarrow> n \<noteq> slot s ip 140 \<longrightarrow> content t n = content s n) \<and>
     ctl t = ctl s \<and>
     (\<exists>f. x_inode t = (x_inode s)(ip := (x_inode s ip)\<lparr>d_addrs := f\<rparr>))"

lemma allocates_steady:
  assumes A: "allocates ip j a s t" and F: "file_ok s ip" and B: "bitmap_ok {} s"
  shows "steady ip s t" "file_ok t ip" "i < 140 * BSIZE \<Longrightarrow> fdata t ip i = fdata s ip i"
proof -
  note av = bitmap_avail(3,4) [OF B]
  have a: "free_blk s a" "unat (of_nat a :: uint) = a" "unat (bmapb s) < a" using A B av(1) by (auto simp: allocates_def bitmap_ok_def)
  have sl: "slot t ip k = (if k = j then of_nat a else slot s ip k)" if "k \<le> 140" for k using A that by (simp add: allocates_def)
  show st: "steady ip s t"
    using A a by (auto simp: steady_def allocates_def)
  have d: "data_blk t (slot t ip k)" if "k \<le> 140" "slot t ip k \<noteq> 0" for k
  proof (cases "k = j")
    case True
    then show ?thesis using sl [OF that(1)] a A by (auto simp: data_blk_def allocates_def free_blk_def)
  next
    case False
    then have "data_blk s (slot s ip k)" using file_okD(2) [OF F that(1)] sl [OF that(1)] that(2) by simp
    then show ?thesis using sl [OF that(1)] False A by (auto simp: data_blk_def allocates_def)
  qed
  have "slot s ip k \<noteq> of_nat a" if "k \<le> 140" for k
  proof
    assume e: "slot s ip k = of_nat a"
    then have "slot s ip k \<noteq> 0" using a(2,3) by auto
    then show False using file_okD(2) [OF F that] e a by (simp add: data_blk_def)
  qed
  then have "k = l" if "k \<le> 140" "l \<le> 140" "slot t ip k \<noteq> 0" "slot t ip k = slot t ip l" for k l
    using that file_okD(3) [OF F that(1,2)] unfolding sl [OF that(1)] sl [OF that(2)]
    by (auto split: if_splits)
  then show "file_ok t ip" using d F A by (auto simp: file_ok_def allocates_def)
  show "fdata t ip i = fdata s ip i" if "i < 140 * BSIZE"
  proof -
    define k where "k = i div BSIZE"
    have k: "k < 140" using that by (simp add: k_def)
    show ?thesis
    proof (cases "slot s ip k = 0")
      case False
      then show ?thesis using steady_data [OF st F k False] steady_slot(1) [OF st, of k] k by (simp add: fdata_def k_def [symmetric] Let_def)
    next
      case True
      then show ?thesis using A k sl [of k] by (auto simp: fdata_def k_def [symmetric] Let_def allocates_def)
    qed
  qed
qed

section \<open>Block maps\<close>

lemma upd_inode_view [simp]:
  fixes s :: "'z fsst_scheme"
  shows "content (upd_inode ip f s) = content s" "pinned (upd_inode ip f s) = pinned s" "in_op me H (upd_inode ip f s) = in_op me H s"
    "cache_op me H (upd_inode ip f s) = cache_op me H s" "free_blk (upd_inode ip f s) = free_blk s" "bitmap_ok H (upd_inode ip f s) = bitmap_ok H s" "cap (upd_inode ip f s) = cap s"
    "x_sb (upd_inode ip f s) = x_sb s" "x_inode (upd_inode ip f s) = (x_inode s)(ip := f (x_inode s ip))"
    "g_start (upd_inode ip f s) = g_start s" "g_size (upd_inode ip f s) = g_size s" "g_outstanding (upd_inode ip f s) = g_outstanding s"
    "g_committing (upd_inode ip f s) = g_committing s" "g_dev (upd_inode ip f s) = g_dev s" "fsst.more (upd_inode ip f s) = fsst.more s"
    "f_buf (upd_inode ip f s) = f_buf s"
proof -
  have f: "f_buf (upd_inode ip f s) = f_buf s" "f_lru (upd_inode ip f s) = f_lru s" "f_ide (upd_inode ip f s) = f_ide s"
    by (simp_all add: upd_inode_def)
  then show c: "content (upd_inode ip f s) = content s" by (rule content_eqI)
  show p: "pinned (upd_inode ip f s) = pinned s" by (simp add: pinned_def dirty_def f)
  have d: "dirty (upd_inode ip f s) = dirty s" by (simp add: dirty_def f)
  show cp: "cap (upd_inode ip f s) = cap s" "x_sb (upd_inode ip f s) = x_sb s" by (simp_all add: cap_def upd_inode_def)
  have "log_held me H (upd_inode ip f s) = log_held me H s" by (simp add: log_held_def p d cache_inv_def f) (simp add: upd_inode_def)
  then show co: "cache_op me H (upd_inode ip f s) = cache_op me H s" by (simp add: cache_op_def p cp)
  then show "in_op me H (upd_inode ip f s) = in_op me H s" by (simp add: in_op_def) (simp add: upd_inode_def)
  show fb: "free_blk (upd_inode ip f s) = free_blk s" by (rule ext) (simp add: free_blk_def c cp)
  then show "bitmap_ok H (upd_inode ip f s) = bitmap_ok H s" by (simp add: bitmap_ok_def layout_def f cp) (simp add: upd_inode_def)
qed (simp_all add: upd_inode_def)

lemma get32_zero_block: "k + 4 \<le> BSIZE \<Longrightarrow> get32 (zero_block v) k = 0"
  by (simp add: get32_def zero_block_def)

text \<open>One of the pointers in the inode: direct, or that to the indirect block.\<close>

lemma bmap_addr_run:
  fixes s :: "'z fsst_scheme"
  assumes O: "in_op me {} s" and B: "bitmap_ok {} s" and F: "file_ok s ip" and k: "k \<le> 12" "addrs s ip k = 0"
    and b: "\<exists>b. free_blk s b" and c: "int (card (pinned s \<union> {bmapb s})) + 1 < cap s"
  shows "\<exists>a t. bmap_addr me ip k s = Ok (of_nat a, t) \<and> in_op me {} t \<and> bitmap_ok {} t \<and>
     allocates ip (if k = 12 then 140 else k) a s t \<and> pinned t = insert (of_nat a) (insert (bmapb s) (pinned s))"
proof -
  obtain a where a: "free_blk s a" "\<forall>c < a. \<not> free_blk s c" using first_free b by blast
  have "card (insert (of_nat a) (insert (bmapb s) (pinned s))) \<le> card (pinned s \<union> {bmapb s}) + 1" by (simp add: card_insert_if)
  then have c2: "int (card (insert (of_nat a) (insert (bmapb s) (pinned s)))) < cap s" using c by linarith
  obtain u where u: "balloc me 1 s = Ok (of_nat a, u)" "in_op me {} u" "untouched {} s u"
      "content u = (content s)(bmapb s := set_bit_of a (content s (bmapb s)), of_nat a := zero_block (content s (of_nat a)))"
      "pinned u = insert (of_nat a) (insert (bmapb s) (pinned s))"
    using balloc_run [OF O B a c2] by blast
  note av = bitmap_avail(3,4) [OF B a(1)]
  note fs = untouched_fs [OF u(3)]
  have fu: "free_blk u c \<longleftrightarrow> c \<noteq> a \<and> free_blk s c" for c by (rule free_after [OF u(3)]) (use u(4) av(2) in simp)
  have Bu: "bitmap_ok {} u" by (rule bitmap_ok_less [OF B u(3)]) (simp add: fu)
  let ?t = "upd_inode ip (\<lambda>x. x\<lparr>d_addrs := (d_addrs x)(k := of_nat a)\<rparr>) u" and ?j = "if k = 12 then 140 else k"
  have run: "bmap_addr me ip k s = Ok (of_nat a, ?t)" using k u(1) F by (simp add: bmap_addr_def file_ok_def Let_def)
  have other: "content u n = content s n" if "n \<noteq> bmapb s" "n \<noteq> of_nat a" for n using that u(4) by simp
  have sl: "slot ?t ip i = (if i = ?j then of_nat a else slot s ip i)" if "i \<le> 140" for i
  proof (cases "12 \<le> i \<and> i < 140")
    case True
    show ?thesis
    proof (cases "k = 12")
      case k12: True
      have "4 * (i - 12) + 4 \<le> BSIZE" using True by linarith
      then show ?thesis using True k12 k(2) u(4) by (simp add: slot_def fs get32_zero_block)
    next
      case False
      have "content u (addrs s ip 12) = content s (addrs s ip 12)" if "addrs s ip 12 \<noteq> 0"
      proof (rule other)
        have "data_blk s (addrs s ip 12)" using file_okD(2) [OF F, of 140] that by (simp add: slot_def)
        then show "addrs s ip 12 \<noteq> bmapb s" "addrs s ip 12 \<noteq> of_nat a" using av a(1) by (auto simp: data_blk_def)
      qed
      then show ?thesis using True False k(1) by (simp add: slot_def fs)
    qed
  qed (use k that in \<open>auto simp: slot_def fs\<close>)
  have "allocates ip ?j a s ?t"
    unfolding allocates_def
  proof (intro conjI allI impI)
    show "slot s ip ?j = 0" using k by (auto simp: slot_def)
    show "\<exists>f. x_inode ?t = (x_inode s)(ip := (x_inode s ip)\<lparr>d_addrs := f\<rparr>)" by (auto simp: fs)
    show "ctl ?t = ctl s" using untouched_ctl [OF u(3)] by simp
  qed (use k a(1) sl fu other u(4) fs in \<open>auto simp: zero_block_def\<close>)
  then show ?thesis using run u(2,5) Bu by (intro exI [of _ a] exI [of _ ?t]) simp
qed

text \<open>A buffer that is held is changed and logged, and later released.\<close>

lemma held_log:
  assumes O: "in_op me H s" and b: "b \<in> H" and n: "n = b_blockno (f_buf s b)" "\<not> in_log (g_start s) n" "n \<noteq> 1"
    and c: "int (card (insert n (pinned s))) < cap s"
  shows "\<exists>w t. log_write b (set_data b v s) = Ok w \<and> brelse me b w = Ok t \<and> in_op me (H - {b}) t \<and> quiet s w \<and> quiet s t \<and>
     content t = (content s)(n := v) \<and> pinned t = insert n (pinned s)"
proof -
  have L: "log_held me H s" using O by (simp add: in_op_def cache_op_def)
  have le: "card (pinned s) \<le> card (insert n (pinned s))" by (simp add: card_mono subset_insertI)
  have g: "g_n s < int LOGSIZE - 1" "g_n s < g_size s - 1" "1 \<le> g_outstanding s"
    using log_held_card [OF L] c le O by (auto simp: in_op_def cache_op_def cap_def)
  obtain w where w: "log_write b (set_data b v s) = Ok w" "log_held me H w" "content w = (content s)(n := v)"
      "pinned w = insert n (pinned s)" "quiet s w"
    using held_write [OF L b n g, of v] by blast
  obtain t where t: "brelse me b w = Ok t" "log_held me (H - {b}) t" "content t = content w" "pinned t = pinned w" "quiet w t"
    using held_release [OF w(2) b] by blast
  have q: "quiet s t" using w(5) t(5) by (rule quiet_trans)
  have "finite H" using L finite_subset [of H "{0..<NBUF}"] by (simp add: log_held_def cache_inv_def)
  then have "card (H - {b}) \<le> 1" using O card_mono [of H "H - {b}"] by (auto simp: in_op_def cache_op_def)
  then have "in_op me (H - {b}) t" using O t(2,4) w(4) c cap_quiet [OF q] q by (simp add: in_op_def cache_op_def quietD(3))
  then show ?thesis using w t q by auto
qed

text \<open>An entry of the indirect block that is empty.\<close>

lemma bmap_entry_run:
  fixes s :: "'z fsst_scheme"
  assumes O: "in_op me {} s" and B: "bitmap_ok {} s" and F: "file_ok s ip" and m: "m < 128" "addrs s ip 12 = i" "i \<noteq> 0" "slot s ip (12 + m) = 0"
    and b: "\<exists>b. free_blk s b" and c: "int (card (pinned s \<union> {bmapb s, i})) + 1 < cap s"
  shows "\<exists>bp u a w v t. bread me 1 i s = Ok (bp, u) \<and> get32 (b_data (f_buf u bp)) (4 * m) = 0 \<and> x_inode u = x_inode s \<and>
     balloc me 1 u = Ok (of_nat a, w) \<and> log_write bp (set_data bp (put32 (4 * m) (of_nat a) (b_data (f_buf w bp))) w) = Ok v \<and>
     brelse me bp v = Ok t \<and> in_op me {} t \<and> bitmap_ok {} t \<and> allocates ip (12 + m) a s t \<and>
     pinned t = insert (of_nat a) (pinned s \<union> {bmapb s, i})"
proof -
  have s140: "slot s ip 140 = i" using m by (simp add: slot_def)
  have di: "data_blk s i" using file_okD(2) [OF F, of 140] m(3) s140 by simp
  have e: "get32 (content s i) (4 * m) = 0" using m by (simp add: slot_def)
  have L: "layout s" using B by (simp add: bitmap_ok_def)
  have ii: "unat (bmapb s) < unat i" "unat i < unat (sb_size (x_sb s))" "\<not> free_blk s (unat i)" using di by (simp_all add: data_blk_def)
  have oki: "i < of_nat FSSIZE" "\<not> in_log (g_start s) i" "i \<noteq> 1" "i \<noteq> bmapb s" using layoutD(4) [OF L ii(1,2)] by simp_all
  obtain bp u where u: "bread me 1 i s = Ok (bp, u)" "b_data (f_buf u bp) = content s i" "log_held me {bp} u" "b_blockno (f_buf u bp) = i"
      "content u = content s" "pinned u = pinned s" "untouched {} s u"
    using read_run [OF O oki(1)] by auto
  note fu = untouched_fs [OF u(7)] and cu = untouchedD [OF u(7)]
  have Ou: "in_op me {bp} u" using O u(3,6,7) cu(1) by (auto simp: in_op_def cache_op_def untouched_def quietD)
  have fru: "free_blk u c = free_blk s c" for c by (simp add: free_blk_def u(5) fu)
  have Bu: "bitmap_ok {bp} u" using B cu(3) ii oki(4) by (simp add: bitmap_ok_def layout_def fu fru u(4))
  obtain a where a: "free_blk s a" "\<forall>c < a. \<not> free_blk s c" using first_free b by blast
  have "card (insert (of_nat a) (pinned s \<union> {bmapb s, i})) \<le> card (pinned s \<union> {bmapb s, i}) + 1" by (simp add: card_insert_if)
  moreover have "card (insert (of_nat a) (insert (bmapb s) (pinned s))) \<le> card (insert (of_nat a) (pinned s \<union> {bmapb s, i}))"
    by (rule card_mono) auto
  ultimately have c1: "int (card (insert (of_nat a) (insert (bmapb s) (pinned s)))) < cap s"
      "int (card (insert (of_nat a) (pinned s \<union> {bmapb s, i}))) < cap s" using c by linarith+
  have au: "free_blk u a" "\<forall>c < a. \<not> free_blk u c" using a by (simp_all add: fru)
  obtain w where w: "balloc me 1 u = Ok (of_nat a, w)" "in_op me {bp} w" "untouched {bp} u w"
      "content w = (content s)(bmapb s := set_bit_of a (content s (bmapb s)), of_nat a := zero_block (content s (of_nat a)))"
      "pinned w = insert (of_nat a) (insert (bmapb s) (pinned s))"
    using balloc_run [OF Ou Bu au] c1(1) by (auto simp: fu cu(1) u(5,6))
  have bpw: "f_buf w bp = f_buf u bp" using w(3) by (simp add: untouched_def)
  note fw = untouched_fs [OF w(3)] and cw = untouchedD [OF w(3)]
  have "insert i (pinned w) = insert (of_nat a) (pinned s \<union> {bmapb s, i})" using w(5) by auto
  then have pw: "int (card (insert i (pinned w))) < cap w" using c1(2) cw(1) cu(1) by simp
  obtain v t where t: "log_write bp (set_data bp (put32 (4 * m) (of_nat a) (content s i)) w) = Ok v" "brelse me bp v = Ok t"
      "in_op me ({bp} - {bp}) t" "quiet w t" "content t = (content w)(i := put32 (4 * m) (of_nat a) (content s i))" "pinned t = insert i (pinned w)"
    using held_log [OF w(2) _ _ _ oki(3) pw] bpw u(4) oki(2) cw(3) cu(3) by (metis singletonI)
  note ft = quiet_fs [OF t(4)]
  have ct: "untouched {} s t" using u(7) w(3) t(4) by (auto simp: untouched_def intro: quiet_trans)
  note av = bitmap_avail(3,4) [OF B a(1)]
  have ai: "of_nat a \<noteq> i" using av(1) a(1) ii(3) by auto
  have frt: "free_blk t c \<longleftrightarrow> c \<noteq> a \<and> free_blk s c" for c
    by (rule free_after [OF ct]) (use t(5) w(4) oki(4) av(2) in simp)
  have Bt: "bitmap_ok {} t" by (rule bitmap_ok_less [OF B ct]) (simp add: frt)
  have cont: "content t n = content s n" if "n \<noteq> bmapb s" "n \<noteq> of_nat a" "n \<noteq> i" for n using that t(5) w(4) by simp
  have it: "content t i = put32 (4 * m) (of_nat a) (content s i)" using t(5) by simp
  have xi: "x_inode t = x_inode s" by (simp add: ft fw fu)
  have "allocates ip (12 + m) a s t"
    unfolding allocates_def
  proof (intro conjI allI impI)
    show "slot t ip k = (if k = 12 + m then of_nat a else slot s ip k)" if "k \<le> 140" for k
    proof (cases "12 \<le> k \<and> k < 140 \<and> k \<noteq> 12 + m")
      case True
      then have "4 * (k - 12) + 4 \<le> 4 * m \<or> 4 * m + 4 \<le> 4 * (k - 12)" by linarith
      then show ?thesis using True m it by (simp add: slot_def xi)
    qed (use m it that in \<open>auto simp: slot_def xi\<close>)
    show "content t (of_nat a) j = 0" if "j < BSIZE" for j using that t(5) w(4) ai by (simp add: zero_block_def)
    show "\<exists>f. x_inode t = (x_inode s)(ip := (x_inode s ip)\<lparr>d_addrs := f\<rparr>)" unfolding xi by (rule exI [of _ "addrs s ip"]) simp
    show "ctl t = ctl s" by (rule untouched_ctl [OF ct])
  qed (use m a(1) frt cont s140 in \<open>auto simp: ft fw fu\<close>)
  moreover have "pinned t = insert (of_nat a) (pinned s \<union> {bmapb s, i})" using t(6) w(5) by auto
  ultimately show ?thesis using u(1,2) e w(1) t(1-3) Bt bpw fu(2)
    by (intro exI [of _ bp] exI [of _ u] exI [of _ a] exI [of _ w] exI [of _ v] exI [of _ t]) simp
qed

text \<open>
  Budgets. Besides data blocks, operations on a file write the bitmap, the block of the inode and the indirect block.
  A budget of \<open>r\<close> leaves room in the log, of which less than \<open>N\<close> blocks are used, and free blocks on disk for \<open>r\<close> data
  blocks and for all of those, with \<open>M\<close> blocks to spare.
\<close>

abbreviation ib :: "'z fsst_scheme \<Rightarrow> nat \<Rightarrow> uint" where
  "ib s ip \<equiv> IBLOCK (i_inum (x_inode s ip)) (x_sb s)"

definition fresh :: "'z fsst_scheme \<Rightarrow> nat \<Rightarrow> nat" where
  "fresh s ip = (if slot s ip 140 = 0 then 1 else 0)"

definition meta :: "'z fsst_scheme \<Rightarrow> nat \<Rightarrow> uint set" where
  "meta s ip = {bmapb s, ib s ip} \<union> (if slot s ip 140 = 0 then {} else {slot s ip 140})"

definition budget :: "int \<Rightarrow> nat \<Rightarrow> nat \<Rightarrow> uint set \<Rightarrow> 'z fsst_scheme \<Rightarrow> nat \<Rightarrow> bool" where
  "budget N M r D s ip \<longleftrightarrow> N \<le> cap s \<and> int (card (pinned s \<union> meta s ip \<union> D) + fresh s ip + r) < N \<and> fresh s ip + r + M \<le> card (Collect (free_blk s))"

definition file_op :: "int \<Rightarrow> 'z fsst_scheme \<Rightarrow> nat \<Rightarrow> bool" where
  "file_op me s ip \<longleftrightarrow> in_op me {} s \<and> bitmap_ok {} s \<and> file_ok s ip"

lemma finite_meta [simp]: "finite (meta s ip)"
  by (simp add: meta_def)

lemma finite_free [simp]: "finite (Collect (free_blk s))"
  by (rule finite_subset [of _ "{0..<unat (sb_size (x_sb s))}"]) (auto simp: free_blk_def)

lemma budget_use:
  assumes "budget N M (Suc r) {} s ip"
  shows "budget N M r {a} s ip"
proof -
  have "card (insert a (pinned s \<union> meta s ip)) \<le> card (pinned s \<union> meta s ip) + 1" by (simp add: card_insert_if)
  then show ?thesis using assms by (simp add: budget_def)
qed

lemma budget_free: "budget N M (Suc r) D s ip \<Longrightarrow> \<exists>b. free_blk s b"
proof (rule ccontr)
  assume b: "budget N M (Suc r) D s ip" and "\<nexists>b. free_blk s b"
  then have "Collect (free_blk s) = {}" by simp
  then show False using b unfolding budget_def by (simp only: card.empty) simp
qed

lemma budget_room:
  assumes "budget N M (Suc r) {} s ip" "X \<subseteq> meta s ip"
  shows "int (card (pinned s \<union> X)) + 1 < cap s"
proof -
  have "card (pinned s \<union> X) \<le> card (pinned s \<union> meta s ip)" using assms(2) by (intro card_mono) auto
  then show ?thesis using assms(1) by (simp add: budget_def)
qed

lemma untouched_file:
  fixes s :: "'z fsst_scheme"
  assumes c: "untouched {} s t" "content t = content s"
  shows "slot t = slot s" "free_blk t = free_blk s" "fdata t = fdata s" "file_ok t = file_ok s" "bitmap_ok {} t = bitmap_ok {} s"
    "fresh t = fresh s" "meta t = meta s" "pinned t = pinned s \<Longrightarrow> budget N M r D t ip = budget N M r D s ip" "steady ip s t"
proof -
  note f = untouched_fs [OF c(1)] and d = untouchedD [OF c(1)]
  show sl: "slot t = slot s" by (intro ext) (simp add: slot_def f c(2))
  show fr: "free_blk t = free_blk s" by (intro ext) (simp add: free_blk_def f c(2))
  show "fdata t = fdata s" by (intro ext) (simp add: fdata_def sl c(2) Let_def)
  show "file_ok t = file_ok s" by (intro ext) (simp add: file_ok_def sl data_blk_def fr f)
  show "bitmap_ok {} t = bitmap_ok {} s" by (simp add: bitmap_ok_def layout_def fr f d)
  show fm: "fresh t = fresh s" "meta t = meta s" by (intro ext; simp add: fresh_def meta_def sl f)+
  show "budget N M r D t ip = budget N M r D s ip" if "pinned t = pinned s" using that by (simp add: budget_def fm fr d(1))
  show "steady ip s t" using untouched_ctl [OF c(1)] by (auto simp: steady_def f c(2) sl fr intro: exI [of _ "addrs s ip"])
qed

lemma alloc_budget:
  fixes s :: "'z fsst_scheme"
  assumes A: "allocates ip j a s t" and B: "bitmap_ok {} s" and p: "pinned t \<subseteq> insert (of_nat a) (pinned s \<union> meta s ip)"
    and b: "budget N M (Suc r) {} s ip"
  shows "j < 140 \<Longrightarrow> budget N M r {of_nat a} t ip" "j = 140 \<Longrightarrow> budget N M (Suc r) {} t ip"
proof -
  have fa: "free_blk s a" using A by (simp add: allocates_def)
  then have "unat (of_nat a :: uint) = a" "unat (bmapb s) < a" using bitmap_avail(3) [OF B] B by (auto simp: bitmap_ok_def)
  then have a: "free_blk s a" "(of_nat a :: uint) \<noteq> 0" using fa by (simp_all add: unat_eq_zero [symmetric] del: unat_eq_zero)
  have fr: "Collect (free_blk t) = Collect (free_blk s) - {a}" using A by (auto simp: allocates_def)
  have cf: "card (Collect (free_blk t)) = card (Collect (free_blk s)) - 1" unfolding fr using a(1) by simp
  obtain f where f: "x_inode t = (x_inode s)(ip := (x_inode s ip)\<lparr>d_addrs := f\<rparr>)" using A by (auto simp: allocates_def)
  have st: "x_sb t = x_sb s" "cap t = cap s" "i_inum (x_inode t ip) = i_inum (x_inode s ip)" using A f by (simp_all add: allocates_def cap_def)
  have sl: "slot t ip 140 = (if j = 140 then of_nat a else slot s ip 140)" "slot s ip j = 0" using A by (simp_all add: allocates_def)
  have u: "card (insert (of_nat a) (pinned s \<union> meta s ip)) \<le> card (pinned s \<union> meta s ip) + 1" by (simp add: card_insert_if)
  have "pinned t \<union> meta t ip \<subseteq> insert (of_nat a) (pinned s \<union> meta s ip)" using p sl by (auto simp: meta_def st split: if_splits)
  then have m: "card (pinned t \<union> meta t ip) \<le> card (insert (of_nat a) (pinned s \<union> meta s ip))"
      "card (insert (of_nat a) (pinned t \<union> meta t ip)) \<le> card (insert (of_nat a) (pinned s \<union> meta s ip))"
    by (auto intro!: card_mono)
  show "budget N M r {of_nat a} t ip" if "j < 140"
    using b m(2) u cf sl that by (cases "slot s ip 140 = 0") (auto simp: budget_def st fresh_def)
  show "budget N M (Suc r) {} t ip" if "j = 140"
    using b m(1) u cf sl that a(2) by (auto simp: budget_def st fresh_def)
qed

lemma data_blk_ok:
  fixes s :: "'z fsst_scheme"
  assumes "bitmap_ok H s" "data_blk s a"
  shows "a < of_nat FSSIZE" "\<not> in_log (g_start s) a" "a \<noteq> 1" "a \<noteq> bmapb s" "a \<noteq> 0"
proof -
  have "unat (bmapb s) < unat a" "unat a < unat (sb_size (x_sb s))" using assms(2) by (simp_all add: data_blk_def)
  then show "a < of_nat FSSIZE" "\<not> in_log (g_start s) a" "a \<noteq> 1" "a \<noteq> bmapb s" "a \<noteq> 0"
    using layoutD(4) [of s "unat a"] assms(1) by (auto simp: bitmap_ok_def)
qed

text \<open>A block that is there already.\<close>

lemma bmap_hit:
  fixes s :: "'z fsst_scheme"
  assumes s: "cache_op me {} s" "bitmap_ok {} s" "file_ok s ip" and k: "bn < 140" "slot s ip (unat bn) \<noteq> 0"
  shows "\<exists>t. bmap me ip bn s = Ok (slot s ip (unat bn), t) \<and> untouched {} s t \<and> content t = content s \<and> pinned t = pinned s \<and> cache_op me {} t"
proof -
  have kn: "unat bn < 140" using k(1) by (simp add: word_less_nat_alt)
  show ?thesis
  proof (cases "unat bn < 12")
    case True
    then have "bn < 12" by (simp add: word_less_nat_alt)
    then show ?thesis using True k(2) s(1) by (simp add: bmap_def bmap_addr_def slot_def Let_def)
  next
    case False
    then have l: "\<not> bn < 12" by (simp add: word_less_nat_alt)
    then have m: "unat (bn - 12) = unat bn - 12" using unat_sub [of 12 bn] by (simp add: not_less)
    then have lt: "bn - 12 < 128" using kn by (simp add: word_less_nat_alt)
    have i: "addrs s ip 12 \<noteq> 0" "slot s ip (unat bn) = get32 (content s (addrs s ip 12)) (4 * (unat bn - 12))"
      using k(2) False kn by (auto simp: slot_def split: if_splits)
    have "data_blk s (addrs s ip 12)" using file_okD(2) [OF s(3), of 140] i(1) by (simp add: slot_def)
    from data_blk_ok(1) [OF s(2) this] obtain b u t where "bread me 1 (addrs s ip 12) s = Ok (b, u)" "b_data (f_buf u b) = content s (addrs s ip 12)"
        "brelse me b u = Ok t" "cache_op me {} t" "content t = content s" "pinned t = pinned s" "untouched {} s t"
      using read_only [OF s(1), of "addrs s ip 12"] by auto
    then show ?thesis using i l lt m k(2) s(3) by (simp add: bmap_def bmap_addr_def Let_def file_ok_def)
  qed
qed

text \<open>The step that makes sure that there is an indirect block.\<close>

lemma bmap_indirect:
  fixes s :: "'z fsst_scheme"
  assumes P: "file_op me s ip" and b: "budget N M (Suc r) {} s ip"
  shows "\<exists>t. bmap_addr me ip 12 s = Ok (addrs t ip 12, t) \<and> addrs t ip 12 \<noteq> 0 \<and> file_op me t ip \<and> budget N M (Suc r) {} t ip \<and> steady ip s t \<and>
     (\<forall>i < 140 * BSIZE. fdata t ip i = fdata s ip i)"
proof (cases "addrs s ip 12 = 0")
  case False
  then show ?thesis using P b by (simp add: bmap_addr_def Let_def)
next
  case True
  have s: "in_op me {} s" "bitmap_ok {} s" "file_ok s ip" using P by (simp_all add: file_op_def)
  have c: "int (card (pinned s \<union> {bmapb s})) + 1 < cap s" by (rule budget_room [OF b]) (simp add: meta_def)
  note f = budget_free [OF b]
  obtain a t where t: "bmap_addr me ip 12 s = Ok (of_nat a, t)" "in_op me {} t" "bitmap_ok {} t" "allocates ip 140 a s t"
      "pinned t = insert (of_nat a) (insert (bmapb s) (pinned s))"
    using bmap_addr_run [OF s order_refl True f c] by auto
  note st = allocates_steady [OF t(4) s(3,2)]
  have "pinned t \<subseteq> insert (of_nat a) (pinned s \<union> meta s ip)" using t(5) by (auto simp: meta_def)
  then have "budget N M (Suc r) {} t ip" using alloc_budget(2) [OF t(4) s(2) _ b] by simp
  moreover have "slot t ip 140 = of_nat a" using t(4) by (simp add: allocates_def)
  then have "addrs t ip 12 = of_nat a" by (simp add: slot_def)
  moreover have "unat (of_nat a :: uint) = a" "unat (bmapb s) < a"
    using bitmap_avail(3) [OF s(2)] s(2) t(4) by (auto simp: bitmap_ok_def allocates_def)
  then have "(of_nat a :: uint) \<noteq> 0" by auto
  ultimately show ?thesis using t st by (auto simp: file_op_def)
qed

text \<open>The whole of \<^verbatim>\<open>bmap\<close>: it returns the block of the file, allocated if need be, and changes no data of the file.\<close>

lemma bmap_run:
  fixes s :: "'z fsst_scheme"
  assumes P: "file_op me s ip" and k: "bn < 140" and b: "budget N M (Suc r) {} s ip"
  shows "\<exists>t. bmap me ip bn s = Ok (slot t ip (unat bn), t) \<and> slot t ip (unat bn) \<noteq> 0 \<and> file_op me t ip \<and> budget N M r {slot t ip (unat bn)} t ip \<and>
     steady ip s t \<and> (\<forall>i < 140 * BSIZE. fdata t ip i = fdata s ip i) \<and> (slot s ip (unat bn) \<noteq> 0 \<longrightarrow> x_inode t = x_inode s)"
proof (cases "slot s ip (unat bn) = 0")
  case False
  have s: "in_op me {} s" "cache_op me {} s" "bitmap_ok {} s" "file_ok s ip" using P by (simp_all add: file_op_def in_op_def)
  obtain t where t: "bmap me ip bn s = Ok (slot s ip (unat bn), t)" "untouched {} s t" "content t = content s" "pinned t = pinned s" "in_op me {} t"
    using bmap_hit [OF s(2-4) k False] untouched_op [OF _ _ s(1)] by blast
  note c = untouched_file [OF t(2,3)]
  show ?thesis using t False P budget_use [OF b] c untouched_fs(2) [OF t(2)] by (auto simp: file_op_def)
next
  case True
  have kn: "unat bn < 140" using k by (simp add: word_less_nat_alt)
  show ?thesis
  proof (cases "unat bn < 12")
    case d: True
    have s: "in_op me {} s" "bitmap_ok {} s" "file_ok s ip" using P by (simp_all add: file_op_def)
    have c: "int (card (pinned s \<union> {bmapb s})) + 1 < cap s" by (rule budget_room [OF b]) (simp add: meta_def)
    note f = budget_free [OF b]
    have z: "addrs s ip (unat bn) = 0" using True d by (simp add: slot_def)
    obtain a t where t: "bmap_addr me ip (unat bn) s = Ok (of_nat a, t)" "in_op me {} t" "bitmap_ok {} t" "allocates ip (unat bn) a s t"
        "pinned t = insert (of_nat a) (insert (bmapb s) (pinned s))"
      using bmap_addr_run [OF s _ z f c] d by auto
    note st = allocates_steady [OF t(4) s(3,2)]
    have "pinned t \<subseteq> insert (of_nat a) (pinned s \<union> meta s ip)" using t(5) by (auto simp: meta_def)
    then have "budget N M r {of_nat a} t ip" using alloc_budget(1) [OF t(4) s(2) _ b] kn by simp
    moreover have "slot t ip (unat bn) = of_nat a" using t(4) kn by (simp add: allocates_def)
    moreover have "bn < 12" using d by (simp add: word_less_nat_alt)
    moreover have "unat (of_nat a :: uint) = a" "unat (bmapb s) < a"
      using bitmap_avail(3) [OF s(2)] s(2) t(4) by (auto simp: bitmap_ok_def allocates_def)
    then have "(of_nat a :: uint) \<noteq> 0" by auto
    ultimately show ?thesis using t st True by (auto simp: file_op_def bmap_def)
  next
    case False
    then have l: "\<not> bn < 12" by (simp add: word_less_nat_alt)
    then have m: "unat (bn - 12) = unat bn - 12" using unat_sub [of 12 bn] by (simp add: not_less)
    then have lt: "bn - 12 < 128" using kn by (simp add: word_less_nat_alt)
    obtain u where u: "bmap_addr me ip 12 s = Ok (addrs u ip 12, u)" "addrs u ip 12 \<noteq> 0" "file_op me u ip" "budget N M (Suc r) {} u ip" "steady ip s u"
        "\<forall>i < 140 * BSIZE. fdata u ip i = fdata s ip i"
      using bmap_indirect [OF P b] by blast
    have uu: "in_op me {} u" "bitmap_ok {} u" "file_ok u ip" using u(3) by (simp_all add: file_op_def)
    have du: "i_dev (x_inode u ip) = 1" using uu(3) by (simp add: file_ok_def)
    have uc: "cache_op me {} u" using uu(1) by (simp add: in_op_def)
    show ?thesis
    proof (cases "slot u ip (unat bn) = 0")
      case present: False
      obtain t where t: "bmap me ip bn u = Ok (slot u ip (unat bn), t)" "untouched {} u t" "content t = content u" "pinned t = pinned u" "in_op me {} t"
        using bmap_hit [OF uc uu(2,3) k present] untouched_op [OF _ _ uu(1)] by blast
      note c = untouched_file [OF t(2,3)]
      have "bmap me ip bn s = bmap me ip bn u" using l lt u(1,2) by (simp add: bmap_def bmap_addr_def Let_def)
      then show ?thesis using t present True u(3,6) budget_use [OF u(4)] c steady_trans [OF u(5) c(9)] by (auto simp: file_op_def)
    next
      case absent: True
      let ?m = "unat bn - 12"
      have m2: "?m < 128" "slot u ip (12 + ?m) = 0" "12 + ?m = unat bn" using kn absent False by simp_all
      have i140: "slot u ip 140 = addrs u ip 12" by (simp add: slot_def)
      have c: "int (card (pinned u \<union> {bmapb u, addrs u ip 12})) + 1 < cap u"
        by (rule budget_room [OF u(4)]) (use u(2) i140 in \<open>simp add: meta_def\<close>)
      note f = budget_free [OF u(4)]
      obtain bp v a w x t where e: "bread me 1 (addrs u ip 12) u = Ok (bp, v)" "get32 (b_data (f_buf v bp)) (4 * ?m) = 0" "x_inode v = x_inode u"
          "balloc me 1 v = Ok (of_nat a, w)" "log_write bp (set_data bp (put32 (4 * ?m) (of_nat a) (b_data (f_buf w bp))) w) = Ok x"
          "brelse me bp x = Ok t" "in_op me {} t" "bitmap_ok {} t" "allocates ip (12 + ?m) a u t"
          "pinned t = insert (of_nat a) (pinned u \<union> {bmapb u, addrs u ip 12})"
        using bmap_entry_run [OF uu m2(1) refl u(2) m2(2) f c] by blast
      note st = allocates_steady [OF e(9) uu(3,2)]
      have "pinned t \<subseteq> insert (of_nat a) (pinned u \<union> meta u ip)" using e(10) u(2) i140 by (auto simp: meta_def)
      then have bt: "budget N M r {of_nat a} t ip" using alloc_budget(1) [OF e(9) uu(2) _ u(4)] m2(1) by simp
      have sa: "slot t ip (unat bn) = of_nat a" using e(9) kn m2(3) by (simp add: allocates_def)
      have "unat (of_nat a :: uint) = a" "unat (bmapb u) < a"
        using bitmap_avail(3) [OF uu(2)] uu(2) e(9) by (auto simp: bitmap_ok_def allocates_def)
      then have a0: "(of_nat a :: uint) \<noteq> 0" by auto
      have "bmap me ip bn s = Ok (of_nat a, t)"
        using l lt u(1) e(1-6) m du by (simp add: bmap_def Let_def)
      then show ?thesis using sa a0 True e(7,8) st u(6) bt steady_trans [OF u(5) st(1)] by (auto simp: file_op_def)
    qed
  qed
qed

end
