(* ===== verification/FsFile.thy ===== *)
theory FsFile
  imports FsMap
begin

text \<open>
  The contents of files: \<^verbatim>\<open>readi\<close> and \<^verbatim>\<open>writei\<close> are reading and writing of an array of bytes, as long as
  the transaction has room in the log and there are free blocks.
\<close>

section \<open>Reading\<close>

lemma unat_mod_512: "unat (off mod 512 :: uint) = unat off mod 512" "unat (off div 512 :: uint) = unat off div 512"
  by (simp_all add: unat_mod unat_div)

text \<open>The part of a transfer that one round does.\<close>

lemma chunk_facts:
  assumes "0 < r" "unat off + unat r \<le> 140 * BSIZE"
  defines "m \<equiv> unat (chunk off r)"
  shows "0 < m" "m \<le> unat r" "unat off mod BSIZE + m \<le> BSIZE" "unat (off + chunk off r) = unat off + m" "unat (r - chunk off r) = unat r - m"
    "m < unat r \<Longrightarrow> (unat off + m) mod BSIZE = 0" "off div 512 < 140"
proof -
  have "off mod 512 \<le> 512" by (simp add: word_le_nat_alt unat_mod_512 mod_le_divisor)
  then have w: "unat (512 - off mod 512) = 512 - unat off mod 512" using unat_sub [of "off mod 512" 512] by (simp add: unat_mod_512)
  have m: "m = min (unat r) (512 - unat off mod 512)"
    unfolding m_def chunk_def by (simp add: min_def word_le_nat_alt w)
  have r: "0 < unat r" using assms(1) by (simp add: word_less_nat_alt)
  have md: "unat off mod 512 < 512" by simp
  show m1: "0 < m" "m \<le> unat r" "unat off mod BSIZE + m \<le> BSIZE" unfolding m using r md by auto
  have le: "chunk off r \<le> r" by (simp add: chunk_def)
  then show "unat (r - chunk off r) = unat r - m" unfolding m_def by (rule unat_sub)
  have "unat off + m < 2 ^ 32" using m1(2) assms(2) by simp
  then show "unat (off + chunk off r) = unat off + m" unfolding m_def by (simp add: unat_word_ariths)
  show "(unat off + m) mod BSIZE = 0" if "m < unat r"
  proof -
    have "m = 512 - unat off mod 512" using that unfolding m by auto
    then have "unat off + m = 512 * (unat off div 512) + 512" using md mult_div_mod_eq [of 512 "unat off"] by linarith
    then show ?thesis by simp
  qed
  have "unat off div 512 < 140" using r assms(2) by (simp add: div_less_iff_less_mult)
  then show "off div 512 < 140" by (simp add: word_less_nat_alt unat_mod_512)
qed

lemma in_block:
  assumes "(o1 :: nat) mod 512 + m \<le> 512" "i < m"
  shows "(o1 + i) div 512 = o1 div 512" "(o1 + i) mod 512 = o1 mod 512 + i"
proof -
  have e: "o1 + i = (o1 mod 512 + i) + 512 * (o1 div 512)" using mult_div_mod_eq [of 512 o1] by linarith
  have l: "o1 mod 512 + i < 512" using assms by simp
  show "(o1 + i) div 512 = o1 div 512" "(o1 + i) mod 512 = o1 mod 512 + i"
    unfolding e div_mult_self2 [OF zero_neq_numeral [symmetric]] mod_mult_self2 using l by simp_all
qed

lemma readi_loop_run:
  fixes s :: "'z fsst_scheme"
  assumes "cache_op me {} s" "bitmap_ok {} s" "file_ok s ip" "unat off + unat r \<le> 140 * BSIZE" "unat r \<le> n"
    and "\<And>i. unat off \<le> i \<Longrightarrow> i < unat off + unat r \<Longrightarrow> slot s ip (i div BSIZE) \<noteq> 0"
  shows "\<exists>t. readi_loop n me ip off r s = Ok (map (fdata s ip) [unat off..<unat off + unat r], t) \<and> untouched {} s t \<and>
     content t = content s \<and> pinned t = pinned s \<and> cache_op me {} t"
  using assms
proof (induction n arbitrary: off r s)
  case 0
  then have "r = 0" by (simp add: unat_eq_zero)
  then show ?case using 0 by simp
next
  case (Suc n)
  show ?case
  proof (cases "r = 0")
    case True
    then show ?thesis using Suc.prems by simp
  next
    case False
    then have r0: "0 < r" by (simp add: word_neq_0_conv)
    define m where "m = unat (chunk off r)"
    note ch = chunk_facts [OF r0 Suc.prems(4), folded m_def]
    let ?k = "unat off div 512"
    have ps: "slot s ip (unat (off div 512)) \<noteq> 0" using Suc.prems(6) [of "unat off"] ch(1,2) by (simp add: unat_mod_512)
    obtain u where u: "bmap me ip (off div 512) s = Ok (slot s ip ?k, u)" "untouched {} s u" "content u = content s" "pinned u = pinned s" "cache_op me {} u"
      using bmap_hit [OF Suc.prems(1-3) ch(7) ps] by (auto simp: unat_mod_512)
    note cu = untouched_file [OF u(2,3)]
    have du: "i_dev (x_inode u ip) = 1" using Suc.prems(3) untouched_fs [OF u(2)] by (simp add: file_ok_def)
    have dk: "data_blk s (slot s ip ?k)"
      using file_okD(2) [OF Suc.prems(3), of ?k] ps ch(7) by (simp add: unat_mod_512 word_less_nat_alt)
    obtain b v w where v: "bread me 1 (slot s ip ?k) u = Ok (b, v)" "b_data (f_buf v b) = content s (slot s ip ?k)" "brelse me b v = Ok w"
        "cache_op me {} w" "content w = content s" "pinned w = pinned s" "untouched {} u w"
      using read_only [OF u(5) data_blk_ok(1) [OF Suc.prems(2) dk]] u(3,4) by auto
    have cw: "untouched {} s w" using u(2) v(7) by (rule untouched_trans)
    note fw = untouched_file [OF cw v(5)]
    have bs: "blk_get (content s (slot s ip ?k)) (unat (off mod 512)) m = map (fdata s ip) [unat off..<unat off + m]"
    proof (rule nth_equalityI)
      fix i assume "i < length (blk_get (content s (slot s ip ?k)) (unat (off mod 512)) m)"
      then have i: "i < m" by (simp add: blk_get_def)
      note ib = in_block [OF ch(3) i]
      show "blk_get (content s (slot s ip ?k)) (unat (off mod 512)) m ! i = map (fdata s ip) [unat off..<unat off + m] ! i"
        using i ib ps by (simp add: blk_get_def fdata_def Let_def unat_mod_512)
    qed (simp add: blk_get_def)
    have pr: "unat (off + chunk off r) + unat (r - chunk off r) = unat off + unat r" using ch by simp
    have "\<exists>t. readi_loop n me ip (off + chunk off r) (r - chunk off r) w =
        Ok (map (fdata w ip) [unat (off + chunk off r)..<unat (off + chunk off r) + unat (r - chunk off r)], t) \<and> untouched {} w t \<and>
        content t = content w \<and> pinned t = pinned w \<and> cache_op me {} t"
    proof (rule Suc.IH)
      show "cache_op me {} w" by (rule v(4))
      show "bitmap_ok {} w" "file_ok w ip" using Suc.prems(2,3) fw by simp_all
      show "unat (off + chunk off r) + unat (r - chunk off r) \<le> 140 * BSIZE" using Suc.prems(4) pr by simp
      show "unat (r - chunk off r) \<le> n" using ch(1,5) Suc.prems(5) by simp
      show "slot w ip (i div BSIZE) \<noteq> 0" if "unat (off + chunk off r) \<le> i" "i < unat (off + chunk off r) + unat (r - chunk off r)" for i
        using Suc.prems(6) [of i] that pr ch(4) fw(1) by simp
    qed
    from this [unfolded pr, unfolded ch(4) fw(3) v(5,6)]
    obtain t where t: "readi_loop n me ip (off + chunk off r) (r - chunk off r) w = Ok (map (fdata s ip) [unat off + m..<unat off + unat r], t)"
        "untouched {} w t" "content t = content s" "pinned t = pinned s" "cache_op me {} t"
      by blast
    have "[unat off..<unat off + unat r] = [unat off..<unat off + m] @ [unat off + m..<unat off + unat r]"
      using upt_add_eq_append [of "unat off" "unat off + m" "unat r - m"] ch(2) by simp
    then have "readi_loop (Suc n) me ip off r s = Ok (map (fdata s ip) [unat off..<unat off + unat r], t)"
      using False u(1) v(1-3) t(1) bs du by (simp add: Let_def m_def)
    then show ?thesis using t untouched_trans [OF cw t(2)] by blast
  qed
qed

section \<open>Writing\<close>

text \<open>What writing to file \<open>ip\<close> leaves alone: every block in use that is neither the bitmap nor one of the file's.\<close>

definition wrote :: "nat \<Rightarrow> 'z fsst_scheme \<Rightarrow> 'z fsst_scheme \<Rightarrow> bool" where
  "wrote ip s t \<longleftrightarrow> ctl t = ctl s \<and>
     (\<exists>f. x_inode t = (x_inode s)(ip := (x_inode s ip)\<lparr>d_addrs := f\<rparr>)) \<and>
     (\<forall>c. free_blk t c \<longrightarrow> free_blk s c) \<and>
     (\<forall>k \<le> 140. if slot s ip k = 0 then slot t ip k = 0 \<or> free_blk s (unat (slot t ip k)) else slot t ip k = slot s ip k) \<and>
     (\<forall>n. n \<noteq> bmapb s \<longrightarrow> \<not> free_blk s (unat n) \<longrightarrow> (\<forall>k \<le> 140. n \<noteq> slot s ip k) \<longrightarrow> content t n = content s n)"

lemma wrote_refl [simp]: "wrote ip s s"
  by (auto simp: wrote_def intro: exI [of _ "addrs s ip"])

lemma wrote_slot:
  assumes "wrote ip s t" "k \<le> 140"
  shows "slot s ip k \<noteq> 0 \<Longrightarrow> slot t ip k = slot s ip k"
    "slot s ip k = 0 \<Longrightarrow> slot t ip k = 0 \<or> free_blk s (unat (slot t ip k))"
  using assms by (auto simp: wrote_def split: if_splits)

lemma wrote_content:
  assumes "wrote ip s t" "n \<noteq> bmapb s" "\<not> free_blk s (unat n)" "\<And>k. k \<le> 140 \<Longrightarrow> n \<noteq> slot s ip k"
  shows "content t n = content s n"
  using assms by (simp add: wrote_def)

lemma steady_wrote:
  assumes "steady ip s t"
  shows "wrote ip s t"
  unfolding wrote_def
proof (intro conjI)
  show "\<forall>n. n \<noteq> bmapb s \<longrightarrow> \<not> free_blk s (unat n) \<longrightarrow> (\<forall>k \<le> 140. n \<noteq> slot s ip k) \<longrightarrow> content t n = content s n"
    using steady_content [OF assms] by auto
qed (use assms in \<open>auto simp: steady_def\<close>)

lemma wrote_trans:
  assumes "wrote ip s t" "wrote ip t u"
  shows "wrote ip s u"
proof -
  have sb: "x_sb t = x_sb s" "x_sb u = x_sb t" "\<And>c. free_blk t c \<Longrightarrow> free_blk s c" using assms by (auto simp: wrote_def)
  have "content u n = content s n" if n: "n \<noteq> bmapb s" "\<not> free_blk s (unat n)" "\<forall>k \<le> 140. n \<noteq> slot s ip k" for n
  proof -
    have "n \<noteq> slot t ip k" if "k \<le> 140" for k
      using n that wrote_slot [OF assms(1) that] by (cases "slot s ip k = 0") auto
    then have "content u n = content t n" using wrote_content [OF assms(2), of n] n sb by auto
    then show ?thesis using wrote_content [OF assms(1)] n by simp
  qed
  moreover have "if slot s ip k = 0 then slot u ip k = 0 \<or> free_blk s (unat (slot u ip k)) else slot u ip k = slot s ip k" if "k \<le> 140" for k
    using wrote_slot [OF assms(1) that] wrote_slot [OF assms(2) that] sb(3) by (cases "slot t ip k = 0") auto
  moreover obtain f g where "x_inode t = (x_inode s)(ip := (x_inode s ip)\<lparr>d_addrs := f\<rparr>)" "x_inode u = (x_inode t)(ip := (x_inode t ip)\<lparr>d_addrs := g\<rparr>)"
    using assms by (auto simp: wrote_def)
  then have "x_inode u = (x_inode s)(ip := (x_inode s ip)\<lparr>d_addrs := g\<rparr>)" by simp
  ultimately show ?thesis using assms unfolding wrote_def by auto
qed

text \<open>A data block of the file is replaced.\<close>

lemma data_write:
  fixes s :: "'z fsst_scheme"
  assumes F: "file_ok s ip" and k: "k < 140" "slot s ip k \<noteq> 0" and t: "untouched {} s t" "content t = (content s)(slot s ip k := v)"
  shows "j \<le> 140 \<Longrightarrow> slot t ip j = slot s ip j" "free_blk t = free_blk s" "file_ok t ip" "bitmap_ok {} t = bitmap_ok {} s"
    "i < 140 * BSIZE \<Longrightarrow> fdata t ip i = (if i div BSIZE = k then v (i mod BSIZE) else fdata s ip i)" "wrote ip s t"
proof -
  note f = untouched_fs [OF t(1)] and d = untouchedD [OF t(1)]
  let ?n = "slot s ip k"
  have dk: "data_blk s ?n" using file_okD(2) [OF F, of k] k by simp
  have "slot s ip 140 = addrs s ip 12" by (simp add: slot_def)
  then have ni: "?n \<noteq> addrs s ip 12" using file_okD(3) [OF F, of k 140] k by auto
  show sl: "slot t ip j = slot s ip j" if "j \<le> 140" for j using t(2) ni by (auto simp: slot_def f)
  show fr: "free_blk t = free_blk s" using t(2) data_blk_ne [OF dk] by (intro ext) (auto simp: free_blk_def f)
  show "file_ok t ip" using F sl by (auto simp: file_ok_def data_blk_def fr f)
  show "bitmap_ok {} t = bitmap_ok {} s" by (simp add: bitmap_ok_def layout_def fr f d)
  show "fdata t ip i = (if i div BSIZE = k then v (i mod BSIZE) else fdata s ip i)" if "i < 140 * BSIZE"
  proof -
    define j where "j = i div BSIZE"
    have q: "j < 140" using that by (simp add: j_def)
    have ne: "slot s ip j \<noteq> ?n" if "j \<noteq> k" using file_okD(3) [OF F, of k j] k q that less_imp_le by metis
    have fd: "fdata t ip i = (if slot s ip j = 0 then 0 else content t (slot s ip j) (i mod BSIZE))"
      using sl [of j] q by (simp add: fdata_def Let_def j_def)
    show ?thesis
    proof (cases "j = k")
      case True
      then show ?thesis using fd k(2) t(2) by (simp add: j_def)
    next
      case False
      then show ?thesis using fd t(2) ne by (simp add: fdata_def Let_def j_def [symmetric])
    qed
  qed
  have "ctl t = ctl s" by (rule untouched_ctl [OF t(1)])
  moreover have "\<exists>g. x_inode t = (x_inode s)(ip := (x_inode s ip)\<lparr>d_addrs := g\<rparr>)" unfolding f by (rule exI [of _ "addrs s ip"]) simp
  ultimately show "wrote ip s t" using t(2) k(1) by (auto simp: wrote_def f sl fr)
qed

text \<open>The number of blocks that a transfer of \<open>r\<close> bytes at offset \<open>o1\<close> touches.\<close>

definition nblocks :: "nat \<Rightarrow> nat \<Rightarrow> nat" where
  "nblocks o1 r = (if r = 0 then 0 else (o1 + r - 1) div BSIZE - o1 div BSIZE + 1)"

lemma nblocks_step:
  assumes "0 < m" "m \<le> r" "o1 mod 512 + m \<le> 512" "m < r \<Longrightarrow> (o1 + m) mod 512 = 0"
  shows "nblocks o1 r = Suc (nblocks (o1 + m) (r - m))"
proof (cases "m = r")
  case True
  have "o1 + r - 1 = o1 + (r - 1)" using True assms(1) by simp
  then have "(o1 + r - 1) div 512 = o1 div 512" using in_block(1) [OF assms(3), of "r - 1"] True assms(1) by simp
  then show ?thesis using True assms(1) by (simp add: nblocks_def)
next
  case False
  then have m: "m < r" "(o1 + m) mod 512 = 0" using assms by simp_all
  have "o1 + m - 1 = o1 + (m - 1)" using assms(1) by simp
  then have "(o1 + m - 1) div 512 = o1 div 512" using in_block(1) [OF assms(3), of "m - 1"] assms(1) by simp
  moreover have "(o1 + m) div 512 = Suc ((o1 + m - 1) div 512)"
  proof -
    have "o1 + m = 512 * ((o1 + m) div 512)" using m(2) mult_div_mod_eq [of 512 "o1 + m"] by linarith
    then show ?thesis using assms(1) by linarith
  qed
  ultimately have d: "(o1 + m) div 512 = Suc (o1 div 512)" by simp
  have "(o1 + m) div 512 \<le> (o1 + r - 1) div 512" by (rule div_le_mono) (use m in simp)
  then show ?thesis using m(1) assms(1) d by (simp add: nblocks_def Suc_diff_Suc Suc_le_eq)
qed

text \<open>One round of the loop: the block is found or allocated, and part of it replaced.\<close>

lemma write_block:
  fixes s :: "'z fsst_scheme"
  assumes P: "file_op me s ip" and k: "bn < 140" and b: "budget N M (Suc q) {} s ip"
  shows "\<exists>n u bp w. bmap me ip bn s = Ok (n, u) \<and> i_dev (x_inode u ip) = 1 \<and> bread me 1 n u = Ok (bp, w) \<and>
     (\<forall>g. \<exists>x t. log_write bp (set_data bp (g (b_data (f_buf w bp))) w) = Ok x \<and> brelse me bp x = Ok t \<and> file_op me t ip \<and> budget N M q {} t ip \<and>
        wrote ip s t \<and> (slot s ip (unat bn) \<noteq> 0 \<longrightarrow> x_inode t = x_inode s) \<and> slot t ip (unat bn) \<noteq> 0 \<and>
        (\<exists>v. (\<forall>i < BSIZE. v i = fdata s ip (BSIZE * unat bn + i)) \<and>
          (\<forall>i < 140 * BSIZE. fdata t ip i = (if i div BSIZE = unat bn then g v (i mod BSIZE) else fdata s ip i))))"
proof -
  have kn: "unat bn < 140" using k by (simp add: word_less_nat_alt)
  obtain u where u: "bmap me ip bn s = Ok (slot u ip (unat bn), u)" "slot u ip (unat bn) \<noteq> 0" "file_op me u ip"
      "budget N M q {slot u ip (unat bn)} u ip" "steady ip s u" "\<forall>i < 140 * BSIZE. fdata u ip i = fdata s ip i"
      "slot s ip (unat bn) \<noteq> 0 \<longrightarrow> x_inode u = x_inode s"
    using bmap_run [OF P k b] by blast
  let ?n = "slot u ip (unat bn)"
  have uu: "in_op me {} u" "bitmap_ok {} u" "file_ok u ip" using u(3) by (simp_all add: file_op_def)
  have dn: "data_blk u ?n" using file_okD(2) [OF uu(3), of "unat bn"] kn u(2) by simp
  have av: "avail {} u ?n" using data_blk_ok [OF uu(2) dn] by (simp add: avail_def)
  have "card (insert ?n (pinned u)) \<le> card (pinned u \<union> meta u ip \<union> {?n})" by (rule card_mono) auto
  then have c: "int (card (insert ?n (pinned u))) < cap u" using u(4) by (simp add: budget_def)
  obtain bp w where w: "bread me 1 ?n u = Ok (bp, w)" "b_data (f_buf w bp) = content u ?n"
    and wk: "\<And>v. \<exists>x t. log_write bp (set_data bp v w) = Ok x \<and> brelse me bp x = Ok t \<and> in_op me {} t \<and> untouched {} u x \<and> untouched {} u t \<and>
        content t = (content u)(?n := v) \<and> pinned t = insert ?n (pinned u)"
    using write_run [OF uu(1) av c] by blast
  have old: "content u ?n i = fdata s ip (BSIZE * unat bn + i)" if "i < BSIZE" for i
  proof -
    have "fdata u ip (BSIZE * unat bn + i) = fdata s ip (BSIZE * unat bn + i)" using u(6) kn that by simp
    then show ?thesis using that u(2) by (simp add: fdata_def Let_def)
  qed
  have "\<exists>x t. log_write bp (set_data bp (g (b_data (f_buf w bp))) w) = Ok x \<and> brelse me bp x = Ok t \<and> file_op me t ip \<and> budget N M q {} t ip \<and>
        wrote ip s t \<and> (slot s ip (unat bn) \<noteq> 0 \<longrightarrow> x_inode t = x_inode s) \<and> slot t ip (unat bn) \<noteq> 0 \<and>
        (\<exists>v. (\<forall>i < BSIZE. v i = fdata s ip (BSIZE * unat bn + i)) \<and>
          (\<forall>i < 140 * BSIZE. fdata t ip i = (if i div BSIZE = unat bn then g v (i mod BSIZE) else fdata s ip i)))" for g
  proof -
    obtain x t where t: "log_write bp (set_data bp (g (content u ?n)) w) = Ok x" "brelse me bp x = Ok t" "in_op me {} t" "untouched {} u t"
        "content t = (content u)(?n := g (content u ?n))" "pinned t = insert ?n (pinned u)"
      using wk by blast
    note dw = data_write [OF uu(3) kn u(2) t(4,5)]
    note ft = untouched_fs [OF t(4)]
    have m: "meta t ip = meta u ip" "fresh t ip = fresh u ip" using dw(1) [of 140] by (simp_all add: meta_def fresh_def ft)
    have p: "pinned t \<union> meta t ip \<union> {} = pinned u \<union> meta u ip \<union> {?n}" using t(6) m by auto
    have bt: "budget N M q {} t ip" using u(4) unfolding budget_def p by (simp add: m dw(2) untouchedD(1) [OF t(4)])
    have "wrote ip s t" using steady_wrote [OF u(5)] dw(6) by (rule wrote_trans)
    moreover have "slot t ip (unat bn) \<noteq> 0" using dw(1) [of "unat bn"] kn u(2) by simp
    moreover have "file_op me t ip" using t(3) dw(3,4) uu(2) by (simp add: file_op_def)
    moreover have "\<forall>i < 140 * BSIZE. fdata t ip i = (if i div BSIZE = unat bn then g (content u ?n) (i mod BSIZE) else fdata s ip i)"
      using dw(5) u(6) by simp
    ultimately show ?thesis using t(1,2) w(2) bt old u(7) ft(2)
      by (intro exI [of _ x] exI [of _ t] conjI exI [of _ "content u ?n"]) simp_all
  qed
  then show ?thesis using u(1) w(1) uu(3) by (intro exI [of _ ?n] exI [of _ u] exI [of _ bp] exI [of _ w]) (simp add: file_ok_def)
qed

lemma writei_loop_run:
  fixes s :: "'z fsst_scheme"
  assumes "file_op me s ip" "unat off + unat r \<le> 140 * BSIZE" "unat r \<le> n" "unat r \<le> length src"
    and "budget N M (nblocks (unat off) (unat r) + q) {} s ip"
  shows "\<exists>t. writei_loop n me ip src off r s = Ok (off + r, t) \<and> file_op me t ip \<and> budget N M q {} t ip \<and> wrote ip s t \<and>
     (\<forall>i < 140 * BSIZE. fdata t ip i = (if unat off \<le> i \<and> i < unat off + unat r then src ! (i - unat off) else fdata s ip i)) \<and>
     (\<forall>i. unat off \<le> i \<longrightarrow> i < unat off + unat r \<longrightarrow> slot t ip (i div BSIZE) \<noteq> 0) \<and>
     ((\<forall>i. unat off \<le> i \<longrightarrow> i < unat off + unat r \<longrightarrow> slot s ip (i div BSIZE) \<noteq> 0) \<longrightarrow> x_inode t = x_inode s)"
  using assms
proof (induction n arbitrary: off r src s)
  case 0
  then have "r = 0" by (simp add: unat_eq_zero)
  then show ?case using 0 by (intro exI [of _ s]) (auto simp: nblocks_def)
next
  case (Suc n)
  show ?case
  proof (cases "r = 0")
    case True
    then show ?thesis using Suc.prems by (intro exI [of _ s]) (auto simp: nblocks_def)
  next
    case False
    then have r0: "0 < r" by (simp add: word_neq_0_conv)
    define m where "m = unat (chunk off r)"
    note ch = chunk_facts [OF r0 Suc.prems(2), folded m_def]
    let ?o = "unat off" and ?k = "unat off div 512" and ?off = "off + chunk off r" and ?r = "r - chunk off r"
    have k140: "?k < 140" using ch(7) by (simp add: word_less_nat_alt unat_mod_512)
    have pr: "unat ?off + unat ?r = ?o + unat r" using ch by simp
    have nb: "nblocks ?o (unat r) = Suc (nblocks (unat ?off) (unat ?r))" unfolding ch(4,5) using nblocks_step [OF ch(1-3)] ch(6) by blast
    then have bu: "budget N M (Suc (nblocks (unat ?off) (unat ?r) + q)) {} s ip" using Suc.prems(5) by simp
    define g where "g = blk_put (unat (off mod 512)) (take m src)"
    obtain a u bp w x t where t: "bmap me ip (off div 512) s = Ok (a, u)" "i_dev (x_inode u ip) = 1" "bread me 1 a u = Ok (bp, w)"
        "log_write bp (set_data bp (g (b_data (f_buf w bp))) w) = Ok x" "brelse me bp x = Ok t" "file_op me t ip"
        "budget N M (nblocks (unat ?off) (unat ?r) + q) {} t ip" "wrote ip s t" "slot s ip ?k \<noteq> 0 \<longrightarrow> x_inode t = x_inode s" "slot t ip ?k \<noteq> 0"
      and f: "\<exists>v. (\<forall>i < BSIZE. v i = fdata s ip (BSIZE * ?k + i)) \<and>
          (\<forall>i < 140 * BSIZE. fdata t ip i = (if i div BSIZE = ?k then g v (i mod BSIZE) else fdata s ip i))"
      using write_block [OF Suc.prems(1) ch(7) bu] unfolding unat_mod_512 by blast
    have ml: "length (take m src) = m" using ch(2) Suc.prems(4) by simp
    have fd: "fdata t ip i = (if ?o \<le> i \<and> i < ?o + m then src ! (i - ?o) else fdata s ip i)" if "i < 140 * BSIZE" for i
    proof (cases "i div 512 = ?k")
      case True
      have i: "i = 512 * ?k + i mod 512" "?o = 512 * ?k + ?o mod 512" using True mult_div_mod_eq [of 512 i] by simp_all
      have e: "i - ?o = i mod 512 - ?o mod 512" "(?o \<le> i) = (?o mod 512 \<le> i mod 512)" "(i < ?o + m) = (i mod 512 < ?o mod 512 + m)"
        using i by linarith+
      obtain v where v: "\<forall>i < BSIZE. v i = fdata s ip (BSIZE * ?k + i)"
          "\<forall>i < 140 * BSIZE. fdata t ip i = (if i div BSIZE = ?k then g v (i mod BSIZE) else fdata s ip i)"
        using f by blast
      have gi: "fdata t ip i = g v (i mod 512)" using v(2) [rule_format, OF that] True by simp
      have tk: "take m src ! (i mod 512 - ?o mod 512) = src ! (i mod 512 - ?o mod 512)" if "?o mod 512 \<le> i mod 512" "i mod 512 < ?o mod 512 + m"
        by (rule nth_take) (use that in linarith)
      have "v (i mod 512) = fdata s ip i" using v(1) i(1) by (metis mod_less_divisor zero_less_numeral)
      then show ?thesis unfolding gi g_def blk_put_def ml unat_mod_512 e using tk by auto
    next
      case False
      then have "\<not> (?o \<le> i \<and> i < ?o + m)" using in_block(1) [OF ch(3), of "i - ?o"] by (metis add_diff_inverse_nat diff_add_inverse less_diff_conv2 nat_add_left_cancel_less not_le)
      moreover have "fdata t ip i = fdata s ip i" using f [rule_format] that False by (metis (no_types, lifting))
      ultimately show ?thesis by auto
    qed
    have "\<exists>z. writei_loop n me ip (drop m src) ?off ?r t = Ok (?off + ?r, z) \<and> file_op me z ip \<and> budget N M q {} z ip \<and> wrote ip t z \<and>
       (\<forall>i < 140 * BSIZE. fdata z ip i = (if unat ?off \<le> i \<and> i < unat ?off + unat ?r then drop m src ! (i - unat ?off) else fdata t ip i)) \<and>
       (\<forall>i. unat ?off \<le> i \<longrightarrow> i < unat ?off + unat ?r \<longrightarrow> slot z ip (i div BSIZE) \<noteq> 0) \<and>
       ((\<forall>i. unat ?off \<le> i \<longrightarrow> i < unat ?off + unat ?r \<longrightarrow> slot t ip (i div BSIZE) \<noteq> 0) \<longrightarrow> x_inode z = x_inode t)"
    proof (rule Suc.IH)
      show "unat ?off + unat ?r \<le> 140 * BSIZE" using Suc.prems(2) pr by simp
      show "unat ?r \<le> n" "unat ?r \<le> length (drop m src)" using ch(1,2,5) Suc.prems(3,4) by simp_all
    qed (use t in simp_all)
    from this [unfolded pr, unfolded ch(4)] obtain z where z: "writei_loop n me ip (drop m src) ?off ?r t = Ok (?off + ?r, z)" "file_op me z ip" "budget N M q {} z ip" "wrote ip t z"
       "\<forall>i < 140 * BSIZE. fdata z ip i = (if ?o + m \<le> i \<and> i < ?o + unat r then drop m src ! (i - (?o + m)) else fdata t ip i)"
       "\<forall>i. ?o + m \<le> i \<longrightarrow> i < ?o + unat r \<longrightarrow> slot z ip (i div BSIZE) \<noteq> 0"
       "(\<forall>i. ?o + m \<le> i \<longrightarrow> i < ?o + unat r \<longrightarrow> slot t ip (i div BSIZE) \<noteq> 0) \<longrightarrow> x_inode z = x_inode t"
      by blast
    have run: "writei_loop (Suc n) me ip src off r s = Ok (off + r, z)"
      using False t(1-5) z(1) by (simp add: Let_def m_def g_def)
    have fz: "fdata z ip i = (if ?o \<le> i \<and> i < ?o + unat r then src ! (i - ?o) else fdata s ip i)" if "i < 140 * BSIZE" for i
    proof -
      have "drop m src ! (i - (?o + m)) = src ! (i - ?o)" if "?o + m \<le> i" "i < ?o + unat r"
        using that Suc.prems(4) ch(2) by simp
      then show ?thesis using z(5) fd [OF that] that ch(2) by auto
    qed
    have sz: "slot z ip (i div BSIZE) \<noteq> 0" if "?o \<le> i" "i < ?o + unat r" for i
    proof (cases "i < ?o + m")
      case True
      then have "i div 512 = ?k" using in_block(1) [OF ch(3), of "i - ?o"] that(1) by simp
      then show ?thesis using wrote_slot(1) [OF z(4), of ?k] t(10) k140 by simp
    next
      case False
      then show ?thesis using z(6) that by simp
    qed
    have xz: "x_inode z = x_inode s" if h: "\<forall>i. ?o \<le> i \<longrightarrow> i < ?o + unat r \<longrightarrow> slot s ip (i div BSIZE) \<noteq> 0"
    proof -
      have "slot s ip ?k \<noteq> 0" using h ch(1,2) by auto
      then have "x_inode t = x_inode s" using t(9) by simp
      moreover have "slot t ip (i div BSIZE) \<noteq> 0" if "?o + m \<le> i" "i < ?o + unat r" for i
      proof -
        have "i div BSIZE \<le> 140" using that Suc.prems(2) by simp
        then show ?thesis using wrote_slot(1) [OF t(8), of "i div BSIZE"] h that by simp
      qed
      ultimately show ?thesis using z(7) by simp
    qed
    have "wrote ip s z" using t(8) z(4) by (rule wrote_trans)
    then show ?thesis using run z(2,3) fz sz xz by blast
  qed
qed

section \<open>Inodes on disk\<close>

definition dinode_of :: "'y dinode_scheme \<Rightarrow> dinode" where
  "dinode_of x = \<lparr>d_type = d_type x, d_major = d_major x, d_minor = d_minor x, d_nlink = d_nlink x, d_size = d_size x,
     d_addrs = (\<lambda>i. if i \<le> NDIRECT then d_addrs x i else 0)\<rparr>"

lemma put_addrs_get:
  "distinct is \<Longrightarrow> get32 (put_addrs is o1 f v) (o1 + 4 * i) = (if i \<in> set is then f i else get32 v (o1 + 4 * i))"
proof (induction "is" arbitrary: v)
  case (Cons j js)
  have "get32 (put32 (o1 + 4 * j) (f j) v) (o1 + 4 * i) = (if i = j then f j else get32 v (o1 + 4 * i))"
  proof (cases "i = j")
    case False
    then have "o1 + 4 * i + 4 \<le> o1 + 4 * j \<or> o1 + 4 * j + 4 \<le> o1 + 4 * i" by linarith
    then show ?thesis using False by simp
  qed simp
  then show ?case using Cons by auto
qed simp

lemma put_addrs_other: "m < o1 \<or> (\<forall>i \<in> set is. o1 + 4 * i + 4 \<le> m) \<Longrightarrow> put_addrs is o1 f v m = v m"
  by (induction "is" arbitrary: v) auto

lemma get_put_dinode: "get_dinode (put_dinode o1 d v) o1 = dinode_of d"
proof -
  let ?h = "put32 (o1 + 8) (d_size d) (put16 (o1 + 6) (d_nlink d) (put16 (o1 + 4) (d_minor d) (put16 (o1 + 2) (d_major d) (put16 o1 (d_type d) v))))"
  let ?w = "put_addrs [0..<Suc NDIRECT] (o1 + 12) (d_addrs d) ?h"
  have p: "put_dinode o1 d v = ?w" by (simp only: put_dinode_def Let_def)
  have lo: "?w m = ?h m" if "m < o1 + 12" for m by (rule put_addrs_other) (use that in simp)
  have g: "get16 ?w m = get16 ?h m" if "m + 1 < o1 + 12" for m by (rule get16_cong) (use that lo in simp_all)
  have g32: "get32 ?w m = get32 ?h m" if "m + 3 < o1 + 12" for m by (rule get32_cong) (rule lo, use that in simp)
  have a: "get32 ?w (o1 + 12 + 4 * i) = d_addrs d i" if "i \<le> 12" for i
    using put_addrs_get [of "[0..<Suc NDIRECT]" "o1 + 12" "d_addrs d" ?h i] that by (simp del: upt_Suc)
  show ?thesis unfolding p get_dinode_def dinode_of_def
    using g [of o1] g [of "o1 + 2"] g [of "o1 + 4"] g [of "o1 + 6"] g32 [of "o1 + 8"] a
    by (simp del: upt_Suc add: fun_eq_iff)
qed

lemma put_dinode_other: "m < o1 \<or> o1 + 64 \<le> m \<Longrightarrow> put_dinode o1 d v m = v m"
proof -
  assume m: "m < o1 \<or> o1 + 64 \<le> m"
  let ?h = "put32 (o1 + 8) (d_size d) (put16 (o1 + 6) (d_nlink d) (put16 (o1 + 4) (d_minor d) (put16 (o1 + 2) (d_major d) (put16 o1 (d_type d) v))))"
  have "put_addrs [0..<Suc NDIRECT] (o1 + 12) (d_addrs d) ?h m = ?h m" by (rule put_addrs_other) (use m in auto)
  then show ?thesis using m by (simp only: put_dinode_def Let_def) auto
qed

lemma get_dinode_cong:
  assumes "\<And>j. j < 64 \<Longrightarrow> v (o1 + j) = w (o1 + j)"
  shows "get_dinode v o1 = get_dinode w o1"
proof -
  have h: "get16 v (o1 + j) = get16 w (o1 + j)" if "j < 63" for j
    using assms [of j] assms [of "j + 1"] that by (intro get16_cong) (simp_all add: add.assoc)
  have a: "get32 v (o1 + j) = get32 w (o1 + j)" if "j < 61" for j
    using assms that by (intro get32_cong) (simp add: add.assoc)
  have "get32 v (o1 + 12 + 4 * i) = get32 w (o1 + 12 + 4 * i)" if "i \<le> 12" for i
    using a [of "12 + 4 * i"] that by (simp add: add.assoc)
  then show ?thesis using h [of 0] h [of 2] h [of 4] h [of 6] a [of 8] by (simp add: get_dinode_def fun_eq_iff)
qed

definition synced :: "'z fsst_scheme \<Rightarrow> nat \<Rightarrow> bool" where
  "synced s ip \<longleftrightarrow> get_dinode (content s (ib s ip)) (dinode_at (i_inum (x_inode s ip))) = dinode_of (x_inode s ip)"

lemma ib_avail:
  fixes s :: "'z fsst_scheme"
  assumes "bitmap_ok {} s" "unat (i_inum (x_inode s ip)) < unat (sb_ninodes (x_sb s))"
  shows "avail {} s (ib s ip)" "ib s ip \<noteq> bmapb s" "unat (ib s ip) < unat (bmapb s)" "ib s ip \<noteq> 0"
proof -
  let ?i = "i_inum (x_inode s ip)"
  have l: "unat (g_start s) + 30 \<le> unat (sb_inodestart (x_sb s))" "unat (sb_inodestart (x_sb s)) + unat (sb_ninodes (x_sb s)) div 8 < unat (bmapb s)"
      "unat (bmapb s) < 1000" "1 < unat (g_start s)"
    using assms(1) by (auto simp: bitmap_ok_def layout_def)
  have "unat ?i div 8 \<le> unat (sb_ninodes (x_sb s)) div 8" using assms(2) by (simp add: div_le_mono)
  moreover have d8: "unat (?i div 8) = unat ?i div 8" by (simp add: unat_div)
  ultimately have "unat ?i div 8 + unat (sb_inodestart (x_sb s)) < 1000" using l by simp
  then have u: "unat (ib s ip) = unat ?i div 8 + unat (sb_inodestart (x_sb s))" by (simp add: IBLOCK_def unat_word_ariths(1) d8)
  show lt: "unat (ib s ip) < unat (bmapb s)" using u l \<open>unat ?i div 8 \<le> _\<close> by simp
  then show "ib s ip \<noteq> bmapb s" by auto
  have ge: "unat (g_start s) + 30 \<le> unat (ib s ip)" using u l by simp
  then show "ib s ip \<noteq> 0" by auto
  show "avail {} s (ib s ip)" using lt l ge by (auto simp: avail_def in_log_def word_less_nat_alt)
qed

lemma iupdate_run:
  fixes s :: "'z fsst_scheme"
  assumes O: "in_op me {} s" and B: "bitmap_ok {} s" and i: "i_dev (x_inode s ip) = 1" "unat (i_inum (x_inode s ip)) < unat (sb_ninodes (x_sb s))"
    and c: "int (card (insert (ib s ip) (pinned s))) < cap s"
  shows "\<exists>t. iupdate me ip s = Ok t \<and> in_op me {} t \<and> untouched {} s t \<and> pinned t = insert (ib s ip) (pinned s) \<and>
     content t = (content s)(ib s ip := put_dinode (dinode_at (i_inum (x_inode s ip))) (x_inode s ip) (content s (ib s ip)))"
proof -
  obtain b u where u: "bread me 1 (ib s ip) s = Ok (b, u)" "b_data (f_buf u b) = content s (ib s ip)" "untouched {} s u"
    and k: "\<And>v. \<exists>w t. log_write b (set_data b v u) = Ok w \<and> brelse me b w = Ok t \<and> in_op me {} t \<and> untouched {} s w \<and> untouched {} s t \<and>
        content t = (content s)(ib s ip := v) \<and> pinned t = insert (ib s ip) (pinned s)"
    using write_run [OF O ib_avail(1) [OF B i(2)] c] by blast
  let ?v = "put_dinode (dinode_at (i_inum (x_inode s ip))) (x_inode s ip) (content s (ib s ip))"
  obtain w t where t: "log_write b (set_data b ?v u) = Ok w" "brelse me b w = Ok t" "in_op me {} t" "untouched {} s t"
      "content t = (content s)(ib s ip := ?v)" "pinned t = insert (ib s ip) (pinned s)"
    using k by blast
  then have "iupdate me ip s = Ok t" using u i(1) by (simp add: iupdate_def untouched_fs [OF u(3)])
  then show ?thesis using t by blast
qed

section \<open>The two operations\<close>

text \<open>
  A regular file: its blocks are its own and in use, every byte below its size is in a block that is there, and the
  copy of its inode on disk is up to date.
\<close>

definition regular :: "'z fsst_scheme \<Rightarrow> nat \<Rightarrow> bool" where
  "regular s ip \<longleftrightarrow> bitmap_ok {} s \<and> file_ok s ip \<and> d_type (x_inode s ip) \<noteq> T_DEV \<and>
     unat (i_inum (x_inode s ip)) < unat (sb_ninodes (x_sb s)) \<and> unat (d_size (x_inode s ip)) \<le> 140 * BSIZE \<and>
     (\<forall>i < unat (d_size (x_inode s ip)). slot s ip (i div BSIZE) \<noteq> 0) \<and> synced s ip"

definition fbytes :: "'z fsst_scheme \<Rightarrow> nat \<Rightarrow> uchar list" where
  "fbytes s ip = map (fdata s ip) [0..<unat (d_size (x_inode s ip))]"

lemma sint_small: "unat (w :: uint) < 2 ^ 31 \<Longrightarrow> sint w = int (unat w)"
proof -
  assume "unat w < 2 ^ 31"
  then have "int (unat w) < int (2 ^ 31)" by (simp only: of_nat_less_iff)
  then have u: "uint w < 2 ^ 31" by simp
  have "- (2 ^ 31) \<le> sint w" using sint_ge [of w] by simp
  then have "sint w = uint w" using uint_of_sint [of w] u by (auto split: if_splits)
  then show ?thesis by simp
qed

lemma untouched_regular:
  fixes s :: "'z fsst_scheme"
  assumes "untouched {} s t" "content t = content s"
  shows "regular t ip = regular s ip" "fbytes t ip = fbytes s ip"
  using untouched_file [OF assms] untouched_fs [OF assms(1)] assms(2) by (simp_all add: regular_def synced_def fbytes_def)

lemma readi_run:
  fixes s :: "'z fsst_scheme"
  assumes O: "cache_op me {} s" and R: "regular s ip" and o: "unat off \<le> length (fbytes s ip)" "unat off + unat n < 2 ^ 32"
  shows "\<exists>t. readi devsw me ip off n s = Ok (int (min (unat n) (length (fbytes s ip) - unat off)), take (unat n) (drop (unat off) (fbytes s ip)), t) \<and>
     untouched {} s t \<and> content t = content s \<and> pinned t = pinned s \<and> cache_op me {} t"
proof -
  let ?sz = "d_size (x_inode s ip)"
  have len: "length (fbytes s ip) = unat ?sz" by (simp add: fbytes_def)
  have r: "bitmap_ok {} s" "file_ok s ip" "d_type (x_inode s ip) \<noteq> T_DEV" "unat ?sz \<le> 140 * BSIZE"
      "\<And>i. i < unat ?sz \<Longrightarrow> slot s ip (i div BSIZE) \<noteq> 0" using R by (auto simp: regular_def)
  have ov: "unat (off + n) = unat off + unat n" using o(2) by (simp add: unat_word_ariths(1))
  define n' where "n' = (if off + n > ?sz then ?sz - off else n)"
  have un: "unat n' = min (unat n) (unat ?sz - unat off)"
    using o(1) ov unat_sub [of off ?sz] unfolding n'_def len by (auto simp: word_less_nat_alt word_le_nat_alt)
  have c: "\<not> off > ?sz" "\<not> off + n < off" using o(1) ov by (simp_all add: word_less_nat_alt len)
  have en: "unat off + unat n' \<le> unat ?sz" using un o(1) len by simp
  then have le: "unat off + unat n' \<le> 140 * BSIZE" using r(4) by linarith
  have ps: "slot s ip (i div BSIZE) \<noteq> 0" if "unat off \<le> i" "i < unat off + unat n'" for i using r(5) that en by simp
  obtain t where t: "readi_loop (unat n') me ip off n' s = Ok (map (fdata s ip) [unat off..<unat off + unat n'], t)" "untouched {} s t"
      "content t = content s" "pinned t = pinned s" "cache_op me {} t"
    using readi_loop_run [OF O r(1,2) le order_refl ps] by blast
  have bs: "map (fdata s ip) [unat off..<unat off + unat n'] = take (unat n) (drop (unat off) (fbytes s ip))"
    by (rule nth_equalityI) (auto simp: fbytes_def un)
  have "sint n' = int (unat n')" using en r(4) by (intro sint_small) simp
  then show ?thesis using c r(3) t bs un len by (auto simp: readi_def Let_def n'_def [symmetric])
qed

text \<open>The size of the file grows, and the inode goes to disk.\<close>

lemma grow_run:
  fixes s :: "'z fsst_scheme" and sz :: uint
  assumes P: "file_op me s ip" and i: "unat (i_inum (x_inode s ip)) < unat (sb_ninodes (x_sb s))" and b: "budget N M 0 {} s ip"
  defines "s1 \<equiv> upd_inode ip (\<lambda>x. x\<lparr>d_size := sz\<rparr>) s"
  shows "\<exists>t. iupdate me ip s1 = Ok t \<and> file_op me t ip \<and> budget N M 0 {} t ip \<and> x_inode t = (x_inode s)(ip := (x_inode s ip)\<lparr>d_size := sz\<rparr>) \<and>
     ctl t = ctl s \<and> synced t ip \<and> (\<forall>k. slot t ip k = slot s ip k) \<and> (\<forall>j. fdata t ip j = fdata s ip j \<or> 140 * BSIZE \<le> j) \<and> free_blk t = free_blk s \<and>
     (\<forall>n. n \<noteq> ib s ip \<longrightarrow> content t n = content s n) \<and> (\<forall>m. m < dinode_at (i_inum (x_inode s ip)) \<or> dinode_at (i_inum (x_inode s ip)) + 64 \<le> m \<longrightarrow>
        content t (ib s ip) m = content s (ib s ip) m)"
proof -
  have s: "in_op me {} s" "bitmap_ok {} s" "file_ok s ip" using P by (simp_all add: file_op_def)
  have s1: "in_op me {} s1" "bitmap_ok {} s1" "i_dev (x_inode s1 ip) = 1" "unat (i_inum (x_inode s1 ip)) < unat (sb_ninodes (x_sb s1))"
      "ib s1 ip = ib s ip" "pinned s1 = pinned s" "cap s1 = cap s" "content s1 = content s" "x_sb s1 = x_sb s"
      "x_inode s1 = (x_inode s)(ip := (x_inode s ip)\<lparr>d_size := sz\<rparr>)"
    using s i by (simp_all add: s1_def file_ok_def)
  have "card (insert (ib s ip) (pinned s)) \<le> card (pinned s \<union> meta s ip \<union> {})" by (rule card_mono) (auto simp: meta_def)
  then have "int (card (insert (ib s1 ip) (pinned s1))) < cap s1" using b by (simp add: s1 budget_def)
  then obtain t where t: "iupdate me ip s1 = Ok t" "in_op me {} t" "untouched {} s1 t" "pinned t = insert (ib s1 ip) (pinned s1)"
      "content t = (content s1)(ib s1 ip := put_dinode (dinode_at (i_inum (x_inode s1 ip))) (x_inode s1 ip) (content s1 (ib s1 ip)))"
    using iupdate_run [OF s1(1-4)] by blast
  note ft = untouched_fs [OF t(3)] and ib = ib_avail [OF s(2) i]
  have xt: "x_inode t = (x_inode s)(ip := (x_inode s ip)\<lparr>d_size := sz\<rparr>)" "x_sb t = x_sb s" using ft s1 by simp_all
  have ct: "content t n = content s n" if "n \<noteq> ib s ip" for n using t(5) that s1(5,8) by simp
  have fr: "free_blk t = free_blk s" using ct [of "bmapb s"] ib(2) by (intro ext) (auto simp: free_blk_def xt)
  have nib: "data_blk s a \<Longrightarrow> a \<noteq> ib s ip" for a using ib(3) by (auto simp: data_blk_def)
  have n12: "addrs s ip 12 \<noteq> ib s ip" if "addrs s ip 12 \<noteq> 0"
    using file_okD(2) [OF s(3), of 140] that nib by (simp add: slot_def)
  have sl: "slot t ip k = slot s ip k" for k using n12 ct [of "addrs s ip 12"] by (simp add: slot_def xt)
  have fd: "fdata t ip j = fdata s ip j" if "j < 140 * BSIZE" for j
  proof -
    have "j div BSIZE \<le> 140" using that by simp
    then have "slot s ip (j div BSIZE) \<noteq> 0 \<Longrightarrow> slot s ip (j div BSIZE) \<noteq> ib s ip" using file_okD(2) [OF s(3)] nib by blast
    then show ?thesis using ct by (simp add: fdata_def Let_def sl)
  qed
  have "i_inum (x_inode t ip) = i_inum (x_inode s ip)" by (simp add: xt)
  then have m: "meta t ip = meta s ip" "fresh t ip = fresh s ip" "cap t = cap s"
    using untouchedD(1) [OF t(3)] s1(7) by (simp_all add: meta_def fresh_def sl xt)
  have "pinned t \<union> meta t ip = pinned s \<union> meta s ip" using t(4) s1(5,6) m by (auto simp: meta_def)
  then have bt: "budget N M 0 {} t ip" using b by (simp add: budget_def m fr)
  have "file_ok t ip" using s(3) by (auto simp: file_ok_def data_blk_def sl fr xt)
  moreover have "bitmap_ok {} t" using s(2) untouchedD(3) [OF t(3)] by (simp add: bitmap_ok_def layout_def fr xt s1_def)
  moreover have "synced t ip" using t(5) by (simp add: synced_def xt s1(8-10) get_put_dinode)
  moreover have "\<forall>m. m < dinode_at (i_inum (x_inode s ip)) \<or> dinode_at (i_inum (x_inode s ip)) + 64 \<le> m \<longrightarrow> content t (ib s ip) m = content s (ib s ip) m"
    using t(5) by (auto simp: s1(8-10) put_dinode_other)
  moreover have "ctl t = ctl s" using untouched_ctl [OF t(3)] by (simp add: s1_def)
  ultimately show ?thesis using t(1,2) bt xt(1) sl fr ct fd by (intro exI [of _ t]) (auto simp: file_op_def not_le)
qed

lemma splice:
  assumes "o1 \<le> sz" "n \<le> length src" "\<And>i. i < max sz (o1 + n) \<Longrightarrow> g i = (if o1 \<le> i \<and> i < o1 + n then src ! (i - o1) else f i)"
  shows "map g [0..<max sz (o1 + n)] = take o1 (map f [0..<sz]) @ take n src @ drop (o1 + n) (map f [0..<sz])"
proof (rule nth_equalityI)
  show "length (map g [0..<max sz (o1 + n)]) = length (take o1 (map f [0..<sz]) @ take n src @ drop (o1 + n) (map f [0..<sz]))"
    using assms(1,2) by auto
next
  fix i assume "i < length (map g [0..<max sz (o1 + n)])"
  then have i: "i < max sz (o1 + n)" by simp
  then show "map g [0..<max sz (o1 + n)] ! i = (take o1 (map f [0..<sz]) @ take n src @ drop (o1 + n) (map f [0..<sz])) ! i"
    using assms(1,2) assms(3) [OF i] by (auto simp: nth_append)
qed

lemma writei_run:
  fixes s :: "'z fsst_scheme"
  assumes O: "in_op me {} s" and R: "regular s ip" and o: "unat off \<le> length (fbytes s ip)" "unat off + unat n \<le> 140 * BSIZE" "unat n \<le> length src"
    and b: "budget N M (nblocks (unat off) (unat n)) {} s ip"
  shows "\<exists>t. writei devsw me ip src off n s = Ok (int (unat n), t) \<and> in_op me {} t \<and> regular t ip \<and> budget N M 0 {} t ip \<and>
     fbytes t ip = take (unat off) (fbytes s ip) @ take (unat n) src @ drop (unat off + unat n) (fbytes s ip) \<and>
     ctl t = ctl s \<and> (\<forall>j. j \<noteq> ip \<longrightarrow> x_inode t j = x_inode s j) \<and> (\<forall>c. free_blk t c \<longrightarrow> free_blk s c) \<and>
     (\<exists>f. x_inode t ip = (x_inode s ip)\<lparr>d_size := d_size (x_inode t ip), d_addrs := f\<rparr>) \<and>
     (\<forall>m. m \<noteq> bmapb s \<longrightarrow> m \<noteq> ib s ip \<longrightarrow> \<not> free_blk s (unat m) \<longrightarrow> (\<forall>k \<le> 140. m \<noteq> slot s ip k) \<longrightarrow> content t m = content s m) \<and>
     (\<forall>m. m < dinode_at (i_inum (x_inode s ip)) \<or> dinode_at (i_inum (x_inode s ip)) + 64 \<le> m \<longrightarrow> content t (ib s ip) m = content s (ib s ip) m)"
proof -
  let ?sz = "d_size (x_inode s ip)"
  have len: "length (fbytes s ip) = unat ?sz" by (simp add: fbytes_def)
  have r: "bitmap_ok {} s" "file_ok s ip" "d_type (x_inode s ip) \<noteq> T_DEV" "unat ?sz \<le> 140 * BSIZE" "unat (i_inum (x_inode s ip)) < unat (sb_ninodes (x_sb s))"
      "\<And>i. i < unat ?sz \<Longrightarrow> slot s ip (i div BSIZE) \<noteq> 0" "synced s ip" using R by (auto simp: regular_def)
  have P: "file_op me s ip" using O r(1,2) by (simp add: file_op_def)
  have b0: "budget N M (nblocks (unat off) (unat n) + 0) {} s ip" using b by simp
  obtain u where u: "writei_loop (unat n) me ip src off n s = Ok (off + n, u)" "file_op me u ip" "budget N M 0 {} u ip" "wrote ip s u"
      "\<forall>i < 140 * BSIZE. fdata u ip i = (if unat off \<le> i \<and> i < unat off + unat n then src ! (i - unat off) else fdata s ip i)"
      "\<forall>i. unat off \<le> i \<longrightarrow> i < unat off + unat n \<longrightarrow> slot u ip (i div BSIZE) \<noteq> 0"
      "(\<forall>i. unat off \<le> i \<longrightarrow> i < unat off + unat n \<longrightarrow> slot s ip (i div BSIZE) \<noteq> 0) \<longrightarrow> x_inode u = x_inode s"
    using writei_loop_run [OF P o(2) order_refl o(3) b0] by blast
  obtain f where f: "x_inode u = (x_inode s)(ip := (x_inode s ip)\<lparr>d_addrs := f\<rparr>)" "x_sb u = x_sb s" and cu: "ctl u = ctl s" using u(4) by (auto simp: wrote_def)
  have ov: "unat (off + n) = unat off + unat n" using o(2) by (simp add: unat_word_ariths(1))
  have sn: "sint n = int (unat n)" by (rule sint_small) (use o(2) in simp)
  have cond: "\<not> off > ?sz" "\<not> off + n < off" "\<not> off + n > 140 * 512"
    using o ov len by (simp_all add: word_less_nat_alt)
  have run: "writei devsw me ip src off n s = bindR (if n > 0 \<and> off + n > ?sz then iupdate me ip (upd_inode ip (\<lambda>x. x\<lparr>d_size := off + n\<rparr>) u) else Ok u)
      (\<lambda>s. Ok (int (unat n), s))"
    using cond r(3) u(1) by (simp add: writei_def Let_def sn f)
  have cov: "slot u ip (i div BSIZE) \<noteq> 0" if "i < max (unat ?sz) (unat off + unat n)" for i
  proof (cases "unat off \<le> i \<and> i < unat off + unat n")
    case False
    then have l: "i < unat ?sz" using that o(1) len by auto
    then have "i div BSIZE \<le> 140" using r(4) by simp
    then show ?thesis using wrote_slot(1) [OF u(4)] r(6) [OF l] by simp
  qed (use u(6) in blast)
  have spl: "map (fdata u ip) [0..<max (unat ?sz) (unat off + unat n)] =
      take (unat off) (fbytes s ip) @ take (unat n) src @ drop (unat off + unat n) (fbytes s ip)"
    unfolding fbytes_def by (rule splice) (use o len u(5) r(4) in auto)
  note ib = ib_avail [OF r(1,5)]
  have fm: "\<forall>c. free_blk u c \<longrightarrow> free_blk s c" using u(4) by (simp add: wrote_def)
  have fr: "content u m = content s m" if "m \<noteq> bmapb s" "\<not> free_blk s (unat m)" "\<forall>k \<le> 140. m \<noteq> slot s ip k" for m
    using wrote_content [OF u(4)] that by blast
  have ibu: "content u (ib s ip) = content s (ib s ip)"
  proof (rule fr)
    show "ib s ip \<noteq> bmapb s" by (rule ib(2))
    show "\<not> free_blk s (unat (ib s ip))" using ib(3) r(1) by (auto simp: bitmap_ok_def)
    show "\<forall>k \<le> 140. ib s ip \<noteq> slot s ip k"
    proof (intro allI impI)
      fix k :: nat assume "k \<le> 140"
      then show "ib s ip \<noteq> slot s ip k" using file_okD(2) [OF r(2), of k] ib(3,4) by (cases "slot s ip k = 0") (auto simp: data_blk_def)
    qed
  qed
  have uu: "in_op me {} u" "bitmap_ok {} u" "file_ok u ip" using u(2) by (simp_all add: file_op_def)
  show ?thesis
  proof (cases "n > 0 \<and> off + n > ?sz")
    case True
    then have big: "unat ?sz < unat off + unat n" using ov by (simp add: word_less_nat_alt)
    have iu: "ib u ip = ib s ip" "unat (i_inum (x_inode u ip)) < unat (sb_ninodes (x_sb u))" using r(5) by (simp_all add: f)
    obtain t where t: "iupdate me ip (upd_inode ip (\<lambda>x. x\<lparr>d_size := off + n\<rparr>) u) = Ok t" "file_op me t ip" "budget N M 0 {} t ip"
        "x_inode t = (x_inode u)(ip := (x_inode u ip)\<lparr>d_size := off + n\<rparr>)" "ctl t = ctl u" "synced t ip" "\<forall>k. slot t ip k = slot u ip k"
        "\<forall>j. fdata t ip j = fdata u ip j \<or> 140 * BSIZE \<le> j" "free_blk t = free_blk u" "\<forall>n. n \<noteq> ib u ip \<longrightarrow> content t n = content u n"
        "\<forall>m. m < dinode_at (i_inum (x_inode u ip)) \<or> dinode_at (i_inum (x_inode u ip)) + 64 \<le> m \<longrightarrow> content t (ib u ip) m = content u (ib u ip) m"
      using grow_run [OF u(2) iu(2) u(3)] by blast
    have st: "d_size (x_inode t ip) = off + n" by (simp add: t(4))
    have mx: "max (unat ?sz) (unat off + unat n) = unat off + unat n" using big by simp
    have "regular t ip"
      unfolding regular_def
    proof (intro conjI allI impI)
      show "slot t ip (i div BSIZE) \<noteq> 0" if "i < unat (d_size (x_inode t ip))" for i using cov [of i] that t(7) by (simp add: st ov)
    qed (use t(2,5,6) r(3,5) o(2) ov in \<open>simp_all add: file_op_def t(4) f\<close>)
    moreover have "fbytes t ip = map (fdata u ip) [0..<unat off + unat n]"
      unfolding fbytes_def st ov by (rule map_cong) (use t(8) o(2) in \<open>auto simp: not_le\<close>)
    then have "fbytes t ip = take (unat off) (fbytes s ip) @ take (unat n) src @ drop (unat off + unat n) (fbytes s ip)"
      using spl unfolding mx by simp
    moreover have "writei devsw me ip src off n s = Ok (int (unat n), t)" using run True t(1) by simp
    moreover have "in_op me {} t" using t(2) by (simp add: file_op_def)
    moreover have "\<exists>g. x_inode t ip = (x_inode s ip)\<lparr>d_size := d_size (x_inode t ip), d_addrs := g\<rparr>" by (rule exI [of _ f]) (simp add: t(4) f)
    ultimately show ?thesis using t(3,5,9-11) iu fr ibu fm cu by (intro exI [of _ t]) (simp add: t(4) f)
  next
    case False
    have all: "unat off + unat n \<le> unat ?sz \<or> unat n = 0"
      using False ov by (auto simp: word_less_nat_alt not_less unat_eq_zero)
    then have mx: "max (unat ?sz) (unat off + unat n) = unat ?sz" using o(1) len by auto
    have "slot s ip (i div BSIZE) \<noteq> 0" if "unat off \<le> i" "i < unat off + unat n" for i using all that r(6) [of i] by auto
    then have xu: "x_inode u = x_inode s" using u(7) by blast
    have "synced u ip" using r(7) ibu by (simp add: synced_def xu f(2))
    then have "regular u ip"
      using uu(2,3) r(3-5) cov unfolding mx by (simp add: regular_def xu f(2))
    moreover have "fbytes u ip = take (unat off) (fbytes s ip) @ take (unat n) src @ drop (unat off + unat n) (fbytes s ip)"
      using spl unfolding mx by (simp add: fbytes_def xu)
    moreover have "writei devsw me ip src off n s = Ok (int (unat n), u)" using run False by (simp split: if_splits)
    moreover have "\<exists>g. x_inode u ip = (x_inode s ip)\<lparr>d_size := d_size (x_inode u ip), d_addrs := g\<rparr>" by (rule exI [of _ "addrs s ip"]) (simp add: xu)
    ultimately show ?thesis using uu(1) u(3) fr ibu fm cu by (intro exI [of _ u]) (simp add: xu f(2))
  qed
qed

text \<open>A file that shares no block with the one that is written.\<close>

definition apart :: "'z fsst_scheme \<Rightarrow> nat \<Rightarrow> nat \<Rightarrow> bool" where
  "apart s ip jp \<longleftrightarrow> jp \<noteq> ip \<and> i_inum (x_inode s jp) \<noteq> i_inum (x_inode s ip) \<and>
     (\<forall>k \<le> 140. \<forall>l \<le> 140. slot s ip k \<noteq> 0 \<longrightarrow> slot s ip k \<noteq> slot s jp l)"

lemma other_file:
  fixes s :: "'z fsst_scheme"
  assumes A: "apart s ip jp" and F: "file_ok s ip" and R: "regular s jp" and B: "bitmap_ok {} t" and i: "x_inode t jp = x_inode s jp" "x_sb t = x_sb s"
    and ibi: "unat (ib s ip) < unat (bmapb s)" and fr: "\<And>c. free_blk t c \<Longrightarrow> free_blk s c"
    and c: "\<And>m. m \<noteq> bmapb s \<Longrightarrow> m \<noteq> ib s ip \<Longrightarrow> \<not> free_blk s (unat m) \<Longrightarrow> (\<And>k. k \<le> 140 \<Longrightarrow> m \<noteq> slot s ip k) \<Longrightarrow> content t m = content s m"
    and d: "\<And>m. m < dinode_at (i_inum (x_inode s ip)) \<or> dinode_at (i_inum (x_inode s ip)) + 64 \<le> m \<Longrightarrow> content t (ib s ip) m = content s (ib s ip) m"
  shows "regular t jp" "fbytes t jp = fbytes s jp"
proof -
  have r: "bitmap_ok {} s" "file_ok s jp" "unat (i_inum (x_inode s jp)) < unat (sb_ninodes (x_sb s))" "unat (d_size (x_inode s jp)) \<le> 140 * BSIZE"
    using R by (simp_all add: regular_def)
  note ibj = ib_avail [OF r(1,3)]
  have data: "content t (slot s jp l) = content s (slot s jp l)" if "l \<le> 140" "slot s jp l \<noteq> 0" for l
  proof (rule c)
    have db: "data_blk s (slot s jp l)" by (rule file_okD(2) [OF r(2) that])
    then show "slot s jp l \<noteq> bmapb s" "\<not> free_blk s (unat (slot s jp l))" "slot s jp l \<noteq> ib s ip" using ibi by (auto simp: data_blk_def)
    show "slot s jp l \<noteq> slot s ip k" if "k \<le> 140" for k
    proof (cases "slot s ip k = 0")
      case False
      then show ?thesis using A that \<open>l \<le> 140\<close> by (metis apart_def)
    qed (use \<open>slot s jp l \<noteq> 0\<close> in simp)
  qed
  have sl: "slot t jp l = slot s jp l" for l
    using data [of 140] by (auto simp: slot_def i)
  have fd: "fdata t jp j = fdata s jp j" if "j < 140 * BSIZE" for j
    using data [of "j div BSIZE"] that by (simp add: fdata_def Let_def sl)
  show "fbytes t jp = fbytes s jp" unfolding fbytes_def i by (rule map_cong) (use fd r(4) in auto)
  have fo: "file_ok t jp" using r(2) fr by (auto simp: file_ok_def data_blk_def sl i)
  have "content t (ib s jp) (dinode_at (i_inum (x_inode s jp)) + j) = content s (ib s jp) (dinode_at (i_inum (x_inode s jp)) + j)" if j: "j < 64" for j
  proof (cases "ib s jp = ib s ip")
    case True
    let ?a = "i_inum (x_inode s ip)" and ?b = "i_inum (x_inode s jp)"
    have "?a div 8 = ?b div 8" using True by (simp add: IBLOCK_def)
    moreover have "unat (x div 8) = unat x div 8" for x :: uint by (simp add: unat_div)
    ultimately have "unat ?a div 8 = unat ?b div 8" by metis
    moreover have "unat ?a \<noteq> unat ?b" using A by (auto simp: apart_def word_unat_eq_iff)
    ultimately have "unat ?a mod 8 \<noteq> unat ?b mod 8" by (metis div_mult_mod_eq)
    then have "dinode_at ?b + j < dinode_at ?a \<or> dinode_at ?a + 64 \<le> dinode_at ?b + j"
      unfolding dinode_at_def using j by (simp add: unat_mod) linarith
    then show ?thesis unfolding True by (rule d)
  next
    case False
    have "content t (ib s jp) = content s (ib s jp)"
    proof (rule c)
      show "ib s jp \<noteq> bmapb s" "ib s jp \<noteq> ib s ip" using ibj(2) False by simp_all
      show "\<not> free_blk s (unat (ib s jp))" using ibj(3) r(1) by (auto simp: bitmap_ok_def)
      show "ib s jp \<noteq> slot s ip k" if "k \<le> 140" for k
        using file_okD(2) [OF F that] ibj(3,4) by (cases "slot s ip k = 0") (auto simp: data_blk_def)
    qed
    then show ?thesis by simp
  qed
  then have "get_dinode (content t (ib s jp)) (dinode_at (i_inum (x_inode s jp))) = get_dinode (content s (ib s jp)) (dinode_at (i_inum (x_inode s jp)))"
    by (rule get_dinode_cong)
  then show "regular t jp" using R B fo by (simp add: regular_def synced_def i sl)
qed

section \<open>Properties\<close>

text \<open>
  C6: Files behave as arrays of bytes. Inside a transaction with room for the blocks concerned, writing \<open>src\<close> at an
  offset within a regular file returns the number of bytes written and replaces exactly the bytes
  from the offset on, growing the file if need be, through direct and indirect blocks alike; the file stays well formed, with
  its inode on disk up to date, and the transaction stays within its budget of blocks. Every later
  \<^verbatim>\<open>readi\<close> returns the bytes of that array, cut at its end. No other file changes.
\<close>

theorem file_contents:
  fixes s :: "'z fsst_scheme"
  assumes O: "in_op me {} s" and R: "regular s ip" and o: "unat off \<le> length (fbytes s ip)" "unat off + length src \<le> 140 * BSIZE"
    and b: "budget N M (nblocks (unat off) (length src)) {} s ip"
  shows "\<exists>t. writei dw me ip src off (of_nat (length src)) s = Ok (int (length src), t) \<and> regular t ip \<and> int (card (pinned t)) < N \<and>
     fbytes t ip = take (unat off) (fbytes s ip) @ src @ drop (unat off + length src) (fbytes s ip) \<and>
     (\<forall>jp. apart s ip jp \<longrightarrow> regular s jp \<longrightarrow> regular t jp \<and> fbytes t jp = fbytes s jp) \<and>
     (\<forall>o1 n. unat o1 \<le> length (fbytes t ip) \<longrightarrow> unat o1 + unat n < 2 ^ 32 \<longrightarrow> (\<exists>u. readi dr me ip o1 n t =
        Ok (int (min (unat n) (length (fbytes t ip) - unat o1)), take (unat n) (drop (unat o1) (fbytes t ip)), u) \<and> fbytes u ip = fbytes t ip))"
proof -
  let ?n = "of_nat (length src) :: uint"
  have n: "unat ?n = length src" using o(2) by (simp add: unat_of_nat take_bit_nat_eq_self)
  have r: "bitmap_ok {} s" "file_ok s ip" "unat (i_inum (x_inode s ip)) < unat (sb_ninodes (x_sb s))" using R by (simp_all add: regular_def)
  have o': "unat off + unat ?n \<le> 140 * BSIZE" "unat ?n \<le> length src" "budget N M (nblocks (unat off) (unat ?n)) {} s ip" using o b n by simp_all
  obtain t where t: "writei dw me ip src off ?n s = Ok (int (unat ?n), t)" "in_op me {} t" "regular t ip" "budget N M 0 {} t ip"
      "fbytes t ip = take (unat off) (fbytes s ip) @ take (unat ?n) src @ drop (unat off + unat ?n) (fbytes s ip)"
      "ctl t = ctl s" "\<forall>j. j \<noteq> ip \<longrightarrow> x_inode t j = x_inode s j" "\<forall>c. free_blk t c \<longrightarrow> free_blk s c"
      "\<forall>m. m \<noteq> bmapb s \<longrightarrow> m \<noteq> ib s ip \<longrightarrow> \<not> free_blk s (unat m) \<longrightarrow> (\<forall>k \<le> 140. m \<noteq> slot s ip k) \<longrightarrow> content t m = content s m"
      "\<forall>m. m < dinode_at (i_inum (x_inode s ip)) \<or> dinode_at (i_inum (x_inode s ip)) + 64 \<le> m \<longrightarrow> content t (ib s ip) m = content s (ib s ip) m"
    using writei_run [OF O R o(1) o', of dw] by blast
  have "card (pinned t) \<le> card (pinned t \<union> meta t ip \<union> {})" by (rule card_mono) auto
  then have "int (card (pinned t)) < N" using t(4) by (simp add: budget_def)
  moreover have "regular t jp \<and> fbytes t jp = fbytes s jp" if "apart s ip jp" "regular s jp" for jp
  proof -
    have B: "bitmap_ok {} t" using t(3) by (simp add: regular_def)
    have sb: "x_sb t = x_sb s" using t(6) by simp
    have i: "x_inode t jp = x_inode s jp" using t(7) that(1) by (simp add: apart_def)
    show ?thesis
      using other_file [OF that(1) r(2) that(2) B i sb ib_avail(3) [OF r(1,3)]] t(8-10) by blast
  qed
  moreover have "\<exists>u. readi dr me ip o1 n t = Ok (int (min (unat n) (length (fbytes t ip) - unat o1)), take (unat n) (drop (unat o1) (fbytes t ip)), u) \<and>
      fbytes u ip = fbytes t ip" if "unat o1 \<le> length (fbytes t ip)" "unat o1 + unat n < 2 ^ 32" for o1 n
  proof -
    have "cache_op me {} t" using t(2) by (simp add: in_op_def)
    then show ?thesis using readi_run [OF _ t(3) that, of me dr] untouched_regular(2) by blast
  qed
  ultimately show ?thesis using t(1,3,5) unfolding n by (intro exI [of _ t]) simp
qed

lemma demo_slot: "slot demo_fs ip k = 0"
  by (simp add: slot_def demo_fs_facts demo_file_inode_def)

lemma demo_regular: "regular demo_fs 0"
proof -
  have d: "dinode_at 2 = 128" "ib demo_fs 0 = 32" by (simp_all add: dinode_at_def IBLOCK_def demo_fs_facts mkfs_sb_eq demo_file_inode_def)
  have "content demo_fs 32 = put_dinode 128 demo_file_inode (put_dinode 64 demo_root (\<lambda>_. 0))" by (simp add: demo_fs_facts demo_fs_disk_def)
  then have "synced demo_fs 0"
    unfolding synced_def d(2) using d(1) by (simp add: demo_fs_facts get_put_dinode) (simp add: demo_file_inode_def get_put_dinode)
  moreover have "file_ok demo_fs 0" by (simp add: file_ok_def demo_slot demo_fs_facts demo_file_inode_def)
  ultimately show ?thesis using demo_bitmap by (simp add: regular_def demo_fs_facts demo_file_inode_def mkfs_sb_eq)
qed

theorem file_contents_witness:
  "\<exists>t u. writei (\<lambda>_. None) 1 0 [1, 2, 3] 0 3 demo_fs = Ok (3, t) \<and> fbytes t 0 = [1, 2, 3] \<and> readi (\<lambda>_. None) 1 0 1 9 t = Ok (2, [2, 3], u)"
proof -
  have f0: "fbytes demo_fs 0 = []" by (simp add: fbytes_def demo_fs_facts demo_file_inode_def)
  have "Collect (free_blk demo_fs) = {60..<1000}" by (auto simp: demo_free)
  then have b: "budget 29 0 (nblocks (unat (0 :: uint)) (length [1 :: uchar, 2, 3])) {} demo_fs 0"
    by (simp add: budget_def demo_fs_facts fresh_def demo_slot meta_def nblocks_def card_insert_if)
  have o: "unat (0 :: uint) \<le> length (fbytes demo_fs 0)" "unat (0 :: uint) + length [1 :: uchar, 2, 3] \<le> 140 * BSIZE" by simp_all
  obtain t where t: "writei (\<lambda>_. None) 1 0 [1, 2, 3] 0 (of_nat (length [1 :: uchar, 2, 3])) demo_fs = Ok (int (length [1 :: uchar, 2, 3]), t)"
      "fbytes t 0 = take (unat (0 :: uint)) (fbytes demo_fs 0) @ [1, 2, 3] @ drop (unat (0 :: uint) + length [1 :: uchar, 2, 3]) (fbytes demo_fs 0)"
      "\<forall>o1 n. unat o1 \<le> length (fbytes t 0) \<longrightarrow> unat o1 + unat n < 2 ^ 32 \<longrightarrow> (\<exists>u. readi (\<lambda>_. None) 1 0 o1 n t =
        Ok (int (min (unat n) (length (fbytes t 0) - unat o1)), take (unat n) (drop (unat o1) (fbytes t 0)), u) \<and> fbytes u 0 = fbytes t 0)"
    using file_contents [OF demo_fs_facts(1) demo_regular o b, where me = 1 and dw = "\<lambda>_. None" and dr = "\<lambda>_. None"] by blast
  have ft: "fbytes t 0 = [1, 2, 3]" using t(2) f0 by simp
  have "\<exists>u. readi (\<lambda>_. None) 1 0 1 9 t = Ok (2, [2, 3], u)"
    using t(3) [rule_format, of 1 9] by (auto simp: ft)
  then show ?thesis using t(1) ft by auto
qed

end
