(* ===== verification/Pipe.thy ===== *)
theory Pipe
  imports Ide Fifo
begin

text \<open>
  Pipes, pipe.c: the ring buffer with its free-running 32-bit counters, and the reading and writing
  loops cut at \<^verbatim>\<open>sleep\<close>. A piece of an execution, from one sleep to the next or to the end, is one step
  under \<^verbatim>\<open>p->lock\<close>; it returns the calls of \<^verbatim>\<open>wakeup\<close> it makes. Allocation and closing, which involve
  the file table and the page allocator, are in theory \<open>File\<close>.
\<close>

abbreviation (input) PIPESIZE :: nat where "PIPESIZE \<equiv> 512"

record pipe =
  pi_data :: "nat \<Rightarrow> uchar"
  pi_nread :: uint
  pi_nwrite :: uint
  pi_readopen :: int
  pi_writeopen :: int

section \<open>Operations\<close>

text \<open>The two statements that move a byte, with the conditions under which the loops reach them.\<close>

definition pipe_full :: "pipe \<Rightarrow> bool" where
  "pipe_full p \<longleftrightarrow> pi_nwrite p = pi_nread p + of_nat PIPESIZE"

definition pipe_empty :: "pipe \<Rightarrow> bool" where
  "pipe_empty p \<longleftrightarrow> pi_nread p = pi_nwrite p"

definition pipe_put :: "uchar \<Rightarrow> pipe \<Rightarrow> pipe res" where
  "pipe_put c p =
     (if pipe_full p then Wait ''pipewrite''
      else Ok (p\<lparr>pi_data := (pi_data p)(unat (pi_nwrite p mod of_nat PIPESIZE) := c), pi_nwrite := pi_nwrite p + 1\<rparr>))"

definition pipe_get :: "pipe \<Rightarrow> (uchar \<times> pipe) res" where
  "pipe_get p =
     (if pipe_empty p then Wait ''piperead''
      else Ok (pi_data p (unat (pi_nread p mod of_nat PIPESIZE)), p\<lparr>pi_nread := pi_nread p + 1\<rparr>))"

text \<open>How a piece ends: the routine returns, or sleeps on a channel with the bytes still to write.\<close>

datatype pio = PRet int | PSleep chan "uchar list"

text \<open>The loop of \<^verbatim>\<open>pipewrite\<close> at \<^verbatim>\<open>addr + i\<close>, \<open>cs\<close> being the bytes from there to the end; \<open>n\<close> is the
  argument of the call.\<close>

fun pipewrite_from :: "uint \<Rightarrow> bool \<Rightarrow> int \<Rightarrow> uchar list \<Rightarrow> pipe \<Rightarrow> pio \<times> chan list \<times> pipe" where
  "pipewrite_from a killed n [] p = (PRet n, [CPipeRead a], p)"
| "pipewrite_from a killed n (c # cs) p =
     (case pipe_put c p of
        Ok p \<Rightarrow> pipewrite_from a killed n cs p
      | _ \<Rightarrow> if pi_readopen p = 0 \<or> killed then (PRet (-1), [], p)
             else (PSleep (CPipeWrite a) (c # cs), [CPipeRead a], p))"

fun pipe_copy :: "nat \<Rightarrow> pipe \<Rightarrow> uchar list \<times> pipe" where
  "pipe_copy 0 p = ([], p)"
| "pipe_copy (Suc i) p =
     (case pipe_get p of
        Ok (c, p) \<Rightarrow> (let (cs, p) = pipe_copy i p in (c # cs, p))
      | _ \<Rightarrow> ([], p))"

definition piperead_from :: "uint \<Rightarrow> bool \<Rightarrow> int \<Rightarrow> pipe \<Rightarrow> pio \<times> uchar list \<times> chan list \<times> pipe" where
  "piperead_from a killed n p =
     (if pipe_empty p \<and> pi_writeopen p \<noteq> 0
      then if killed then (PRet (-1), [], [], p) else (PSleep (CPipeRead a) [], [], [], p)
      else let (cs, p) = pipe_copy (nat n) p in (PRet (int (length cs)), cs, [CPipeWrite a], p))"

section \<open>The ring as a queue\<close>

definition pipe_rep :: "pipe \<Rightarrow> uchar list \<Rightarrow> bool" where
  "pipe_rep p xs \<longleftrightarrow> length xs \<le> PIPESIZE \<and> pi_nwrite p = pi_nread p + of_nat (length xs) \<and>
     (\<forall>i < length xs. pi_data p (unat ((pi_nread p + of_nat i) mod of_nat PIPESIZE)) = xs ! i)"

lemma pipe_index: "unat ((w + of_nat i) mod 512 :: uint) = (unat w + i) mod 512"
  using ring_index [of 512 w i] by simp

lemma pipe_full_rep: "pipe_rep p xs \<Longrightarrow> pipe_full p \<longleftrightarrow> length xs = PIPESIZE"
proof -
  assume r: "pipe_rep p xs"
  have "(of_nat (length xs) :: uint) = of_nat 512 \<longleftrightarrow> length xs = 512"
    using r by (subst word_unat_eq_iff) (simp add: unat_of_nat pipe_rep_def)
  then show ?thesis using r by (simp add: pipe_full_def pipe_rep_def)
qed

lemma pipe_empty_rep: "pipe_rep p xs \<Longrightarrow> pipe_empty p \<longleftrightarrow> xs = []"
proof -
  assume r: "pipe_rep p xs"
  have "(of_nat (length xs) :: uint) = 0 \<longleftrightarrow> length xs = 0"
    using r by (subst word_unat_eq_iff) (simp add: unat_of_nat pipe_rep_def)
  then show ?thesis using r by (auto simp: pipe_empty_def pipe_rep_def)
qed

lemma pipe_put_run:
  assumes r: "pipe_rep p xs" and n: "length xs < PIPESIZE"
  shows "\<exists>q. pipe_put c p = Ok q \<and> pipe_rep q (xs @ [c]) \<and> pi_readopen q = pi_readopen p \<and> pi_writeopen q = pi_writeopen p"
proof -
  let ?k = "unat (pi_nread p)"
  have w: "pi_nwrite p = pi_nread p + of_nat (length xs)" using r by (simp add: pipe_rep_def)
  let ?q = "p\<lparr>pi_data := (pi_data p)(unat (pi_nwrite p mod of_nat PIPESIZE) := c), pi_nwrite := pi_nwrite p + 1\<rparr>"
  have "pipe_put c p = Ok ?q" using pipe_full_rep [OF r] n by (simp add: pipe_put_def)
  moreover have "pipe_rep ?q (xs @ [c])"
    unfolding pipe_rep_def
  proof (intro conjI allI impI)
    fix i assume i: "i < length (xs @ [c])"
    show "pi_data ?q (unat ((pi_nread ?q + of_nat i) mod of_nat PIPESIZE)) = (xs @ [c]) ! i"
    proof (cases "i = length xs")
      case True
      then show ?thesis by (simp add: w)
    next
      case False
      then have "i < length xs" using i by simp
      then have "(?k + i) mod 512 \<noteq> (?k + length xs) mod 512" using ring_slots [of i "length xs" 512 ?k] n by simp
      then show ?thesis using r \<open>i < length xs\<close> by (simp add: w pipe_index pipe_rep_def nth_append)
    qed
  qed (use n w in simp_all)
  ultimately show ?thesis by simp
qed

lemma pipe_get_run:
  assumes r: "pipe_rep p (c # xs)"
  shows "\<exists>q. pipe_get p = Ok (c, q) \<and> pipe_rep q xs \<and> pi_readopen q = pi_readopen p \<and> pi_writeopen q = pi_writeopen p"
proof -
  let ?q = "p\<lparr>pi_nread := pi_nread p + 1\<rparr>"
  have c: "pi_data p (unat (pi_nread p mod 512)) = c" using r unfolding pipe_rep_def by (auto dest!: spec [of _ 0])
  have "pi_data p (unat ((pi_nread p + 1 + of_nat i) mod 512)) = xs ! i" if "i < length xs" for i
    using r that unfolding pipe_rep_def by (auto dest!: spec [of _ "Suc i"] simp: add.assoc)
  then have "pipe_rep ?q xs" using r by (simp add: pipe_rep_def)
  then show ?thesis using c pipe_empty_rep [OF r] by (simp add: pipe_get_def)
qed

interpretation ring: fifo pipe_put pipe_get pipe_rep "\<lambda>xs x. length xs < PIPESIZE"
proof
  fix p xs c assume "pipe_rep p xs" "length xs < PIPESIZE"
  then show "\<exists>q. pipe_put c p = Ok q \<and> pipe_rep q (xs @ [c])" using pipe_put_run by blast
next
  fix p c xs assume "pipe_rep p (c # xs)"
  then show "\<exists>q. pipe_get p = Ok (c, q) \<and> pipe_rep q xs" using pipe_get_run by blast
next
  fix p assume "pipe_rep p []"
  then show "\<not> is_Ok (pipe_get p)" using pipe_empty_rep [of p "[]"] by (simp add: pipe_get_def)
qed

section \<open>Streams\<close>

text \<open>A writer's piece stores a prefix of its bytes: all of them, or as many as there is room for.\<close>

lemma pipewrite_run:
  assumes "pipe_rep p xs"
  shows "\<exists>ys zs r w q. cs = ys @ zs \<and> pipewrite_from a killed n cs p = (r, w, q) \<and> pipe_rep q (xs @ ys) \<and>
     pi_readopen q = pi_readopen p \<and> pi_writeopen q = pi_writeopen p \<and>
     (if zs = [] then r = PRet n \<and> w = [CPipeRead a]
      else length (xs @ ys) = PIPESIZE \<and>
        (if pi_readopen p = 0 \<or> killed then r = PRet (-1) \<and> w = []
         else r = PSleep (CPipeWrite a) zs \<and> w = [CPipeRead a]))"
  using assms
proof (induction cs arbitrary: p xs)
  case Nil
  then show ?case by simp
next
  case (Cons c cs)
  show ?case
  proof (cases "length xs = PIPESIZE")
    case True
    then have "pipe_put c p = Wait ''pipewrite''" using pipe_full_rep [OF Cons.prems] by (simp add: pipe_put_def)
    then show ?thesis using Cons.prems True by - (rule exI [of _ "[]"], rule exI [of _ "c # cs"], auto)
  next
    case False
    then have "length xs < PIPESIZE" using Cons.prems by (simp add: pipe_rep_def)
    then obtain q where q: "pipe_put c p = Ok q" "pipe_rep q (xs @ [c])" "pi_readopen q = pi_readopen p" "pi_writeopen q = pi_writeopen p"
      using pipe_put_run [OF Cons.prems] by blast
    obtain ys zs r w u where u: "cs = ys @ zs" "pipewrite_from a killed n cs q = (r, w, u)" "pipe_rep u ((xs @ [c]) @ ys)"
        "pi_readopen u = pi_readopen q" "pi_writeopen u = pi_writeopen q"
        "if zs = [] then r = PRet n \<and> w = [CPipeRead a]
         else length ((xs @ [c]) @ ys) = PIPESIZE \<and>
           (if pi_readopen q = 0 \<or> killed then r = PRet (-1) \<and> w = []
            else r = PSleep (CPipeWrite a) zs \<and> w = [CPipeRead a])"
      using Cons.IH [OF q(2)] by blast
    show ?thesis
      by (intro exI [of _ "c # ys"] exI [of _ zs] exI [of _ r] exI [of _ w] exI [of _ u])
        (use u q in \<open>auto split: if_splits\<close>)
  qed
qed

lemma pipe_copy_run:
  assumes "pipe_rep p xs"
  shows "\<exists>q. pipe_copy n p = (take n xs, q) \<and> pipe_rep q (drop n xs) \<and> pi_readopen q = pi_readopen p \<and> pi_writeopen q = pi_writeopen p"
  using assms
proof (induction n arbitrary: p xs)
  case 0
  then show ?case by simp
next
  case (Suc n)
  show ?case
  proof (cases xs)
    case Nil
    then show ?thesis using Suc.prems pipe_empty_rep [OF Suc.prems] by (simp add: pipe_get_def)
  next
    case (Cons c ys)
    then obtain q where q: "pipe_get p = Ok (c, q)" "pipe_rep q ys" "pi_readopen q = pi_readopen p" "pi_writeopen q = pi_writeopen p"
      using pipe_get_run Suc.prems by blast
    then show ?thesis using Suc.IH [OF q(2)] Cons by auto
  qed
qed

text \<open>
  Pieces of executions of readers and writers in any interleaving. A run is described by the bytes
  stored by the writers, the bytes returned to the readers, and the final state.
\<close>

datatype pact = PWrite bool "uchar list" | PRead bool int

fun pipe_run :: "uint \<Rightarrow> pact list \<Rightarrow> pipe \<Rightarrow> uchar list \<times> uchar list \<times> pipe" where
  "pipe_run a [] p = ([], [], p)"
| "pipe_run a (PWrite killed cs # as) p =
     (let (r, w, q) = pipewrite_from a killed (int (length cs)) cs p;
          (stored, got, u) = pipe_run a as q
      in (take (unat (pi_nwrite q - pi_nwrite p)) cs @ stored, got, u))"
| "pipe_run a (PRead killed n # as) p =
     (let (r, bs, w, q) = piperead_from a killed n p;
          (stored, got, u) = pipe_run a as q
      in (stored, bs @ got, u))"

lemma pipewrite_nread: "pipewrite_from a killed n cs p = (r, w, q) \<Longrightarrow> pi_nread q = pi_nread p"
  by (induction a killed n cs p rule: pipewrite_from.induct) (auto simp: pipe_put_def split: if_splits)

lemma stored_prefix:
  assumes "pipe_rep p xs" "pipe_rep q (xs @ ys)" "pi_nread q = pi_nread p" "cs = ys @ zs"
  shows "take (unat (pi_nwrite q - pi_nwrite p)) cs = ys"
proof -
  have "length ys < 2 ^ 32" using assms(2) by (simp add: pipe_rep_def)
  then have "unat (of_nat (length ys) :: uint) = length ys" by (simp add: unat_of_nat)
  then show ?thesis using assms by (simp add: pipe_rep_def)
qed

lemma piperead_run:
  assumes "pipe_rep p xs"
  shows "\<exists>r bs w q ys. piperead_from a killed n p = (r, bs, w, q) \<and> pipe_rep q ys \<and> xs = bs @ ys \<and>
     (if xs = [] \<and> pi_writeopen p \<noteq> 0 then bs = [] \<and> w = [] \<and> r = (if killed then PRet (-1) else PSleep (CPipeRead a) [])
      else r = PRet (int (length bs)) \<and> bs = take (nat n) xs \<and> w = [CPipeWrite a])"
proof -
  obtain q where q: "pipe_copy (nat n) p = (take (nat n) xs, q)" "pipe_rep q (drop (nat n) xs)"
    using pipe_copy_run [OF assms] by blast
  show ?thesis using assms pipe_empty_rep [OF assms] q by (auto simp: piperead_from_def)
qed

section \<open>Properties\<close>

text \<open>
  C5: A pipe delivers its bytes in order, without loss, duplication or invention, whatever the interleaving of
  readers and writers and however often the 32-bit counters wrap: in every run from a state with bytes \<open>xs\<close> in
  the ring, the bytes returned to readers followed by the bytes left are \<open>xs\<close> followed by the bytes stored by
  writers; the ring never holds more than \<^const>\<open>PIPESIZE\<close> bytes.
\<close>

theorem pipe_stream:
  assumes "pipe_rep p xs" "pipe_run a as p = (stored, got, q)"
  shows "\<exists>ys. pipe_rep q ys \<and> length ys \<le> PIPESIZE \<and> got @ ys = xs @ stored"
  using assms
proof (induction a as p arbitrary: xs stored got rule: pipe_run.induct)
  case (1 a p)
  then show ?case by (auto simp: pipe_rep_def)
next
  case (2 a killed cs as p)
  obtain ys zs r w u where u: "cs = ys @ zs" "pipewrite_from a killed (int (length cs)) cs p = (r, w, u)" "pipe_rep u (xs @ ys)"
    using pipewrite_run [OF "2.prems"(1), of cs] by metis
  obtain st where st: "pipe_run a as u = (st, got, q)" "stored = take (unat (pi_nwrite u - pi_nwrite p)) cs @ st"
    using "2.prems"(2) u(2) by (auto split: prod.splits)
  have "take (unat (pi_nwrite u - pi_nwrite p)) cs = ys"
    by (rule stored_prefix [OF "2.prems"(1) u(3) pipewrite_nread [OF u(2)] u(1)])
  then show ?case using "2.IH" [OF u(2) [symmetric] refl refl u(3) st(1)] st(2) by simp
next
  case (3 a killed n as p)
  obtain r bs w u ys where u: "piperead_from a killed n p = (r, bs, w, u)" "pipe_rep u ys" "xs = bs @ ys"
    using piperead_run [OF "3.prems"(1)] by metis
  obtain g where g: "pipe_run a as u = (stored, g, q)" "got = bs @ g"
    using "3.prems"(2) u(1) by (auto split: prod.splits)
  show ?case using "3.IH" [OF u(1) [symmetric] refl refl refl u(2) g(1)] g(2) u(3) by simp
qed

definition demo_pipe :: pipe where
  "demo_pipe = \<lparr>pi_data = (\<lambda>_. 0), pi_nread = 0xFFFFFFFF, pi_nwrite = 0xFFFFFFFF, pi_readopen = 1, pi_writeopen = 1\<rparr>"

theorem pipe_stream_witness:
  "pipe_rep demo_pipe [] \<and> (\<exists>q ys. pipe_run 4096 [PWrite False [1, 2, 3], PRead False 2] demo_pipe = ([1, 2, 3], [1, 2], q) \<and>
     pipe_rep q ys \<and> length ys \<le> PIPESIZE \<and> [1, 2] @ ys = [] @ [1, 2, 3])"
proof -
  have r: "pipe_rep demo_pipe []" by (simp add: pipe_rep_def demo_pipe_def)
  obtain st g q where run: "pipe_run 4096 [PWrite False [1, 2, 3], PRead False 2] demo_pipe = (st, g, q)" by (rule prod_cases3)
  have "fst (pipe_run 4096 [PWrite False [1, 2, 3], PRead False 2] demo_pipe) = [1, 2, 3] \<and>
      fst (snd (pipe_run 4096 [PWrite False [1, 2, 3], PRead False 2] demo_pipe)) = [1, 2]" by code_simp
  then have "st = [1, 2, 3]" "g = [1, 2]" using run by simp_all
  then show ?thesis using r pipe_stream [OF r run] run by blast
qed

text \<open>
  C25: Who sleeps on a pipe is woken by who can let it go on. A writer sleeps only on a full ring whose reading
  end is open, and wakes readers first; a reader sleeps only on an empty ring whose writing end is open; a reader
  that does not sleep takes what there is, up to \<open>n\<close> bytes, and wakes writers unless it was killed. A writer
  that returns has stored everything and wakes readers, or it found the ring full and the reading end closed or itself killed: then
  it returns \<open>-1\<close> and wakes nobody, though it may have stored bytes.
\<close>

theorem pipe_blocking:
  assumes "pipe_rep p xs"
  shows "(\<exists>ys zs r w q. cs = ys @ zs \<and> pipewrite_from a killed n cs p = (r, w, q) \<and> pipe_rep q (xs @ ys) \<and>
       (if zs = [] then r = PRet n \<and> w = [CPipeRead a]
        else length (xs @ ys) = PIPESIZE \<and>
          (if pi_readopen p = 0 \<or> killed then r = PRet (-1) \<and> w = []
           else r = PSleep (CPipeWrite a) zs \<and> w = [CPipeRead a]))) \<and>
    (\<exists>r bs w q ys. piperead_from a killed n p = (r, bs, w, q) \<and> pipe_rep q ys \<and> xs = bs @ ys \<and>
       (if xs = [] \<and> pi_writeopen p \<noteq> 0 then bs = [] \<and> w = [] \<and> r = (if killed then PRet (-1) else PSleep (CPipeRead a) [])
        else r = PRet (int (length bs)) \<and> bs = take (nat n) xs \<and> w = [CPipeWrite a]))"
proof (rule conjI)
  show "\<exists>ys zs r w q. cs = ys @ zs \<and> pipewrite_from a killed n cs p = (r, w, q) \<and> pipe_rep q (xs @ ys) \<and>
       (if zs = [] then r = PRet n \<and> w = [CPipeRead a]
        else length (xs @ ys) = PIPESIZE \<and>
          (if pi_readopen p = 0 \<or> killed then r = PRet (-1) \<and> w = []
           else r = PSleep (CPipeWrite a) zs \<and> w = [CPipeRead a]))"
    using pipewrite_run [OF assms, of cs a killed n] by blast
qed (rule piperead_run [OF assms])

theorem pipe_blocking_witness:
  "\<exists>r bs w q ys. piperead_from 4096 False 3 demo_pipe = (r, bs, w, q) \<and> pipe_rep q ys \<and> bs = [] \<and> r = PSleep (CPipeRead 4096) []"
proof -
  have r: "pipe_rep demo_pipe []" "pi_writeopen demo_pipe \<noteq> 0" by (simp_all add: pipe_rep_def demo_pipe_def)
  show ?thesis using pipe_blocking [OF r(1), of "[]" 4096 False 3] r(2) by auto
qed

end
