(* ===== verification/File.thy ===== *)
theory File
  imports Fs Pipe Kalloc
begin

text \<open>
  The table of open files, file.c, with the parts of pipe.c that allocate and close pipes. A file pointer
  is its index in \<^verbatim>\<open>ftable.file\<close>; a pipe pointer is the address of the page that \<^verbatim>\<open>kalloc\<close> returned for it.
  Sections under \<^verbatim>\<open>ftable.lock\<close> are one step. A read returns the bytes that are stored at \<^verbatim>\<open>addr\<close>; a
  write gets the bytes that are there. \<open>killed\<close> is \<^verbatim>\<open>myproc()->killed\<close>.
\<close>

datatype ftype = FD_NONE | FD_PIPE | FD_INODE

record file_t =
  fl_type :: ftype
  fl_ref :: int
  fl_readable :: uchar
  fl_writable :: uchar
  fl_pipe :: uint
  fl_ip :: nat
  fl_off :: uint

record filest = fsst +
  y_kmem :: kmem
  y_file :: "nat \<Rightarrow> file_t"
  y_pipe :: "uint \<Rightarrow> pipe"

type_synonym 'z fdev_read = "int \<Rightarrow> 'z filest_scheme dev_read option"
type_synonym 'z fdev_write = "int \<Rightarrow> 'z filest_scheme dev_write option"

definition upd_file :: "nat \<Rightarrow> (file_t \<Rightarrow> file_t) \<Rightarrow> 'z filest_scheme \<Rightarrow> 'z filest_scheme" where
  "upd_file f g s = s\<lparr>y_file := (y_file s)(f := g (y_file s f))\<rparr>"

fun wakes :: "chan list \<Rightarrow> 'z bio_scheme \<Rightarrow> 'z bio_scheme" where
  "wakes [] s = s"
| "wakes (c # cs) s = wakes cs (wake c s)"

section \<open>Operations\<close>

definition filealloc :: "'z filest_scheme \<Rightarrow> nat option \<times> 'z filest_scheme" where
  "filealloc s =
     (case List.find (\<lambda>f. fl_ref (y_file s f) = 0) [0..<NFILE] of
        Some f \<Rightarrow> (Some f, upd_file f (\<lambda>x. x\<lparr>fl_ref := 1\<rparr>) s)
      | None \<Rightarrow> (None, s))"

definition filedup :: "nat \<Rightarrow> 'z filest_scheme \<Rightarrow> 'z filest_scheme res" where
  "filedup f s =
     (if fl_ref (y_file s f) < 1 then Panic ''filedup''
      else Ok (upd_file f (\<lambda>x. x\<lparr>fl_ref := fl_ref x + 1\<rparr>) s))"

definition kfree_fs :: "uint \<Rightarrow> 'z filest_scheme \<Rightarrow> 'z filest_scheme res" where
  "kfree_fs v s = bindR (kfree v (y_kmem s)) (\<lambda>k. Ok (s\<lparr>y_kmem := k\<rparr>))"

definition pipeclose :: "uint \<Rightarrow> bool \<Rightarrow> 'z filest_scheme \<Rightarrow> 'z filest_scheme res" where
  "pipeclose p writable s =
     (let q = y_pipe s p;
          s = (if writable
               then wake (CPipeRead p) (s\<lparr>y_pipe := (y_pipe s)(p := q\<lparr>pi_writeopen := 0\<rparr>)\<rparr>)
               else wake (CPipeWrite p) (s\<lparr>y_pipe := (y_pipe s)(p := q\<lparr>pi_readopen := 0\<rparr>)\<rparr>))
      in if pi_readopen (y_pipe s p) = 0 \<and> pi_writeopen (y_pipe s p) = 0 then kfree_fs p s else Ok s)"

definition fileclose :: "int \<Rightarrow> nat \<Rightarrow> 'z filest_scheme \<Rightarrow> 'z filest_scheme res" where
  "fileclose me f s =
     (if fl_ref (y_file s f) < 1 then Panic ''fileclose''
      else let s = upd_file f (\<lambda>x. x\<lparr>fl_ref := fl_ref x - 1\<rparr>) s
        in if fl_ref (y_file s f) > 0 then Ok s
           else let ff = y_file s f;
                    s = upd_file f (\<lambda>x. x\<lparr>fl_ref := 0, fl_type := FD_NONE\<rparr>) s
                in case fl_type ff of
                     FD_PIPE \<Rightarrow> pipeclose (fl_pipe ff) (fl_writable ff \<noteq> 0) s
                   | FD_INODE \<Rightarrow> bindR (begin_op s) (\<lambda>s. bindR (iput me (fl_ip ff) s) (end_op me))
                   | FD_NONE \<Rightarrow> Ok s)"

text \<open>The label \<^verbatim>\<open>bad\<close> of \<^verbatim>\<open>pipealloc\<close>, which is never reached with a pipe.\<close>

definition pipealloc_bad :: "int \<Rightarrow> nat option \<Rightarrow> nat option \<Rightarrow> 'z filest_scheme \<Rightarrow> ((nat \<times> nat) option \<times> 'z filest_scheme) res" where
  "pipealloc_bad me f0 f1 s =
     bindR (case f0 of None \<Rightarrow> Ok s | Some f \<Rightarrow> fileclose me f s) (\<lambda>s.
     bindR (case f1 of None \<Rightarrow> Ok s | Some f \<Rightarrow> fileclose me f s) (\<lambda>s. Ok (None, s)))"

definition pipealloc :: "int \<Rightarrow> 'z filest_scheme \<Rightarrow> ((nat \<times> nat) option \<times> 'z filest_scheme) res" where
  "pipealloc me s =
     (case filealloc s of
        (None, s) \<Rightarrow> pipealloc_bad me None None s
      | (Some f0, s) \<Rightarrow>
          (case filealloc s of
             (None, s) \<Rightarrow> pipealloc_bad me (Some f0) None s
           | (Some f1, s) \<Rightarrow>
               (let (p, k) = kalloc (y_kmem s); s = s\<lparr>y_kmem := k\<rparr>
                in if p = 0 then pipealloc_bad me (Some f0) (Some f1) s
                   else let s = s\<lparr>y_pipe := (y_pipe s)(p :=
                                   (y_pipe s p)\<lparr>pi_readopen := 1, pi_writeopen := 1, pi_nwrite := 0, pi_nread := 0\<rparr>)\<rparr>;
                            s = upd_file f0 (\<lambda>x. x\<lparr>fl_type := FD_PIPE, fl_readable := 1, fl_writable := 0, fl_pipe := p\<rparr>) s;
                            s = upd_file f1 (\<lambda>x. x\<lparr>fl_type := FD_PIPE, fl_readable := 0, fl_writable := 1, fl_pipe := p\<rparr>) s
                        in Ok (Some (f0, f1), s))))"

text \<open>The two routines of pipe.c run to their end; if they sleep the result is \<^const>\<open>Wait\<close>.\<close>

definition pipewrite :: "bool \<Rightarrow> uint \<Rightarrow> uchar list \<Rightarrow> int \<Rightarrow> 'z filest_scheme \<Rightarrow> (int \<times> 'z filest_scheme) res" where
  "pipewrite killed p cs n s =
     (let (r, w, q) = pipewrite_from p killed n (take (nat n) cs) (y_pipe s p)
      in case r of PSleep c zs \<Rightarrow> Wait ''pipewrite'' | PRet v \<Rightarrow> Ok (v, wakes w (s\<lparr>y_pipe := (y_pipe s)(p := q)\<rparr>)))"

definition piperead :: "bool \<Rightarrow> uint \<Rightarrow> int \<Rightarrow> 'z filest_scheme \<Rightarrow> (int \<times> uchar list \<times> 'z filest_scheme) res" where
  "piperead killed p n s =
     (let (r, bs, w, q) = piperead_from p killed n (y_pipe s p)
      in case r of PSleep c zs \<Rightarrow> Wait ''piperead'' | PRet v \<Rightarrow> Ok (v, bs, wakes w (s\<lparr>y_pipe := (y_pipe s)(p := q)\<rparr>)))"

definition filestat :: "int \<Rightarrow> nat \<Rightarrow> 'z filest_scheme \<Rightarrow> (int \<times> stat option \<times> 'z filest_scheme) res" where
  "filestat me f s =
     (if fl_type (y_file s f) = FD_INODE
      then bindR (ilock me (fl_ip (y_file s f)) s) (\<lambda>s.
             let st = stati (fl_ip (y_file s f)) s
             in bindR (iunlock me (fl_ip (y_file s f)) s) (\<lambda>s. Ok (0, Some st, s)))
      else Ok (-1, None, s))"

definition fileread :: "'z fdev_read \<Rightarrow> int \<Rightarrow> bool \<Rightarrow> nat \<Rightarrow> int \<Rightarrow> 'z filest_scheme \<Rightarrow> (int \<times> uchar list \<times> 'z filest_scheme) res" where
  "fileread devsw me killed f n s =
     (if fl_readable (y_file s f) = 0 then Ok (-1, [], s)
      else case fl_type (y_file s f) of
        FD_PIPE \<Rightarrow> piperead killed (fl_pipe (y_file s f)) n s
      | FD_INODE \<Rightarrow>
          bindR (ilock me (fl_ip (y_file s f)) s) (\<lambda>s.
          bindR (readi devsw me (fl_ip (y_file s f)) (fl_off (y_file s f)) (word_of_int n) s) (\<lambda>(r, bs, s).
            let s = (if r > 0 then upd_file f (\<lambda>x. x\<lparr>fl_off := fl_off x + word_of_int r\<rparr>) s else s)
            in bindR (iunlock me (fl_ip (y_file s f)) s) (\<lambda>s. Ok (r, bs, s))))
      | FD_NONE \<Rightarrow> Panic ''fileread'')"

text \<open>The loop of \<^verbatim>\<open>filewrite\<close> over an inode; every round that goes on writes at least one byte, so \<open>n\<close> rounds
  are enough fuel. The result is \<^verbatim>\<open>i\<close> at the end of the loop.\<close>

definition FILEWRITE_MAX :: int where
  "FILEWRITE_MAX = (int MAXOPBLOCKS - 1 - 1 - 2) div 2 * 512"

fun filewrite_loop :: "nat \<Rightarrow> 'z fdev_write \<Rightarrow> int \<Rightarrow> nat \<Rightarrow> uchar list \<Rightarrow> int \<Rightarrow> int \<Rightarrow> 'z filest_scheme \<Rightarrow> (int \<times> 'z filest_scheme) res" where
  "filewrite_loop 0 devsw me f src i n s = (if i < n then Diverge else Ok (i, s))"
| "filewrite_loop (Suc k) devsw me f src i n s =
     (if i < n
      then let n1 = min (n - i) FILEWRITE_MAX
        in bindR (begin_op s) (\<lambda>s.
           bindR (ilock me (fl_ip (y_file s f)) s) (\<lambda>s.
           bindR (writei devsw me (fl_ip (y_file s f)) (drop (nat i) src) (fl_off (y_file s f)) (word_of_int n1) s) (\<lambda>(r, s).
             let s = (if r > 0 then upd_file f (\<lambda>x. x\<lparr>fl_off := fl_off x + word_of_int r\<rparr>) s else s)
             in bindR (iunlock me (fl_ip (y_file s f)) s) (\<lambda>s.
                bindR (end_op me s) (\<lambda>s.
                  if r < 0 then Ok (i, s)
                  else if r \<noteq> n1 then Panic ''short filewrite''
                  else filewrite_loop k devsw me f src (i + r) n s)))))
      else Ok (i, s))"

definition filewrite :: "'z fdev_write \<Rightarrow> int \<Rightarrow> bool \<Rightarrow> nat \<Rightarrow> uchar list \<Rightarrow> int \<Rightarrow> 'z filest_scheme \<Rightarrow> (int \<times> 'z filest_scheme) res" where
  "filewrite devsw me killed f src n s =
     (if fl_writable (y_file s f) = 0 then Ok (-1, s)
      else case fl_type (y_file s f) of
        FD_PIPE \<Rightarrow> pipewrite killed (fl_pipe (y_file s f)) src n s
      | FD_INODE \<Rightarrow>
          bindR (filewrite_loop (nat n) devsw me f src 0 n s) (\<lambda>(i, s). Ok (if i = n then n else -1, s))
      | FD_NONE \<Rightarrow> Panic ''filewrite'')"

end
