(* ===== verification/FileIo.thy ===== *)
theory FileIo
  imports FsFile File
begin

text \<open>
  Writing through a file descriptor: \<^verbatim>\<open>filewrite\<close> cuts the data into pieces, each written in a transaction of its own,
  with the inode locked around it.
\<close>

section \<open>States that look the same\<close>

text \<open>The cache and the log are the same; the other variables may differ.\<close>

lemma cache_cong:
  assumes "f_buf t = f_buf s" "f_lru t = f_lru s" "f_ide t = f_ide s"
  shows "content t = content s" "pinned t = pinned s" "dirty t = dirty s" "cache_inv me H t = cache_inv me H s"
  using assms by (auto simp: content_eqI [OF assms] pinned_def dirty_def cache_inv_def)

lemma log_held_cong:
  assumes "f_buf t = f_buf s" "f_lru t = f_lru s" "f_ide t = f_ide s"
    and "g_start t = g_start s" "g_dev t = g_dev s" "g_n t = g_n s" "g_block t = g_block s"
  shows "log_held me H t = log_held me H s"
  using assms(3-7) cache_cong [OF assms(1-3)] by (simp add: log_held_def assms(1))

text \<open>A regular file is not affected by its lock nor by the contents of the log.\<close>

lemma data_blk_log: "bitmap_ok {} s \<Longrightarrow> data_blk s a \<Longrightarrow> \<not> in_log (g_start s) a"
  by (rule data_blk_ok(2))

lemma regular_cong:
  fixes s :: "'z fsst_scheme" and t :: "'y fsst_scheme"
  assumes R: "regular s ip" and c: "\<And>m. \<not> in_log (g_start s) m \<Longrightarrow> content t m = content s m"
    and f: "x_sb t = x_sb s" "g_start t = g_start s" "x_inode t ip = (x_inode s ip)\<lparr>i_lock := k\<rparr>"
  shows "regular t ip" "fbytes t ip = fbytes s ip" "slot t ip = slot s ip" "free_blk t = free_blk s"
proof -
  have r: "bitmap_ok {} s" "file_ok s ip" "unat (i_inum (x_inode s ip)) < unat (sb_ninodes (x_sb s))" "unat (d_size (x_inode s ip)) \<le> 140 * BSIZE"
    using R by (simp_all add: regular_def)
  have l: "layout s" using r(1) by (simp add: bitmap_ok_def)
  have b: "content t (bmapb s) = content s (bmapb s)" by (rule c) (rule layoutD(2) [OF l])
  show fr: "free_blk t = free_blk s" by (intro ext) (simp add: free_blk_def f b)
  have d: "content t (slot s ip j) = content s (slot s ip j)" if "j \<le> 140" "slot s ip j \<noteq> 0" for j
    by (rule c) (rule data_blk_log [OF r(1) file_okD(2) [OF r(2) that]])
  show sl: "slot t ip = slot s ip" using d [of 140] by (intro ext) (auto simp: slot_def f)
  have fd: "fdata t ip j = fdata s ip j" if "j < 140 * BSIZE" for j
    using d [of "j div BSIZE"] that by (simp add: fdata_def Let_def sl)
  show "fbytes t ip = fbytes s ip" unfolding fbytes_def f by (rule map_cong) (use fd r(4) in auto)
  have "content t (ib s ip) = content s (ib s ip)" by (rule c) (use ib_avail(1) [OF r(1,3)] in \<open>simp add: avail_def\<close>)
  then show "regular t ip"
    using R by (simp add: regular_def bitmap_ok_def layout_def file_ok_def data_blk_def synced_def dinode_of_def fr sl f cong: if_cong)
qed

section \<open>The end of a transaction\<close>

text \<open>The log with no operation in progress.\<close>

definition idle_log :: "int \<Rightarrow> 'z logst_scheme \<Rightarrow> bool" where
  "idle_log me s \<longleftrightarrow> log_ready me s \<and> g_n s = 0 \<and> g_outstanding s = 0 \<and> g_committing s = 0"

lemma end_op_run:
  fixes s :: "'z fsst_scheme"
  assumes L: "log_held me {} s" and g: "g_outstanding s = 1" "g_committing s = 0"
  shows "\<exists>t. end_op me s = Ok t \<and> idle_log me t \<and> x_inode t = x_inode s \<and> x_sb t = x_sb s \<and> fsst.more t = fsst.more s \<and>
     g_start t = g_start s \<and> g_size t = g_size s \<and>
     (\<forall>m. \<not> in_log (g_start s) m \<longrightarrow> content t m = content s m \<and> id_disk (f_ide t) 1 (unat m) = content s m)"
proof -
  let ?a = "s\<lparr>g_outstanding := 0, g_committing := 1\<rparr>"
  have R: "log_ready me s" using L by (simp add: log_ready_def)
  have ca: "content ?a = content s" "pinned ?a = pinned s" by (rule cache_cong; simp)+
  have "\<exists>t. commit me ?a = Ok t \<and> log_ready me t \<and> g_n t = 0 \<and> log_same ?a t \<and>
      (\<forall>m. \<not> in_log (g_start s) m \<longrightarrow> content t m = content s m \<and> id_disk (f_ide t) 1 (unat m) = content s m)"
  proof (cases "0 < g_n s")
    case True
    then have "txn_ok me ?a" using log_ready_txn [OF R] by (simp add: txn_committing)
    from commit_done [OF this] show ?thesis unfolding ca by simp blast
  next
    case False
    then have n: "g_n s = 0" using L by (simp add: log_held_def)
    then have "pinned s = {}" "cache_inv me {} s" using L by (simp_all add: log_held_def)
    then have "content s m = id_disk (f_ide s) 1 (unat m)" for m by (simp add: content_clean)
    moreover have "log_ready me ?a" using L log_held_cong [of ?a s me "{}"] by (simp add: log_ready_def)
    ultimately show ?thesis using n by (simp add: commit_def log_same_def ca)
  qed
  then obtain t where t: "commit me ?a = Ok t" "log_ready me t" "g_n t = 0" "log_same ?a t"
      "\<forall>m. \<not> in_log (g_start s) m \<longrightarrow> content t m = content s m \<and> id_disk (f_ide t) 1 (unat m) = content s m"
    by blast
  let ?t = "wake CLog (t\<lparr>g_committing := 0\<rparr>)"
  have ct: "content ?t = content t" by (rule cache_cong(1)) (simp_all add: wake_def)
  have m: "logst.more t = logst.more s" "g_start t = g_start s" "g_size t = g_size s" "g_outstanding t = 0" using t(4) by (simp_all add: log_same_def)
  have x: "x_inode t = x_inode s" "x_sb t = x_sb s" "fsst.more t = fsst.more s" using m(1) by (cases s; cases t; simp)+
  have "end_op me s = Ok ?t" using g t(1) by (simp add: end_op_def Let_def)
  moreover have "idle_log me ?t" using t(2,3) m(4) unfolding idle_log_def ready_fields(2) by (simp add: wake_def)
  ultimately show ?thesis using t(5) ct m x by (intro exI [of _ ?t]) (simp add: wake_def)
qed

section \<open>One piece\<close>

text \<open>A regular file that is cached and not locked, while no operation is in progress.\<close>

definition file_idle :: "int \<Rightarrow> nat \<Rightarrow> 'z fsst_scheme \<Rightarrow> bool" where
  "file_idle me ip s \<longleftrightarrow> idle_log me s \<and> 9 \<le> g_size s \<and> regular s ip \<and> 1 \<le> i_ref (x_inode s ip) \<and> i_valid (x_inode s ip) \<noteq> 0 \<and>
     sk_locked (i_lock (x_inode s ip)) = 0"

lemma nblocks_le:
  assumes "n \<le> 1536"
  shows "nblocks o1 n \<le> 4"
proof (cases "n = 0")
  case False
  have "(o1 + n - 1) div 512 \<le> (o1 + 1535) div 512" by (rule div_le_mono) (use assms in simp)
  also have "(o1 + 1535) div 512 < o1 div 512 + 4"
  proof (rule less_mult_imp_div_less)
    have "o1 mod 512 < 512" by simp
    with div_mult_mod_eq [of o1 512] show "o1 + 1535 < (o1 div 512 + 4) * 512" unfolding add_mult_distrib by linarith
  qed
  finally show ?thesis by (simp add: nblocks_def le_diff_conv)
qed (simp add: nblocks_def)

lemma meta_fresh: "card (meta s ip) + fresh s ip \<le> 3"
proof -
  have "card {bmapb s, ib s ip} \<le> 2" "card {bmapb s, ib s ip, slot s ip 140} \<le> 3" by (simp_all add: card_insert_if)
  then show ?thesis by (simp add: meta_def fresh_def insert_commute)
qed

text \<open>From \<^verbatim>\<open>begin_op\<close> to \<^verbatim>\<open>end_op\<close>: at most seven blocks are logged, below the \<^const>\<open>MAXOPBLOCKS\<close> that \<^verbatim>\<open>begin_op\<close> reserves.\<close>

lemma write_piece:
  fixes s :: "'z filest_scheme"
  assumes I: "file_idle me ip s" and o: "off = fl_off (y_file s f)" "unat off \<le> length (fbytes s ip)" "unat off + n \<le> 140 * BSIZE" "0 < n" "n \<le> 1536" "n \<le> length src"
    and m: "fresh s ip + 4 + M \<le> card (Collect (free_blk s))"
  shows "\<exists>a b c d t. begin_op s = Ok a \<and> ilock me ip a = Ok b \<and> y_file b = y_file s \<and> writei dw me ip src off (of_nat n) b = Ok (int n, c) \<and> y_file c = y_file s \<and> card (pinned c) \<le> 7 \<and>
     iunlock me ip (upd_file f (\<lambda>x. x\<lparr>fl_off := fl_off x + of_nat n\<rparr>) c) = Ok d \<and> end_op me d = Ok t \<and> file_idle me ip t \<and>
     y_file t = (y_file s)(f := (y_file s f)\<lparr>fl_off := off + of_nat n\<rparr>) \<and>
     fbytes t ip = take (unat off) (fbytes s ip) @ take n src @ drop (unat off + n) (fbytes s ip) \<and>
     fresh t ip + M \<le> card (Collect (free_blk t)) \<and> (\<forall>m. \<not> in_log (g_start s) m \<longrightarrow> id_disk (f_ide t) 1 (unat m) = content t m) \<and> g_start t = g_start s"
proof -
  have s: "log_held me {} s" "g_n s = 0" "g_outstanding s = 0" "g_committing s = 0" "9 \<le> g_size s" "regular s ip" "1 \<le> i_ref (x_inode s ip)"
      "i_valid (x_inode s ip) \<noteq> 0" "sk_locked (i_lock (x_inode s ip)) = 0"
    using I by (simp_all add: file_idle_def idle_log_def log_ready_def)
  define k where "k = (i_lock (x_inode s ip))\<lparr>sk_locked := 1, sk_pid := me\<rparr>"
  define b where "b = upd_inode ip (\<lambda>x. x\<lparr>i_lock := k\<rparr>) (s\<lparr>g_outstanding := 1\<rparr>)"
  have a: "begin_op s = Ok (s\<lparr>g_outstanding := 1\<rparr>)" using s by (simp add: begin_op_def)
  have b: "ilock me ip (s\<lparr>g_outstanding := 1\<rparr>) = Ok b" using s by (simp add: ilock_def lock_inode_def acquiresleep_def upd_inode_def b_def k_def)
  have bf: "f_buf b = f_buf s" "f_lru b = f_lru s" "f_ide b = f_ide s" "g_start b = g_start s" "g_dev b = g_dev s" "g_n b = g_n s" "g_block b = g_block s"
      "g_size b = g_size s" "g_outstanding b = 1" "g_committing b = 0" "x_sb b = x_sb s" "x_inode b ip = (x_inode s ip)\<lparr>i_lock := k\<rparr>"
      "fsst.more b = fsst.more s" "y_file b = y_file s"
    using s(4) by (simp_all add: b_def upd_inode_def)
  note cb = cache_cong(1,2) [OF bf(1-3)]
  have Lb: "log_held me {} b" using s(1) log_held_cong [OF bf(1-7)] by simp
  have ps: "pinned s = {}" using s(1,2) by (simp add: log_held_def)
  have Ob: "in_op me {} b" using Lb s(5) by (simp add: in_op_def cache_op_def cap_def cb ps bf)
  have "\<And>m. content b m = content s m" by (simp add: cb)
  note rb = regular_cong [OF s(6) this bf(11,4,12)]
  have fb: "meta b ip = meta s ip" "fresh b ip = fresh s ip" by (simp_all add: meta_def fresh_def rb(3) bf)
  have nb: "nblocks (unat off) n \<le> 4" by (rule nblocks_le [OF o(5)])
  have bud: "budget 8 M (nblocks (unat off) n) {} b ip"
    using meta_fresh [of s ip] nb m s(5) unfolding budget_def fb cb ps rb(4) by (simp add: cap_def bf)
  have n: "unat (of_nat n :: uint) = n" using o(5) by (simp add: unat_of_nat take_bit_nat_eq_self)
  have o': "unat off \<le> length (fbytes b ip)" "unat off + unat (of_nat n :: uint) \<le> 140 * BSIZE" "unat (of_nat n :: uint) \<le> length src"
      "budget 8 M (nblocks (unat off) (unat (of_nat n :: uint))) {} b ip"
    using o bud unfolding n rb(2) by simp_all
  obtain c where c: "writei dw me ip src off (of_nat n) b = Ok (int n, c)" "in_op me {} c" "regular c ip" "budget 8 M 0 {} c ip"
      "fbytes c ip = take (unat off) (fbytes s ip) @ take n src @ drop (unat off + n) (fbytes s ip)" "ctl c = ctl b"
      "\<exists>g. x_inode c ip = (x_inode b ip)\<lparr>d_size := d_size (x_inode c ip), d_addrs := g\<rparr>"
    using writei_run [OF Ob rb(1) o', of dw] unfolding n rb(2) by blast
  have ctl: "g_outstanding c = 1" "g_committing c = 0" "g_start c = g_start s" "g_size c = g_size s" "fsst.more c = fsst.more s" "x_sb c = x_sb s"
    using c(6) bf by simp_all
  have yc: "y_file c = y_file s" using ctl(5) by (cases s; cases c) simp
  obtain g where g: "x_inode c ip = (x_inode b ip)\<lparr>d_size := d_size (x_inode c ip), d_addrs := g\<rparr>" using c(7) by blast
  have xc: "i_lock (x_inode c ip) = k" "i_ref (x_inode c ip) = i_ref (x_inode s ip)" "i_valid (x_inode c ip) = i_valid (x_inode s ip)"
    using arg_cong [OF g, of i_lock] arg_cong [OF g, of i_ref] arg_cong [OF g, of i_valid] by (simp_all add: bf)
  define d where "d = release_inode ip (upd_file f (\<lambda>x. x\<lparr>fl_off := fl_off x + of_nat n\<rparr>) c)"
  have dd: "iunlock me ip (upd_file f (\<lambda>x. x\<lparr>fl_off := fl_off x + of_nat n\<rparr>) c) = Ok d"
    using xc s(7) by (simp add: iunlock_def d_def upd_file_def holdingsleep_def k_def)
  have df: "f_buf d = f_buf c" "f_lru d = f_lru c" "f_ide d = f_ide c" "g_start d = g_start c" "g_dev d = g_dev c" "g_n d = g_n c" "g_block d = g_block c"
      "g_size d = g_size s" "g_outstanding d = 1" "g_committing d = 0" "x_sb d = x_sb c" "x_inode d ip = (x_inode c ip)\<lparr>i_lock := releasesleep k\<rparr>"
      "y_file d = (y_file s)(f := (y_file s f)\<lparr>fl_off := off + of_nat n\<rparr>)"
    using ctl yc xc o(1) by (simp_all add: d_def release_inode_def wake_def upd_inode_def upd_file_def)
  have Ld: "log_held me {} d" using c(2) log_held_cong [OF df(1-7)] by (simp add: in_op_def cache_op_def)
  note cd = cache_cong(1,2) [OF df(1-3)]
  obtain t where t: "end_op me d = Ok t" "idle_log me t" "x_inode t = x_inode d" "x_sb t = x_sb d" "fsst.more t = fsst.more d" "g_start t = g_start d"
      "g_size t = g_size d" "\<forall>m. \<not> in_log (g_start d) m \<longrightarrow> content t m = content d m \<and> id_disk (f_ide t) 1 (unat m) = content d m"
    using end_op_run [OF Ld df(9,10)] by blast
  have ti: "x_inode t ip = (x_inode c ip)\<lparr>i_lock := releasesleep k\<rparr>" "x_sb t = x_sb c" "g_start t = g_start c" using t df by simp_all
  have "\<And>m. \<not> in_log (g_start c) m \<Longrightarrow> content t m = content c m" using t(8) cd(1) df(4) by simp
  note rt = regular_cong [OF c(3) this ti(2,3,1)]
  have "fresh t ip = fresh c ip" by (simp add: fresh_def rt(3))
  then have fr: "fresh t ip + M \<le> card (Collect (free_blk t))" using c(4) by (simp add: budget_def rt(4))
  have "card (pinned c) \<le> card (pinned c \<union> meta c ip \<union> {})" by (rule card_mono) auto
  then have p7: "card (pinned c) \<le> 7" using c(4) by (simp add: budget_def)
  have yt: "y_file t = y_file d" using t(5) by (cases t; cases d) simp
  have "file_idle me ip t"
    using t(2,7) rt(1) df(8) s(5,7,8) xc by (simp add: file_idle_def ti releasesleep_def)
  moreover have "\<forall>m. \<not> in_log (g_start s) m \<longrightarrow> id_disk (f_ide t) 1 (unat m) = content t m" using t(8) df(4) ctl(3) by simp
  ultimately show ?thesis using a b bf(14) c(1,5) dd t(1) fr p7 yt df(13) yc rt(2) ti(3) ctl(3)
    by (intro exI [of _ "s\<lparr>g_outstanding := 1\<rparr>"] exI [of _ b] exI [of _ c] exI [of _ d] exI [of _ t]) simp
qed

section \<open>All pieces\<close>

lemma splice_twice:
  assumes "o1 \<le> length fb" "m \<le> length xs"
  defines "a \<equiv> take o1 fb @ take m xs @ drop (o1 + m) fb"
  shows "take (o1 + m) a @ take r (drop m xs) @ drop (o1 + m + r) a = take o1 fb @ take (m + r) xs @ drop (o1 + (m + r)) fb" "o1 + m \<le> length a"
proof -
  have "take (o1 + m) a = take o1 fb @ take m xs" "drop (o1 + m + r) a = drop (o1 + (m + r)) fb" using assms(1,2) by (simp_all add: a_def ac_simps)
  then show "take (o1 + m) a @ take r (drop m xs) @ drop (o1 + m + r) a = take o1 fb @ take (m + r) xs @ drop (o1 + (m + r)) fb"
    by (simp add: take_add)
  show "o1 + m \<le> length a" using assms(1,2) by (simp add: a_def)
qed

text \<open>The number of pieces.\<close>

definition pieces :: "nat \<Rightarrow> nat" where
  "pieces n = (n + 1535) div 1536"

lemma pieces_step:
  assumes "0 < n"
  shows "pieces n = Suc (pieces (n - min n 1536))"
proof (cases "n \<le> 1536")
  case True
  have "(n + 1535) div 1536 = 1" by (rule div_nat_eqI) (use assms True in simp_all)
  then show ?thesis using True by (simp add: pieces_def min_def)
next
  case False
  then have "n + 1535 = (n - 1536 + 1535) + 1536" by simp
  then have "(n + 1535) div 1536 = Suc ((n - 1536 + 1535) div 1536)" by (metis div_add_self2 Suc_eq_plus1 zero_neq_numeral)
  then show ?thesis using False by (simp add: pieces_def min_def)
qed

lemma filewrite_loop_run:
  fixes s :: "'z filest_scheme"
  assumes "file_idle me ip s" "fl_ip (y_file s f) = ip" "i \<le> n" "n \<le> length src" "n - i \<le> k"
    and "unat (fl_off (y_file s f)) \<le> length (fbytes s ip)" "unat (fl_off (y_file s f)) + (n - i) \<le> 140 * BSIZE"
    and "fresh s ip + 4 * pieces (n - i) \<le> card (Collect (free_blk s))"
  shows "\<exists>t. filewrite_loop k dw me f src (int i) (int n) s = Ok (int n, t) \<and> file_idle me ip t \<and> g_start t = g_start s \<and>
     fbytes t ip = take (unat (fl_off (y_file s f))) (fbytes s ip) @ take (n - i) (drop i src) @ drop (unat (fl_off (y_file s f)) + (n - i)) (fbytes s ip) \<and>
     y_file t = (y_file s)(f := (y_file s f)\<lparr>fl_off := fl_off (y_file s f) + of_nat (n - i)\<rparr>) \<and>
     (i < n \<longrightarrow> (\<forall>m. \<not> in_log (g_start s) m \<longrightarrow> id_disk (f_ide t) 1 (unat m) = content t m))"
  using assms
proof (induction k arbitrary: i s)
  case 0
  then show ?case by simp
next
  case (Suc k)
  show ?case
  proof (cases "i = n")
    case True
    then show ?thesis using Suc.prems by simp
  next
    case False
    then have lt: "i < n" using Suc.prems(3) by simp
    define off where "off = fl_off (y_file s f)"
    define m where "m = min (n - i) 1536"
    have m: "0 < m" "m \<le> 1536" "m \<le> n - i" using lt by (simp_all add: m_def)
    have pc: "pieces (n - i) = Suc (pieces (n - (i + m)))" using pieces_step [of "n - i"] lt by (simp add: m_def)
    have xs: "m \<le> length (drop i src)" using m(3) Suc.prems(4) by simp
    have ol: "unat off + m \<le> 140 * BSIZE" "unat off \<le> length (fbytes s ip)" using Suc.prems(6,7) m(3) by (simp_all add: off_def)
    have fr: "fresh s ip + 4 + 4 * pieces (n - (i + m)) \<le> card (Collect (free_blk s))" using Suc.prems(8) pc by simp
    obtain a b c d t where t: "begin_op s = Ok a" "ilock me ip a = Ok b" "y_file b = y_file s" "writei dw me ip (drop i src) off (of_nat m) b = Ok (int m, c)" "y_file c = y_file s"
        "iunlock me ip (upd_file f (\<lambda>x. x\<lparr>fl_off := fl_off x + of_nat m\<rparr>) c) = Ok d" "end_op me d = Ok t" "file_idle me ip t"
        "y_file t = (y_file s)(f := (y_file s f)\<lparr>fl_off := off + of_nat m\<rparr>)"
        "fbytes t ip = take (unat off) (fbytes s ip) @ take m (drop i src) @ drop (unat off + m) (fbytes s ip)"
        "fresh t ip + 4 * pieces (n - (i + m)) \<le> card (Collect (free_blk t))" "g_start t = g_start s"
        "\<forall>m. \<not> in_log (g_start s) m \<longrightarrow> id_disk (f_ide t) 1 (unat m) = content t m"
      using write_piece [OF Suc.prems(1) off_def ol(2,1) m(1,2) xs fr, of dw] by blast
    have ou: "unat (off + of_nat m) = unat off + m" using ol(1) m(2) by (simp add: unat_word_ariths(1) unat_of_nat take_bit_nat_eq_self)
    note sp = splice_twice [OF ol(2) xs]
    have ya: "y_file a = y_file s" using t(1) by (auto simp: begin_op_def split: if_splits)
    have mi: "min (int n - int i) FILEWRITE_MAX = int m" using lt by (simp add: m_def FILEWRITE_MAX_def of_nat_diff)
    have ft: "fl_ip (y_file t f) = ip" "fl_off (y_file t f) = off + of_nat m" using t(9) Suc.prems(2) by simp_all
    have uc: "y_file (upd_file f g c) f = g (y_file s f)" for g using t(5) by (simp add: upd_file_def)
    have step: "filewrite_loop (Suc k) dw me f src (int i) (int n) s = filewrite_loop k dw me f src (int (i + m)) (int n) t"
      using lt t(1-7) ya m(1) Suc.prems(2) by (simp add: mi Let_def off_def uc of_nat_diff)
    have "\<exists>u. filewrite_loop k dw me f src (int (i + m)) (int n) t = Ok (int n, u) \<and> file_idle me ip u \<and> g_start u = g_start t \<and>
        fbytes u ip = take (unat (fl_off (y_file t f))) (fbytes t ip) @ take (n - (i + m)) (drop (i + m) src) @ drop (unat (fl_off (y_file t f)) + (n - (i + m))) (fbytes t ip) \<and>
        y_file u = (y_file t)(f := (y_file t f)\<lparr>fl_off := fl_off (y_file t f) + of_nat (n - (i + m))\<rparr>) \<and>
        (i + m < n \<longrightarrow> (\<forall>m. \<not> in_log (g_start t) m \<longrightarrow> id_disk (f_ide u) 1 (unat m) = content u m))"
      by (rule Suc.IH [OF t(8) ft(1)]) (use m Suc.prems(4,5,7) ft(2) ou sp(2) t(10,11) in \<open>auto simp: off_def\<close>)
    then obtain u where u: "filewrite_loop k dw me f src (int (i + m)) (int n) t = Ok (int n, u)" "file_idle me ip u" "g_start u = g_start t"
        "fbytes u ip = take (unat off + m) (fbytes t ip) @ take (n - (i + m)) (drop (i + m) src) @ drop (unat off + m + (n - (i + m))) (fbytes t ip)"
        "y_file u = (y_file t)(f := (y_file t f)\<lparr>fl_off := fl_off (y_file t f) + of_nat (n - (i + m))\<rparr>)"
        "i + m < n \<longrightarrow> (\<forall>m. \<not> in_log (g_start t) m \<longrightarrow> id_disk (f_ide u) 1 (unat m) = content u m)"
      unfolding ft(2) ou by blast
    have dr: "drop (i + m) src = drop m (drop i src)" "m + (n - (i + m)) = n - i" using m(3) by (simp_all add: add.commute)
    have "fbytes u ip = take (unat off) (fbytes s ip) @ take (n - i) (drop i src) @ drop (unat off + (n - i)) (fbytes s ip)"
      using u(4) sp(1) [of "n - (i + m)"] unfolding t(10) dr by simp
    moreover have "(of_nat m + of_nat (n - (i + m)) :: uint) = of_nat (n - i)" unfolding dr(2) [symmetric] by simp
    then have "y_file u = (y_file s)(f := (y_file s f)\<lparr>fl_off := off + of_nat (n - i)\<rparr>)" using u(5) t(9) ft(2) by (simp add: add.assoc)
    moreover have "\<forall>m. \<not> in_log (g_start s) m \<longrightarrow> id_disk (f_ide u) 1 (unat m) = content u m"
    proof (cases "i + m < n")
      case True
      then show ?thesis using u(6) t(12) by simp
    next
      case False
      then have "u = t" using u(1) m(3) lt by (cases k) auto
      then show ?thesis using t(13) by simp
    qed
    moreover have "filewrite_loop (Suc k) dw me f src (int i) (int n) s = Ok (int n, u)" using step u(1) by (simp only:)
    moreover have "g_start u = g_start s" using u(3) t(12) by simp
    ultimately show ?thesis using u(2) unfolding off_def by blast
  qed
qed

section \<open>Properties\<close>

text \<open>
  C8: Writing to an open file is correct and bounded. On a writable descriptor of a regular file that is not locked, with no
  operation in progress and enough free blocks, \<^verbatim>\<open>filewrite\<close> of any number of bytes that fit returns that
  number: the bytes are spliced into the file at the offset of the descriptor, the offset moves
  past them, no lock and no operation is left, and what was written is on disk. It does so in transactions of at most
  1536 bytes; none of them logs more than seven blocks, fewer than \<^const>\<open>MAXOPBLOCKS\<close>.
\<close>

theorem filewrite_correct:
  fixes s :: "'z filest_scheme"
  assumes I: "file_idle me ip s" and f: "fl_writable (y_file s f) \<noteq> 0" "fl_type (y_file s f) = FD_INODE" "fl_ip (y_file s f) = ip"
    and o: "unat (fl_off (y_file s f)) \<le> length (fbytes s ip)" "unat (fl_off (y_file s f)) + length src \<le> 140 * BSIZE"
    and r: "1 + 4 * pieces (length src) \<le> card (Collect (free_blk s))"
  shows "(\<exists>t. filewrite dw me killed f src (int (length src)) s = Ok (int (length src), t) \<and> file_idle me ip t \<and>
       fbytes t ip = take (unat (fl_off (y_file s f))) (fbytes s ip) @ src @ drop (unat (fl_off (y_file s f)) + length src) (fbytes s ip) \<and>
       y_file t = (y_file s)(f := (y_file s f)\<lparr>fl_off := fl_off (y_file s f) + of_nat (length src)\<rparr>) \<and>
       (src \<noteq> [] \<longrightarrow> (\<forall>m. \<not> in_log (g_start s) m \<longrightarrow> id_disk (f_ide t) 1 (unat m) = content t m))) \<and>
     (\<forall>bs. bs \<noteq> [] \<longrightarrow> int (length bs) \<le> FILEWRITE_MAX \<longrightarrow> length bs \<le> length src \<longrightarrow>
       (\<exists>a b c. begin_op s = Ok a \<and> ilock me ip a = Ok b \<and>
          writei dw me ip bs (fl_off (y_file s f)) (of_nat (length bs)) b = Ok (int (length bs), c) \<and> card (pinned c) \<le> 7))"
proof -
  have fr: "fresh s ip \<le> 1" by (simp add: fresh_def)
  have pre: "length src - 0 \<le> length src" "unat (fl_off (y_file s f)) + (length src - 0) \<le> 140 * BSIZE"
      "fresh s ip + 4 * pieces (length src - 0) \<le> card (Collect (free_blk s))" using o(2) r fr by simp_all
  obtain t where t: "filewrite_loop (length src) dw me f src (int 0) (int (length src)) s = Ok (int (length src), t)" "file_idle me ip t"
      "fbytes t ip = take (unat (fl_off (y_file s f))) (fbytes s ip) @ take (length src - 0) (drop 0 src) @ drop (unat (fl_off (y_file s f)) + (length src - 0)) (fbytes s ip)"
      "y_file t = (y_file s)(f := (y_file s f)\<lparr>fl_off := fl_off (y_file s f) + of_nat (length src - 0)\<rparr>)"
      "0 < length src \<longrightarrow> (\<forall>m. \<not> in_log (g_start s) m \<longrightarrow> id_disk (f_ide t) 1 (unat m) = content t m)"
    using filewrite_loop_run [OF I f(3) le0 order_refl pre(1) o(1) pre(2,3), of dw] by blast
  have "filewrite dw me killed f src (int (length src)) s = Ok (int (length src), t)" using f(1,2) t(1) by (simp add: filewrite_def)
  then have "\<exists>t. filewrite dw me killed f src (int (length src)) s = Ok (int (length src), t) \<and> file_idle me ip t \<and>
       fbytes t ip = take (unat (fl_off (y_file s f))) (fbytes s ip) @ src @ drop (unat (fl_off (y_file s f)) + length src) (fbytes s ip) \<and>
       y_file t = (y_file s)(f := (y_file s f)\<lparr>fl_off := fl_off (y_file s f) + of_nat (length src)\<rparr>) \<and>
       (src \<noteq> [] \<longrightarrow> (\<forall>m. \<not> in_log (g_start s) m \<longrightarrow> id_disk (f_ide t) 1 (unat m) = content t m))"
    using t(2-5) by (intro exI [of _ t]) simp
  moreover have "\<exists>a b c. begin_op s = Ok a \<and> ilock me ip a = Ok b \<and>
      writei dw me ip bs (fl_off (y_file s f)) (of_nat (length bs)) b = Ok (int (length bs), c) \<and> card (pinned c) \<le> 7"
    if b: "bs \<noteq> []" "int (length bs) \<le> FILEWRITE_MAX" "length bs \<le> length src" for bs
  proof -
    have "0 < pieces (length src)" using b(1,3) by (cases src) (simp_all add: pieces_def)
    then have "fresh s ip + 4 + 0 \<le> card (Collect (free_blk s))" using r fr by linarith
    moreover have "unat (fl_off (y_file s f)) + length bs \<le> 140 * BSIZE" "0 < length bs" "length bs \<le> 1536" using b o(2) by (simp_all add: FILEWRITE_MAX_def)
    ultimately show ?thesis using write_piece [OF I refl o(1) _ _ _ order_refl, where M = 0 and dw = dw] by blast
  qed
  ultimately show ?thesis by blast
qed

text \<open>The file system of theory \<open>FsBlock\<close> with the empty file open for writing.\<close>

definition demo_open :: file_t where
  "demo_open = \<lparr>fl_type = FD_INODE, fl_ref = 1, fl_readable = 1, fl_writable = 1, fl_pipe = 0, fl_ip = 0, fl_off = 0\<rparr>"

definition demo_filest :: filest where
  "demo_filest = \<lparr>f_wakes = [], f_buf = f_buf demo_fs, f_lru = f_lru demo_fs, f_ide = f_ide demo_fs, g_start = 2, g_size = 30, g_outstanding = 0,
     g_committing = 0, g_dev = 1, g_n = 0, g_block = (\<lambda>_. 0), x_sb = mkfs_sb,
     x_inode = (\<lambda>_. demo_file_inode\<lparr>i_lock := \<lparr>sk_locked = 0, sk_name = ''inode'', sk_pid = 0\<rparr>\<rparr>),
     y_kmem = \<lparr>km_mem = (\<lambda>_. 0), km_use_lock = 0, km_freelist = 0, km_end = 0, km_data = 0\<rparr>, y_file = (\<lambda>_. demo_open),
     y_pipe = (\<lambda>_. \<lparr>pi_data = (\<lambda>_. 0), pi_nread = 0, pi_nwrite = 0, pi_readopen = 0, pi_writeopen = 0\<rparr>)\<rparr>"

lemma demo_filest_idle: "file_idle me 0 demo_filest" "fbytes demo_filest 0 = []" "free_blk demo_filest = free_blk demo_fs"
proof -
  have f: "f_buf demo_filest = f_buf demo_fs" "f_lru demo_filest = f_lru demo_fs" "f_ide demo_filest = f_ide demo_fs" "x_sb demo_filest = x_sb demo_fs"
      "g_start demo_filest = g_start demo_fs" "g_dev demo_filest = g_dev demo_fs" "g_n demo_filest = g_n demo_fs" "g_block demo_filest = g_block demo_fs"
      "x_inode demo_filest 0 = (x_inode demo_fs 0)\<lparr>i_lock := \<lparr>sk_locked = 0, sk_name = ''inode'', sk_pid = 0\<rparr>\<rparr>"
    by (simp_all add: demo_filest_def demo_fs_def Let_def)
  note c = cache_cong(1) [OF f(1-3)]
  have "\<And>m. content demo_filest m = content demo_fs m" by (simp add: c)
  note r = regular_cong [OF demo_regular this f(4,5,9)]
  show "fbytes demo_filest 0 = []" "free_blk demo_filest = free_blk demo_fs" using r by (simp_all add: fbytes_def demo_fs_facts demo_file_inode_def)
  have "log_held me {} demo_filest" using demo_fs_facts(1) [of me] log_held_cong [OF f(1-3,5-8)] by (simp add: in_op_def cache_op_def)
  then show "file_idle me 0 demo_filest"
    using r(1) by (simp add: file_idle_def idle_log_def log_ready_def f(9) demo_fs_facts demo_file_inode_def) (simp add: demo_filest_def)
qed

theorem filewrite_correct_witness:
  "\<exists>t. filewrite (\<lambda>_. None) 1 False 3 [7, 8, 9] 3 demo_filest = Ok (3, t) \<and> fbytes t 0 = [7, 8, 9] \<and> fl_off (y_file t 3) = 3"
proof -
  have "Collect (free_blk demo_filest) = {60..<1000}" by (auto simp: demo_free demo_filest_idle(3))
  then have r: "1 + 4 * pieces (length [7 :: uchar, 8, 9]) \<le> card (Collect (free_blk demo_filest))" by (simp add: pieces_def)
  have y: "y_file demo_filest 3 = demo_open" by (simp add: demo_filest_def)
  have o: "unat (fl_off (y_file demo_filest 3)) \<le> length (fbytes demo_filest 0)" "unat (fl_off (y_file demo_filest 3)) + length [7 :: uchar, 8, 9] \<le> 140 * BSIZE"
    by (simp_all add: y demo_open_def)
  have f: "fl_writable (y_file demo_filest 3) \<noteq> 0" "fl_type (y_file demo_filest 3) = FD_INODE" "fl_ip (y_file demo_filest 3) = 0"
    by (simp_all add: y demo_open_def)
  from filewrite_correct [OF demo_filest_idle(1) f o r, where me = 1 and killed = False and dw = "\<lambda>_. None"]
  obtain t where t: "filewrite (\<lambda>_. None) 1 False 3 [7, 8, 9] (int (length [7 :: uchar, 8, 9])) demo_filest = Ok (int (length [7 :: uchar, 8, 9]), t)"
      "fbytes t 0 = take (unat (fl_off (y_file demo_filest 3))) (fbytes demo_filest 0) @ [7, 8, 9] @
         drop (unat (fl_off (y_file demo_filest 3)) + length [7 :: uchar, 8, 9]) (fbytes demo_filest 0)"
      "y_file t = (y_file demo_filest)(3 := (y_file demo_filest 3)\<lparr>fl_off := fl_off (y_file demo_filest 3) + of_nat (length [7 :: uchar, 8, 9])\<rparr>)"
    by blast
  have "fl_off (y_file t 3) = 3" "fbytes t 0 = [7, 8, 9]" using t(2,3) by (simp_all add: y demo_open_def demo_filest_idle(2))
  then show ?thesis using t(1) by auto
qed

end
