(* ===== verification/Console.thy ===== *)
theory Console
  imports Bytes CString ProcState
begin

text \<open>
  The console: console.c with the serial port (uart.c) and the keyboard (kbd.c, kbd.h) it reads from. The
  section under \<^verbatim>\<open>cons.lock\<close> is one step. Output goes to the screen memory and to the serial port; the
  bytes written to the ports of the latter are kept in order. The characters that \<^verbatim>\<open>getc\<close> delivers in
  one call of \<^verbatim>\<open>consoleintr\<close> are an argument. Where \<^verbatim>\<open>consoleread\<close> sleeps its execution is cut.
\<close>

section \<open>State\<close>

abbreviation (input) INPUT_BUF :: nat where "INPUT_BUF \<equiv> 128"
abbreviation (input) BACKSPACE :: int where "BACKSPACE \<equiv> 0x100"
abbreviation (input) COM1 :: nat where "COM1 \<equiv> 0x3f8"

text \<open>\<open>c_buf\<close>, \<open>c_r\<close>, \<open>c_w\<close>, \<open>c_e\<close> are \<^verbatim>\<open>input\<close>; \<open>c_pos\<close> is the cursor register of the display
  controller, \<open>c_crt\<close> its memory; \<open>c_ports\<close> lists the bytes written to the serial port.\<close>

record cons =
  c_locking :: int
  c_panicked :: int
  c_buf :: "nat \<Rightarrow> uchar"
  c_r :: uint
  c_w :: uint
  c_e :: uint
  c_pos :: ushort
  c_crt :: "nat \<Rightarrow> ushort"
  c_uart :: int
  c_ports :: "(nat \<times> uchar) list"

section \<open>Serial port\<close>

definition uart_out :: "nat \<Rightarrow> uchar \<Rightarrow> cons \<Rightarrow> cons" where
  "uart_out p v c = c\<lparr>c_ports := c_ports c @ [(p, v)]\<rparr>"

definition uartputc :: "int \<Rightarrow> cons \<Rightarrow> cons" where
  "uartputc ch c = (if c_uart c = 0 then c else uart_out COM1 (word_of_int ch) c)"

fun uart_puts :: "int list \<Rightarrow> cons \<Rightarrow> cons" where
  "uart_puts [] c = c"
| "uart_puts (x # xs) c = uart_puts xs (uartputc x c)"

text \<open>\<open>st\<close> is what \<^verbatim>\<open>inb(COM1+5)\<close> reads.\<close>

definition uartinit :: "uchar \<Rightarrow> cons \<Rightarrow> cons" where
  "uartinit st c =
     (let c = uart_out (COM1 + 2) 0 c; c = uart_out (COM1 + 3) 0x80 c; c = uart_out (COM1 + 0) (115200 div 9600) c;
          c = uart_out (COM1 + 1) 0 c; c = uart_out (COM1 + 3) 0x03 c; c = uart_out (COM1 + 4) 0 c;
          c = uart_out (COM1 + 1) 0x01 c
      in if st = 0xFF then c
         else uart_puts [120, 118, 54, 46, 46, 46, 10] (c\<lparr>c_uart := 1\<rparr>))"

definition uartgetc :: "uchar \<Rightarrow> uchar \<Rightarrow> cons \<Rightarrow> int" where
  "uartgetc st data c = (if c_uart c = 0 then -1 else if st AND 0x01 = 0 then -1 else uint data)"

section \<open>Screen\<close>

definition scroll :: "(nat \<Rightarrow> ushort) \<Rightarrow> nat \<Rightarrow> (nat \<Rightarrow> ushort)" where
  "scroll crt pos = (\<lambda>i. if pos \<le> i \<and> i < 24 * 80 then 0 else if i < 23 * 80 then crt (i + 80) else crt i)"

definition cgaputc :: "int \<Rightarrow> cons \<Rightarrow> cons res" where
  "cgaputc ch c =
     (let pos = unat (c_pos c);
          (pos, crt) = (if ch = 10 then (pos + (80 - pos mod 80), c_crt c)
                        else if ch = BACKSPACE then (pos - 1, c_crt c)
                        else (pos + 1, (c_crt c)(pos := (word_of_int ch AND 0xff) OR 0x0700)))
      in if pos > 25 * 80 then Panic ''pos under/overflow''
         else let (pos, crt) = (if pos div 80 \<ge> 24 then (pos - 80, scroll crt (pos - 80)) else (pos, crt))
              in Ok (c\<lparr>c_pos := of_nat pos, c_crt := crt(pos := 0x0720)\<rparr>))"

definition consputc :: "int \<Rightarrow> cons \<Rightarrow> cons res" where
  "consputc ch c =
     (if c_panicked c \<noteq> 0 then Wait ''panicked''
      else cgaputc ch (if ch = BACKSPACE then uart_puts [8, 32, 8] c else uartputc ch c))"

fun cons_puts :: "int list \<Rightarrow> cons \<Rightarrow> cons res" where
  "cons_puts [] c = Ok c"
| "cons_puts (x # xs) c = bindR (consputc x c) (cons_puts xs)"

section \<open>Formatted output\<close>

definition digits :: cstr where
  "digits = [48, 49, 50, 51, 52, 53, 54, 55, 56, 57, 97, 98, 99, 100, 101, 102]"

text \<open>The digits in the order in which the loop of \<^verbatim>\<open>printint\<close> puts them into \<^verbatim>\<open>buf\<close>, the last one first; the
  base is at least 2, so 32 rounds are enough.\<close>

fun print_digits :: "nat \<Rightarrow> nat \<Rightarrow> nat \<Rightarrow> nat list" where
  "print_digits 0 base x = []"
| "print_digits (Suc k) base x = x mod base # (if x div base \<noteq> 0 then print_digits k base (x div base) else [])"

definition printint_chars :: "uint \<Rightarrow> nat \<Rightarrow> bool \<Rightarrow> cstr" where
  "printint_chars xx base sign =
     (let sign = (sign \<and> sint xx < 0);
          x = (if sign then - xx else xx);
          buf = map (\<lambda>d. digits ! d) (print_digits 32 base (unat x)) @ (if sign then [45] else [])
      in rev buf)"

definition printint :: "uint \<Rightarrow> nat \<Rightarrow> bool \<Rightarrow> cons \<Rightarrow> cons res" where
  "printint xx base sign c = cons_puts (map uint (printint_chars xx base sign)) c"

text \<open>The arguments after the format: integers, and pointers to strings (null is \<open>PStr None\<close>).\<close>

datatype parg = PInt uint | PStr "cstr option"

definition null_str :: cstr where
  "null_str = [40, 110, 117, 108, 108, 41]"

fun cprintf_loop :: "cstr \<Rightarrow> parg list \<Rightarrow> cons \<Rightarrow> cons res" where
  "cprintf_loop [] args c = Ok c"
| "cprintf_loop (x # fmt) args c =
     (if x = 0 then Ok c
      else if x \<noteq> 37 then bindR (consputc (uint x) c) (cprintf_loop fmt args)
      else case fmt of
        [] \<Rightarrow> Ok c
      | y # fmt' \<Rightarrow>
          if y = 0 then Ok c
          else if y = 100 \<or> y = 120 \<or> y = 112
          then (case args of
                  PInt v # args' \<Rightarrow>
                    bindR (printint v (if y = 100 then 10 else 16) (y = 100) c) (cprintf_loop fmt' args')
                | _ \<Rightarrow> Undef ''cprintf'')
          else if y = 115
          then (case args of
                  PStr s # args' \<Rightarrow>
                    bindR (cons_puts (map uint (str_of (case s of None \<Rightarrow> null_str | Some s \<Rightarrow> s))) c) (cprintf_loop fmt' args')
                | _ \<Rightarrow> Undef ''cprintf'')
          else if y = 37 then bindR (consputc 37 c) (cprintf_loop fmt' args)
          else bindR (consputc 37 c) (\<lambda>c. bindR (consputc (uint y) c) (cprintf_loop fmt' args)))"

definition cprintf :: "cstr option \<Rightarrow> parg list \<Rightarrow> cons \<Rightarrow> cons res" where
  "cprintf fmt args c = (case fmt of None \<Rightarrow> Panic ''null fmt'' | Some f \<Rightarrow> cprintf_loop f args c)"

fun print_pcs :: "uint list \<Rightarrow> cons \<Rightarrow> cons res" where
  "print_pcs [] c = Ok c"
| "print_pcs (x # xs) c = bindR (cprintf (Some [32, 37, 112]) [PInt x] c) (print_pcs xs)"

definition panic_head :: cstr where
  "panic_head = [108, 97, 112, 105, 99, 105, 100, 32, 37, 100, 58, 32, 112, 97, 110, 105, 99, 58, 32]"

text \<open>What \<^verbatim>\<open>panic(s)\<close> does before it spins for ever.\<close>

definition panic :: "uint \<Rightarrow> cstr \<Rightarrow> uint list \<Rightarrow> cons \<Rightarrow> cons res" where
  "panic lapicid s pcs c =
     bindR (cprintf (Some panic_head) [PInt lapicid] (c\<lparr>c_locking := 0\<rparr>)) (\<lambda>c.
     bindR (cprintf (Some s) [] c) (\<lambda>c.
     bindR (cprintf (Some [10]) [] c) (\<lambda>c.
     bindR (print_pcs pcs c) (\<lambda>c. Ok (c\<lparr>c_panicked := 1\<rparr>)))))"

section \<open>Input\<close>

text \<open>The loop for Control-U. It removes at most \<^const>\<open>INPUT_BUF\<close> characters when \<open>input.e - input.w\<close> is at most
  that many, which the buffer guarantees; the fuel is the number of rounds.\<close>

fun kill_line :: "nat \<Rightarrow> cons \<Rightarrow> cons res" where
  "kill_line 0 c = Diverge"
| "kill_line (Suc k) c =
     (if c_e c \<noteq> c_w c \<and> c_buf c (unat ((c_e c - 1) mod of_nat INPUT_BUF)) \<noteq> 10
      then bindR (consputc BACKSPACE (c\<lparr>c_e := c_e c - 1\<rparr>)) (kill_line k)
      else Ok c)"

text \<open>One round of the loop of \<^verbatim>\<open>consoleintr\<close>: whether the process list was asked for, and the calls of \<^verbatim>\<open>wakeup\<close>.\<close>

definition console_char :: "int \<Rightarrow> cons \<Rightarrow> (bool \<times> chan list \<times> cons) res" where
  "console_char ch c =
     (if ch = 16 then Ok (True, [], c)
      else if ch = 21 then bindR (kill_line (Suc INPUT_BUF) c) (\<lambda>c. Ok (False, [], c))
      else if ch = 8 \<or> ch = 0x7f
      then (if c_e c \<noteq> c_w c
            then bindR (consputc BACKSPACE (c\<lparr>c_e := c_e c - 1\<rparr>)) (\<lambda>c. Ok (False, [], c))
            else Ok (False, [], c))
      else if ch \<noteq> 0 \<and> c_e c - c_r c < of_nat INPUT_BUF
      then let ch = (if ch = 13 then 10 else ch);
               c = c\<lparr>c_buf := (c_buf c)(unat (c_e c mod of_nat INPUT_BUF) := word_of_int ch), c_e := c_e c + 1\<rparr>
           in bindR (consputc ch c) (\<lambda>c.
                if ch = 10 \<or> ch = 4 \<or> c_e c = c_r c + of_nat INPUT_BUF
                then Ok (False, [CInput], c\<lparr>c_w := c_e c\<rparr>)
                else Ok (False, [], c))
      else Ok (False, [], c))"

fun consoleintr :: "int list \<Rightarrow> cons \<Rightarrow> (bool \<times> chan list \<times> cons) res" where
  "consoleintr [] c = Ok (False, [], c)"
| "consoleintr (ch # cs) c =
     bindR (console_char ch c) (\<lambda>(d, w, c).
     bindR (consoleintr cs c) (\<lambda>(d', w', c). Ok (d \<or> d', w @ w', c)))"

text \<open>The loop of \<^verbatim>\<open>consoleread\<close> with \<open>n\<close> bytes to go out of \<open>target\<close>: whether it must sleep, the bytes stored, the
  value of \<^verbatim>\<open>n\<close> where it stops.\<close>

fun consread_loop :: "nat \<Rightarrow> nat \<Rightarrow> cons \<Rightarrow> bool \<times> uchar list \<times> nat \<times> cons" where
  "consread_loop 0 target c = (False, [], 0, c)"
| "consread_loop (Suc n) target c =
     (if c_r c = c_w c then (True, [], Suc n, c)
      else let ch = c_buf c (unat (c_r c mod of_nat INPUT_BUF))
           in if ch = 4 then (False, [], Suc n, if Suc n < target then c else c\<lparr>c_r := c_r c + 1\<rparr>)
              else if ch = 10 then (False, [ch], n, c\<lparr>c_r := c_r c + 1\<rparr>)
              else let (b, bs, m, c) = consread_loop n target (c\<lparr>c_r := c_r c + 1\<rparr>) in (b, ch # bs, m, c))"

definition consoleinit :: "cons \<Rightarrow> cons" where
  "consoleinit c = c\<lparr>c_locking := 1\<rparr>"

section \<open>Keyboard\<close>

definition shiftcode :: "uint \<Rightarrow> uint" where
  "shiftcode d = (if d = 0x1D \<or> d = 0x9D then 2 else if d = 0x2A \<or> d = 0x36 then 1 else if d = 0x38 \<or> d = 0xB8 then 4 else 0)"

definition togglecode :: "uint \<Rightarrow> uint" where
  "togglecode d = (if d = 0x3A then 8 else if d = 0x45 then 16 else if d = 0x46 then 32 else 0)"

text \<open>The entries of the three maps that are given by index.\<close>

definition keypad :: "uint \<Rightarrow> uint" where
  "keypad d =
     (if d = 0xC8 then 0xE2 else if d = 0xD0 then 0xE3 else if d = 0xC9 then 0xE6 else if d = 0xD1 then 0xE7
      else if d = 0xCB then 0xE4 else if d = 0xCD then 0xE5 else if d = 0x97 then 0xE0 else if d = 0xCF then 0xE1
      else if d = 0xD2 then 0xE8 else if d = 0xD3 then 0xE9 else 0)"

definition key_table :: "uint list \<Rightarrow> uint \<Rightarrow> uint \<Rightarrow> uint \<Rightarrow> uint" where
  "key_table xs enter slash d =
     (if unat d < length xs then xs ! unat d else if d = 0x9C then enter else if d = 0xB5 then slash else keypad d)"

definition normalmap :: "uint \<Rightarrow> uint" where
  "normalmap = key_table
     [0, 0x1B, 49, 50, 51, 52, 53, 54, 55, 56, 57, 48, 45, 61, 8, 9,
      113, 119, 101, 114, 116, 121, 117, 105, 111, 112, 91, 93, 10, 0, 97, 115,
      100, 102, 103, 104, 106, 107, 108, 59, 39, 96, 0, 92, 122, 120, 99, 118,
      98, 110, 109, 44, 46, 47, 0, 42, 0, 32, 0, 0, 0, 0, 0, 0,
      0, 0, 0, 0, 0, 0, 0, 55, 56, 57, 45, 52, 53, 54, 43, 49,
      50, 51, 48, 46, 0, 0, 0, 0] 10 47"

definition shiftmap :: "uint \<Rightarrow> uint" where
  "shiftmap = key_table
     [0, 0x1B, 33, 64, 35, 36, 37, 94, 38, 42, 40, 41, 95, 43, 8, 9,
      81, 87, 69, 82, 84, 89, 85, 73, 79, 80, 123, 125, 10, 0, 65, 83,
      68, 70, 71, 72, 74, 75, 76, 58, 34, 126, 0, 124, 90, 88, 67, 86,
      66, 78, 77, 60, 62, 63, 0, 42, 0, 32, 0, 0, 0, 0, 0, 0,
      0, 0, 0, 0, 0, 0, 0, 55, 56, 57, 45, 52, 53, 54, 43, 49,
      50, 51, 48, 46, 0, 0, 0, 0] 10 47"

text \<open>\<^verbatim>\<open>C('/')\<close> is \<open>47 - 64\<close>, which is \<open>0xEF\<close> as a \<^verbatim>\<open>uchar\<close>.\<close>

definition ctlmap :: "uint \<Rightarrow> uint" where
  "ctlmap = key_table
     [0, 0, 0, 0, 0, 0, 0, 0, 0, 0, 0, 0, 0, 0, 0, 0,
      17, 23, 5, 18, 20, 25, 21, 9, 15, 16, 0, 0, 13, 0, 1, 19,
      4, 6, 7, 8, 10, 11, 12, 0, 0, 0, 0, 28, 26, 24, 3, 22,
      2, 14, 13, 0, 0, 0xEF, 0, 0] 13 0xEF"

definition charcode :: "uint \<Rightarrow> uint \<Rightarrow> uint" where
  "charcode k = (if k = 0 then normalmap else if k = 1 then shiftmap else ctlmap)"

text \<open>\<open>st\<close> and \<open>data\<close> are what the two ports read; \<open>shift\<close> is the static variable.\<close>

definition kbdgetc :: "uchar \<Rightarrow> uchar \<Rightarrow> uint \<Rightarrow> int \<times> uint" where
  "kbdgetc st data0 shift =
     (if st AND 0x01 = 0 then (-1, shift)
      else let data = ucast data0 :: uint
           in if data = 0xE0 then (0, shift OR 64)
              else if data AND 0x80 \<noteq> 0
              then let data = (if shift AND 64 \<noteq> 0 then data else data AND 0x7F)
                   in (0, shift AND NOT (shiftcode data OR 64))
              else let (data, shift) = (if shift AND 64 \<noteq> 0 then (data OR 0x80, shift AND NOT 64) else (data, shift));
                       shift = (shift OR shiftcode data) XOR togglecode data;
                       c = charcode (shift AND 3) data;
                       c = (if shift AND 8 \<noteq> 0
                            then if 97 \<le> c \<and> c \<le> 122 then c - 32 else if 65 \<le> c \<and> c \<le> 90 then c + 32 else c
                            else c)
                   in (uint c, shift))"

text \<open>The scan codes waiting in the controller, read one by one until its status says there are no more.\<close>

fun kbd_chars :: "uchar list \<Rightarrow> uint \<Rightarrow> int list \<times> uint" where
  "kbd_chars [] shift = ([], shift)"
| "kbd_chars (d # ds) shift =
     (let (c, shift) = kbdgetc 0x01 d shift; (cs, shift) = kbd_chars ds shift in (c # cs, shift))"

definition kbdintr :: "uchar list \<Rightarrow> uint \<Rightarrow> cons \<Rightarrow> ((bool \<times> chan list \<times> cons) \<times> uint) res" where
  "kbdintr ds shift c =
     (let (cs, shift) = kbd_chars ds shift in bindR (consoleintr cs c) (\<lambda>r. Ok (r, shift)))"

definition uartintr :: "uchar list \<Rightarrow> cons \<Rightarrow> (bool \<times> chan list \<times> cons) res" where
  "uartintr ds c = consoleintr (takeWhile (\<lambda>x. 0 \<le> x) (map (\<lambda>d. uartgetc 0x01 d c) ds)) c"

section \<open>The screen\<close>

text \<open>The cursor is on one of the 24 rows above the last; characters then never run over.\<close>

definition screen_ok :: "cons \<Rightarrow> bool" where
  "screen_ok c \<longleftrightarrow> c_panicked c = 0 \<and> unat (c_pos c) < 24 * 80"

definition same_input :: "cons \<Rightarrow> cons \<Rightarrow> bool" where
  "same_input c d \<longleftrightarrow> c_buf d = c_buf c \<and> c_r d = c_r c \<and> c_w d = c_w c \<and> c_e d = c_e c"

lemma uart_puts_screen:
  "c_panicked (uart_puts xs c) = c_panicked c \<and> c_pos (uart_puts xs c) = c_pos c \<and> same_input c (uart_puts xs c)"
  by (induction xs arbitrary: c) (simp_all add: uartputc_def uart_out_def same_input_def)

lemma cgaputc_run:
  assumes "screen_ok c"
  shows "\<exists>d. cgaputc x c = Ok d \<and> screen_ok d \<and> same_input c d"
proof -
  let ?p = "unat (c_pos c)"
  have p: "?p < 1920" "c_panicked c = 0" using assms by (simp_all add: screen_ok_def)
  obtain q crt where q: "(if x = 10 then (?p + (80 - ?p mod 80), c_crt c)
                        else if x = BACKSPACE then (?p - 1, c_crt c)
                        else (?p + 1, (c_crt c)(?p := (word_of_int x AND 0xff) OR 0x0700))) = (q, crt)"
    by (metis surj_pair)
  have "?p div 80 < 24" "?p mod 80 < 80" "?p = 80 * (?p div 80) + ?p mod 80"
    using p(1) by (simp_all add: less_mult_imp_div_less)
  then have "?p + (80 - ?p mod 80) \<le> 1920" by linarith
  then have q1: "q \<le> 1920" using q p(1) by (auto split: if_splits)
  have small: "unat (of_nat r :: ushort) = r" if "r \<le> 1920" for r using that by (simp add: unat_of_nat)
  define r where "r = (if q div 80 \<ge> 24 then q - 80 else q)"
  have "q = 80 * (q div 80) + q mod 80" "q mod 80 < 80" by simp_all
  then have r: "r < 1920" using q1 unfolding r_def by (cases "q div 80 \<ge> 24") auto
  have "\<exists>crt'. cgaputc x c = Ok (c\<lparr>c_pos := of_nat r, c_crt := crt'\<rparr>)"
    using q1 unfolding cgaputc_def Let_def q by (cases "q div 80 \<ge> 24") (simp_all add: r_def, blast+)
  then obtain crt' where "cgaputc x c = Ok (c\<lparr>c_pos := of_nat r, c_crt := crt'\<rparr>)" ..
  then show ?thesis using p(2) r small [of r] by (simp add: screen_ok_def same_input_def)
qed

lemma consputc_run:
  assumes "screen_ok c"
  shows "\<exists>d. consputc x c = Ok d \<and> screen_ok d \<and> same_input c d"
proof -
  let ?u = "if x = BACKSPACE then uart_puts [8, 32, 8] c else uartputc x c"
  have u: "screen_ok ?u" "same_input c ?u"
    using assms uart_puts_screen [of "[8, 32, 8]" c] uart_puts_screen [of "[x]" c] by (auto simp: screen_ok_def)
  obtain d where "cgaputc x ?u = Ok d" "screen_ok d" "same_input ?u d" using cgaputc_run [OF u(1)] by blast
  then show ?thesis using assms u(2) by (auto simp: consputc_def screen_ok_def same_input_def)
qed

lemma cons_puts_run: "screen_ok c \<Longrightarrow> \<exists>d. cons_puts xs c = Ok d \<and> screen_ok d \<and> same_input c d"
proof (induction xs arbitrary: c)
  case Nil
  then show ?case by (simp add: same_input_def)
next
  case (Cons x xs)
  then obtain d where d: "consputc x c = Ok d" "screen_ok d" "same_input c d" using consputc_run by blast
  then show ?case using Cons.IH [OF d(2)] by (auto simp: same_input_def)
qed

section \<open>The input buffer as two queues\<close>

text \<open>\<open>com\<close> are the characters up to \<open>input.w\<close>, which readers may have, \<open>ed\<close> those of the line being edited.\<close>

definition cons_rep :: "cons \<Rightarrow> uchar list \<Rightarrow> uchar list \<Rightarrow> bool" where
  "cons_rep c com ed \<longleftrightarrow> c_w c = c_r c + of_nat (length com) \<and> c_e c = c_w c + of_nat (length ed) \<and>
     length (com @ ed) \<le> INPUT_BUF \<and> 10 \<notin> set ed \<and>
     (\<forall>i < length (com @ ed). c_buf c ((unat (c_r c) + i) mod INPUT_BUF) = (com @ ed) ! i)"

lemma cons_index: "unat ((w + of_nat i) mod 128 :: uint) = (unat w + i) mod 128"
  using ring_index [of 128 w i] by simp

lemma cons_rep_same: "same_input c d \<Longrightarrow> cons_rep d com ed = cons_rep c com ed"
  by (simp add: same_input_def cons_rep_def)

lemma cons_rep_e: "cons_rep c com ed \<Longrightarrow> c_e c = c_r c + of_nat (length (com @ ed))"
  by (simp add: cons_rep_def)

lemma of_nat_small: "m \<le> 128 \<Longrightarrow> n \<le> 128 \<Longrightarrow> (of_nat m = (of_nat n :: uint)) = (m = n)"
  by (subst word_unat_eq_iff) (simp add: unat_of_nat)

lemma cons_ed_empty: "cons_rep c com ed \<Longrightarrow> c_e c = c_w c \<longleftrightarrow> ed = []"
  using of_nat_small [of "length ed" 0] by (auto simp: cons_rep_def)

lemma cons_com_empty: "cons_rep c com ed \<Longrightarrow> c_r c = c_w c \<longleftrightarrow> com = []"
  using of_nat_small [of "length com" 0] by (auto simp: cons_rep_def)

lemma cons_room: "cons_rep c com ed \<Longrightarrow> c_e c - c_r c < of_nat INPUT_BUF \<longleftrightarrow> length (com @ ed) < INPUT_BUF"
proof -
  assume r: "cons_rep c com ed"
  define n where "n = length (com @ ed)"
  have "c_e c - c_r c = of_nat n" using cons_rep_e [OF r] by (simp add: n_def)
  moreover have "n \<le> 128" using r by (simp add: cons_rep_def n_def)
  ultimately show ?thesis unfolding n_def [symmetric] by (simp add: word_less_nat_alt unat_of_nat)
qed

lemma cons_last:
  assumes "cons_rep c com (ed @ [x])"
  shows "c_buf c (unat ((c_e c - 1) mod of_nat INPUT_BUF)) = x" "cons_rep (c\<lparr>c_e := c_e c - 1\<rparr>) com ed"
proof -
  have "c_e c - 1 = c_r c + of_nat (length (com @ ed))" using cons_rep_e [OF assms] by simp
  then have "unat ((c_e c - 1) mod 128) = (unat (c_r c) + length (com @ ed)) mod 128" by (simp only: cons_index)
  then show "c_buf c (unat ((c_e c - 1) mod of_nat INPUT_BUF)) = x"
    using assms by (auto simp: cons_rep_def nth_append dest!: spec [of _ "length (com @ ed)"])
  have "c_buf c ((unat (c_r c) + i) mod 128) = (com @ ed) ! i" if "i < length (com @ ed)" for i
    using assms that by (auto simp: cons_rep_def nth_append dest!: spec [of _ i])
  then show "cons_rep (c\<lparr>c_e := c_e c - 1\<rparr>) com ed" using assms by (auto simp: cons_rep_def)
qed

lemma cons_add:
  fixes x :: uchar
  assumes r: "cons_rep c com ed" and n: "length (com @ ed) < INPUT_BUF"
  defines "d \<equiv> c\<lparr>c_buf := (c_buf c)(unat (c_e c mod of_nat INPUT_BUF) := x), c_e := c_e c + 1\<rparr>"
  shows "x \<noteq> 10 \<Longrightarrow> cons_rep d com (ed @ [x])" "cons_rep (d\<lparr>c_w := c_e d\<rparr>) (com @ ed @ [x]) []"
    "c_e d = c_r d + of_nat INPUT_BUF \<longleftrightarrow> length (com @ ed) = INPUT_BUF - 1"
proof -
  let ?n = "length (com @ ed)" and ?k = "unat (c_r c)"
  have e: "c_e c = c_r c + of_nat ?n" by (rule cons_rep_e [OF r])
  have slot: "unat (c_e c mod of_nat INPUT_BUF) = (?k + ?n) mod 128" unfolding e using cons_index [of "c_r c" ?n] by simp
  have buf: "c_buf d ((?k + i) mod 128) = ((com @ ed) @ [x]) ! i" if "i \<le> ?n" for i
  proof (cases "i = ?n")
    case True
    then show ?thesis unfolding d_def slot by simp
  next
    case False
    then have "i < ?n" using that by simp
    then have "(?k + i) mod 128 \<noteq> (?k + ?n) mod 128" using ring_slots [of i ?n 128 ?k] n by simp
    moreover have "((com @ ed) @ [x]) ! i = (com @ ed) ! i" using \<open>i < ?n\<close> by (simp only: nth_append if_True)
    ultimately show ?thesis using r \<open>i < ?n\<close> unfolding d_def slot by (simp add: cons_rep_def)
  qed
  have w: "c_w d = c_r d + of_nat (length com)" "c_r d = c_r c" using r by (simp_all add: d_def cons_rep_def)
  have e': "c_e d = c_r d + of_nat (length (com @ ed @ [x]))" unfolding d_def by (simp add: e)
  show "cons_rep d com (ed @ [x])" if "x \<noteq> 10"
    using that r n buf w(1) e' unfolding cons_rep_def w(2) by (simp add: less_Suc_eq_le)
  show "cons_rep (d\<lparr>c_w := c_e d\<rparr>) (com @ ed @ [x]) []"
    using n buf e' unfolding cons_rep_def by (simp add: less_Suc_eq_le w(2))
  show "c_e d = c_r d + of_nat INPUT_BUF \<longleftrightarrow> length (com @ ed) = INPUT_BUF - 1"
    using of_nat_small [of "Suc ?n" 128] n unfolding e' by auto
qed

section \<open>Line editing\<close>

text \<open>What a character typed does to the committed characters and to the line being edited.\<close>

definition edit :: "int \<Rightarrow> uchar list \<times> uchar list \<Rightarrow> uchar list \<times> uchar list" where
  "edit x = (\<lambda>(com, ed).
     if x = 16 then (com, ed)
     else if x = 21 then (com, [])
     else if x = 8 \<or> x = 0x7f then (com, butlast ed)
     else if x = 0 \<or> length (com @ ed) \<ge> INPUT_BUF then (com, ed)
     else let x = (if x = 13 then 10 else x)
          in if x = 10 \<or> x = 4 \<or> length (com @ ed) = INPUT_BUF - 1 then (com @ ed @ [word_of_int x], [])
             else (com, ed @ [word_of_int x]))"

lemma kill_line_run:
  assumes "screen_ok c" "cons_rep c com ed" "length ed < k"
  shows "\<exists>d. kill_line k c = Ok d \<and> screen_ok d \<and> cons_rep d com []"
  using assms
proof (induction ed arbitrary: c k rule: rev_induct)
  case Nil
  then show ?case using cons_ed_empty [OF Nil.prems(2)] by (cases k) auto
next
  case (snoc x ed)
  obtain k' where k: "k = Suc k'" using snoc.prems(3) by (cases k) auto
  let ?c = "c\<lparr>c_e := c_e c - 1\<rparr>"
  note l = cons_last [OF snoc.prems(2)]
  have x: "x \<noteq> 10" using snoc.prems(2) by (simp add: cons_rep_def)
  obtain d where d: "consputc BACKSPACE ?c = Ok d" "screen_ok d" "same_input ?c d"
    using consputc_run [of ?c BACKSPACE] snoc.prems(1) by (auto simp: screen_ok_def)
  have "\<exists>e. kill_line k' d = Ok e \<and> screen_ok e \<and> cons_rep e com []"
    using snoc.IH [OF d(2), of k'] cons_rep_same [OF d(3)] l(2) snoc.prems(3) k by simp
  moreover have "c_e c \<noteq> c_w c" using cons_ed_empty [OF snoc.prems(2)] by simp
  ultimately show ?case using l(1) x d(1) k by simp
qed

lemma word_int_ne10: "0 \<le> x \<Longrightarrow> x \<le> 255 \<Longrightarrow> (word_of_int x = (10 :: uchar)) = (x = 10)"
  by (auto simp: word_uint_eq_iff uint_word_of_int)

lemma console_char_run:
  assumes s: "screen_ok c" and r: "cons_rep c com ed" and x: "0 \<le> x" "x \<le> 255"
  shows "\<exists>p w d. console_char x c = Ok (p, w, d) \<and> screen_ok d \<and> cons_rep d (fst (edit x (com, ed))) (snd (edit x (com, ed))) \<and>
     w = (if fst (edit x (com, ed)) = com then [] else [CInput])"
proof -
  consider "x = 16" | "x = 21" | "x = 8 \<or> x = 0x7f" | "x \<notin> {16, 21, 8, 0x7f}" by auto
  then show ?thesis
  proof cases
    case 1
    then show ?thesis using s r by (auto simp: console_char_def edit_def)
  next
    case 2
    have "length ed < Suc INPUT_BUF" using r by (simp add: cons_rep_def)
    then obtain d where "kill_line (Suc INPUT_BUF) c = Ok d" "screen_ok d" "cons_rep d com []"
      using kill_line_run [OF s r] by blast
    then show ?thesis using 2 by (auto simp: console_char_def edit_def simp del: kill_line.simps)
  next
    case 3
    show ?thesis
    proof (cases ed rule: rev_cases)
      case Nil
      then show ?thesis using 3 s r cons_ed_empty [OF r] by (auto simp: console_char_def edit_def)
    next
      case (snoc ys y)
      let ?c = "c\<lparr>c_e := c_e c - 1\<rparr>"
      have l: "cons_rep ?c com ys" using cons_last(2) r snoc by blast
      obtain d where d: "consputc BACKSPACE ?c = Ok d" "screen_ok d" "same_input ?c d"
        using consputc_run [of ?c BACKSPACE] s by (auto simp: screen_ok_def)
      then show ?thesis
        using 3 l cons_rep_same [OF d(3)] cons_ed_empty [OF r] snoc by (auto simp: console_char_def edit_def)
    qed
  next
    case 4
    show ?thesis
    proof (cases "x = 0 \<or> length (com @ ed) \<ge> INPUT_BUF")
      case True
      then have "\<not> (x \<noteq> 0 \<and> c_e c - c_r c < of_nat INPUT_BUF)" using cons_room [OF r] by auto
      then show ?thesis using 4 True s r by (auto simp: console_char_def edit_def)
    next
      case False
      then have room: "length (com @ ed) < INPUT_BUF" "c_e c - c_r c < of_nat INPUT_BUF" "x \<noteq> 0" using cons_room [OF r] by auto
      define y :: int where "y = (if x = 13 then 10 else x)"
      have y: "0 \<le> y" "y \<le> 255" using x by (simp_all add: y_def)
      define d where "d = c\<lparr>c_buf := (c_buf c)(unat (c_e c mod of_nat INPUT_BUF) := word_of_int y), c_e := c_e c + 1\<rparr>"
      note a = cons_add [OF r room(1), of "word_of_int y", folded d_def]
      have "screen_ok d" using s by (simp add: screen_ok_def d_def)
      then obtain e where e: "consputc y d = Ok e" "screen_ok e" "same_input d e" using consputc_run by blast
      have full: "c_e e = c_r e + of_nat INPUT_BUF \<longleftrightarrow> length (com @ ed) = INPUT_BUF - 1"
        using a(3) e(3) by (simp add: same_input_def)
      have rep: "cons_rep (e\<lparr>c_w := c_e e\<rparr>) (com @ ed @ [word_of_int y]) []"
        using a(2) cons_rep_same [of "d\<lparr>c_w := c_e d\<rparr>" "e\<lparr>c_w := c_e e\<rparr>"] e(3) by (simp add: same_input_def)
      have run: "console_char x c =
          (if y = 10 \<or> y = 4 \<or> length (com @ ed) = INPUT_BUF - 1 then Ok (False, [CInput], e\<lparr>c_w := c_e e\<rparr>) else Ok (False, [], e))"
        using 4 room e(1) full unfolding console_char_def Let_def y_def [symmetric] d_def [symmetric] by simp
      have ed: "edit x (com, ed) =
          (if y = 10 \<or> y = 4 \<or> length (com @ ed) = INPUT_BUF - 1 then (com @ ed @ [word_of_int y], []) else (com, ed @ [word_of_int y]))"
        using 4 room unfolding edit_def Let_def y_def [symmetric] by simp
      have "y \<noteq> 10 \<Longrightarrow> cons_rep e com (ed @ [word_of_int y])"
        using a(1) cons_rep_same [OF e(3)] word_int_ne10 [OF y] by simp
      then show ?thesis using run ed rep e(2) by (auto simp: screen_ok_def)
    qed
  qed
qed

lemma edit_grows: "\<exists>zs. fst (edit x (com, ed)) = com @ zs"
  by (auto simp: edit_def Let_def)

lemma edits_grow: "\<exists>zs. fst (fold edit xs (com, ed)) = com @ zs"
proof (induction xs arbitrary: com ed)
  case (Cons x xs)
  obtain com' ed' where e: "edit x (com, ed) = (com', ed')" by (cases "edit x (com, ed)")
  then obtain z1 where "com' = com @ z1" using edit_grows [of x com ed] by auto
  then show ?case using Cons.IH [of com' ed'] e by auto
qed simp

section \<open>Properties\<close>

text \<open>
  C19: The console edits lines as its comments say, for any sequence of characters typed at keyboard or serial port:
  Control-U empties the line being edited, Backspace and Delete remove its last character, other characters are
  appended while fewer than \<^const>\<open>INPUT_BUF\<close> are unread, carriage return becoming newline; a newline, Control-D or
  a full buffer hands the line over to readers and wakes them. Readers lose nothing that was handed over; the cursor stays on
  the screen and the output routines never panic.
\<close>

theorem console_line_discipline:
  assumes "screen_ok c" "cons_rep c com ed" "\<And>x. x \<in> set xs \<Longrightarrow> 0 \<le> x \<and> x \<le> 255"
  shows "\<exists>p w d. consoleintr xs c = Ok (p, w, d) \<and> screen_ok d \<and>
     cons_rep d (fst (fold edit xs (com, ed))) (snd (fold edit xs (com, ed))) \<and>
     (\<exists>zs. fst (fold edit xs (com, ed)) = com @ zs \<and> (w = [] \<longleftrightarrow> zs = []))"
  using assms
proof (induction xs arbitrary: c com ed)
  case Nil
  then show ?case by auto
next
  case (Cons x xs)
  obtain com' ed' where e: "edit x (com, ed) = (com', ed')" by (cases "edit x (com, ed)")
  obtain p w d where d: "console_char x c = Ok (p, w, d)" "screen_ok d" "cons_rep d com' ed'" "w = (if com' = com then [] else [CInput])"
    using console_char_run [OF Cons.prems(1,2), of x] Cons.prems(3) e by auto
  obtain q v f zs where f: "consoleintr xs d = Ok (q, v, f)" "screen_ok f"
      "cons_rep f (fst (fold edit xs (com', ed'))) (snd (fold edit xs (com', ed')))"
      "fst (fold edit xs (com', ed')) = com' @ zs" "v = [] \<longleftrightarrow> zs = []"
    using Cons.IH [OF d(2,3)] Cons.prems(3) by (meson list.set_intros(2))
  obtain z1 where "com' = com @ z1" using edit_grows [of x com ed] e by auto
  then show ?case using d f e by auto
qed

definition demo_cons :: cons where
  "demo_cons = \<lparr>c_locking = 1, c_panicked = 0, c_buf = (\<lambda>_. 0), c_r = 0xFFFFFFFE, c_w = 0xFFFFFFFE, c_e = 0xFFFFFFFE, c_pos = 1915,
     c_crt = (\<lambda>_. 0), c_uart = 1, c_ports = []\<rparr>"

theorem console_line_discipline_witness:
  "\<exists>p w d. consoleintr [97, 98, 8, 99, 13] demo_cons = Ok (p, w, d) \<and> screen_ok d \<and> cons_rep d [97, 99, 10] [] \<and> w \<noteq> []"
proof -
  have a: "screen_ok demo_cons" "cons_rep demo_cons [] []" by (simp_all add: screen_ok_def cons_rep_def demo_cons_def)
  have x: "\<And>x. x \<in> set [97, 98, 8, 99, 13] \<Longrightarrow> 0 \<le> x \<and> x \<le> (255 :: int)" by auto
  have e: "fold edit [97, 98, 8, 99, 13] ([], []) = ([97, 99, 10], [])" by code_simp
  obtain p w d zs where "consoleintr [97, 98, 8, 99, 13] demo_cons = Ok (p, w, d)" "screen_ok d" "cons_rep d [97, 99, 10] []"
      "[97, 99, 10 :: uchar] = [] @ zs" "w = [] \<longleftrightarrow> zs = []"
    using console_line_discipline [OF a, of "[97, 98, 8, 99, 13]", OF x, simplified e fst_conv snd_conv] by blast
  moreover from this(4) have "zs \<noteq> []" by auto
  ultimately show ?thesis by blast
qed

text \<open>The number that digits denote, the least significant first.\<close>

definition digits_val :: "nat \<Rightarrow> nat list \<Rightarrow> nat" where
  "digits_val base ds = foldr (\<lambda>d v. d + base * v) ds 0"

lemma print_digits_run:
  assumes "2 \<le> base" "x < base ^ k" "0 < k"
  shows "digits_val base (print_digits k base x) = x \<and> (\<forall>d \<in> set (print_digits k base x). d < base) \<and>
     print_digits k base x \<noteq> [] \<and> (x \<noteq> 0 \<longrightarrow> last (print_digits k base x) \<noteq> 0)"
  using assms
proof (induction k arbitrary: x)
  case 0
  then show ?case by simp
next
  case (Suc k)
  show ?case
  proof (cases "x div base = 0")
    case True
    then show ?thesis using Suc.prems by (auto simp: digits_val_def div_eq_0_iff)
  next
    case False
    then have "0 < k" using Suc.prems by (cases k) auto
    moreover have "x div base < base ^ k" using Suc.prems(2) by (simp add: less_mult_imp_div_less mult.commute)
    ultimately show ?thesis using Suc.IH [of "x div base"] Suc.prems False by (simp add: digits_val_def)
  qed
qed

lemma print_digits_length: "x < base ^ n \<Longrightarrow> 0 < n \<Longrightarrow> length (print_digits k base x) \<le> n"
proof (induction k arbitrary: x n)
  case (Suc k)
  show ?case
  proof (cases "x div base = 0")
    case True
    then show ?thesis using Suc.prems by simp
  next
    case False
    then obtain m where n: "n = Suc m" "0 < m" using Suc.prems by (cases n; cases "n - 1") (auto simp: div_eq_0_iff)
    moreover have "x div base < base ^ m" using Suc.prems(1) n by (simp add: less_mult_imp_div_less mult.commute)
    ultimately show ?thesis using Suc.IH [of "x div base" m] False by simp
  qed
qed simp

text \<open>
  C29: \<^verbatim>\<open>printint\<close> prints the number it is given, in the bases 10 and 16 it is called with: a minus sign exactly for a
  negative signed argument, then digits without leading zeros whose value is the absolute value (the unsigned value
  for \<^verbatim>\<open>%x\<close>), also for the most negative integer; its buffer of 16 characters is not overrun, and on a console with the
  cursor on the screen the call succeeds.
\<close>

theorem printint_correct:
  assumes "base = 10 \<or> base = 16"
  shows "\<exists>ds. printint_chars xx base sign = (if sign \<and> sint xx < 0 then [45] else []) @ map (\<lambda>d. digits ! d) (rev ds) \<and>
     (\<forall>d \<in> set ds. d < base) \<and> int (digits_val base ds) = (if sign then \<bar>sint xx\<bar> else uint xx) \<and>
     ds \<noteq> [] \<and> (last ds \<noteq> 0 \<or> ds = [0]) \<and> length (printint_chars xx base sign) \<le> 16 \<and>
     (screen_ok c \<longrightarrow> (\<exists>d. printint xx base sign c = Ok d \<and> screen_ok d))"
proof -
  let ?s = "sign \<and> sint xx < 0"
  define x where "x = (if ?s then - xx else xx)"
  define ds where "ds = print_digits 32 base (unat x)"
  have b: "2 \<le> base" using assms by auto
  have ux: "unat x < 2 ^ 32" using unsigned_less [of x] by simp
  have "2 ^ 32 \<le> base ^ 32" using b by (rule power_mono) simp
  then have r: "digits_val base ds = unat x" "\<forall>d \<in> set ds. d < base" "ds \<noteq> []" "unat x \<noteq> 0 \<longrightarrow> last ds \<noteq> 0"
    using print_digits_run [OF b, of "unat x" 32] ux unfolding ds_def by auto
  have zero: "unat x = 0 \<Longrightarrow> ds = [0]" by (simp add: ds_def eval_nat_numeral)
  have "unat x < base ^ 10" using ux assms by auto
  then have len: "length ds \<le> 10" unfolding ds_def by (rule print_digits_length) simp
  have chars: "printint_chars xx base sign = (if ?s then [45] else []) @ map (\<lambda>d. digits ! d) (rev ds)"
    by (simp add: printint_chars_def Let_def x_def ds_def rev_map)
  have val: "int (unat x) = (if sign then \<bar>sint xx\<bar> else uint xx)"
  proof (cases ?s)
    case True
    then have s: "uint xx = sint xx + 2 ^ 32" "sint xx < 0"
      by (simp_all add: uint_of_sint [of xx])
    have "uint (- xx) = (- uint xx) mod 2 ^ 32" by (simp add: uint_word_ariths)
    also have "\<dots> = (2 ^ 32 - uint xx) mod 2 ^ 32" by (rule minus_mod_self1 [symmetric])
    also have "\<dots> = 2 ^ 32 - uint xx"
      by (rule mod_pos_pos_trivial) (use s uint_bounded [of xx] sint_ge [of xx] in auto)
    finally show ?thesis using True s by (simp add: x_def)
  next
    case False
    then show ?thesis by (auto simp: x_def uint_of_sint)
  qed
  have run: "screen_ok c \<longrightarrow> (\<exists>d. printint xx base sign c = Ok d \<and> screen_ok d)"
    using cons_puts_run by (auto simp: printint_def)
  have buf: "length (printint_chars xx base sign) \<le> 16" using len by (simp add: chars)
  have nz: "last ds \<noteq> 0 \<or> ds = [0]" using r(4) zero by blast
  have v: "int (digits_val base ds) = (if sign then \<bar>sint xx\<bar> else uint xx)" unfolding r(1) by (rule val)
  show ?thesis by (rule exI [of _ ds]) (intro conjI chars r(2,3) v nz buf run)
qed

theorem printint_correct_witness:
  "printint_chars (- 12) 10 True = [45, 49, 50] \<and> (\<exists>ds. map (\<lambda>d. digits ! d) (rev ds) = [49, 50] \<and> int (digits_val 10 ds) = 12)"
proof -
  have a: "printint_chars (- 12) 10 True = [45, 49, 50]" by code_simp
  have s: "sint (- 12 :: uint) = - 12" by code_simp
  show ?thesis using printint_correct [of 10 "- 12" True demo_cons] a s by auto
qed

end
