(* ===== verification/Kernel.thy ===== *)
theory Kernel
  imports SchedInv File Console Vm
begin

text \<open>
  The kernel as a whole: the state of the scheduler together with that of the file system, the console and
  physical memory, and the life cycle of a process in full (allocproc, userinit, growproc, fork, exit, wait
  of proc.c), composed from the parts of theory \<open>Sched\<close> and the operations on memory and files. \<open>cur\<close> is
  \<^verbatim>\<open>myproc()\<close>; it exists while a process runs in the kernel.
\<close>

section \<open>State\<close>

record devst = filest +
  z_cons :: cons
  z_shift :: uint

record kernel = sched_state +
  k_dev :: devst
  k_ticks :: uint

section \<open>The console as a device\<close>

definition consoleread :: "int \<Rightarrow> bool \<Rightarrow> nat \<Rightarrow> int \<Rightarrow> 'z devst_scheme \<Rightarrow> (int \<times> uchar list \<times> 'z devst_scheme) res" where
  "consoleread me killed ip n s =
     bindR (iunlock me ip s) (\<lambda>s.
       let (blocked, bs, m, c) = consread_loop (nat n) (nat n) (z_cons s); s = s\<lparr>z_cons := c\<rparr>
       in if blocked
          then if killed then bindR (ilock me ip s) (\<lambda>s. Ok (-1, bs, s)) else Wait ''consoleread''
          else bindR (ilock me ip s) (\<lambda>s. Ok (int (nat n) - int m, bs, s)))"

definition consolewrite :: "int \<Rightarrow> nat \<Rightarrow> uchar list \<Rightarrow> int \<Rightarrow> 'z devst_scheme \<Rightarrow> (int \<times> 'z devst_scheme) res" where
  "consolewrite me ip buf n s =
     bindR (iunlock me ip s) (\<lambda>s.
     bindR (cons_puts (map uint (take (nat n) buf)) (z_cons s)) (\<lambda>c.
     bindR (ilock me ip (s\<lparr>z_cons := c\<rparr>)) (\<lambda>s. Ok (n, s))))"

text \<open>The device switch after \<^verbatim>\<open>consoleinit\<close>: the console is device 1.\<close>

definition devsw_read :: "int \<Rightarrow> bool \<Rightarrow> int \<Rightarrow> 'z devst_scheme dev_read option" where
  "devsw_read me killed major = (if major = 1 then Some (consoleread me killed) else None)"

definition devsw_write :: "int \<Rightarrow> int \<Rightarrow> 'z devst_scheme dev_write option" where
  "devsw_write me major = (if major = 1 then Some (consolewrite me) else None)"

section \<open>Parts of the state\<close>

definition on_dev :: "(devst \<Rightarrow> ('r \<times> devst) res) \<Rightarrow> 'z kernel_scheme \<Rightarrow> ('r \<times> 'z kernel_scheme) res" where
  "on_dev f s = bindR (f (k_dev s)) (\<lambda>(r, x). Ok (r, s\<lparr>k_dev := x\<rparr>))"

definition do_dev :: "(devst \<Rightarrow> devst res) \<Rightarrow> 'z kernel_scheme \<Rightarrow> 'z kernel_scheme res" where
  "do_dev f s = bindR (f (k_dev s)) (\<lambda>x. Ok (s\<lparr>k_dev := x\<rparr>))"

definition on_mem :: "(kmem \<Rightarrow> ('r \<times> kmem) res) \<Rightarrow> 'z kernel_scheme \<Rightarrow> ('r \<times> 'z kernel_scheme) res" where
  "on_mem f s = on_dev (\<lambda>x. bindR (f (y_kmem x)) (\<lambda>(r, k). Ok (r, x\<lparr>y_kmem := k\<rparr>))) s"

definition do_mem :: "(kmem \<Rightarrow> kmem res) \<Rightarrow> 'z kernel_scheme \<Rightarrow> 'z kernel_scheme res" where
  "do_mem f s = do_dev (\<lambda>x. bindR (f (y_kmem x)) (\<lambda>k. Ok (x\<lparr>y_kmem := k\<rparr>))) s"

definition kfree_k :: "uint \<Rightarrow> 'z kernel_scheme \<Rightarrow> 'z kernel_scheme res" where
  "kfree_k v s = do_mem (kfree v) s"

definition freevm_k :: "uint \<Rightarrow> 'z kernel_scheme \<Rightarrow> 'z kernel_scheme res" where
  "freevm_k pgdir s = do_mem (freevm pgdir) s"

section \<open>Wakeups of the devices\<close>

text \<open>The calls of \<^verbatim>\<open>wakeup\<close> that the file system, pipes and the console have recorded are delivered before the
  process gives up its processor or leaves the kernel.\<close>

fun run_wakes :: "uchar \<Rightarrow> chan list \<Rightarrow> 'z kernel_scheme \<Rightarrow> 'z kernel_scheme res" where
  "run_wakes a [] s = Ok s"
| "run_wakes a (c # cs) s = bindR (wakeup a c s) (run_wakes a cs)"

definition dev_wakes :: "uchar \<Rightarrow> 'z kernel_scheme \<Rightarrow> 'z kernel_scheme res" where
  "dev_wakes a s = run_wakes a (f_wakes (k_dev s)) (s\<lparr>k_dev := (k_dev s)\<lparr>f_wakes := []\<rparr>\<rparr>)"

section \<open>The life of a process\<close>

definition allocproc :: "uchar \<Rightarrow> 'z kernel_scheme \<Rightarrow> (pref \<times> 'z kernel_scheme) res" where
  "allocproc a s =
     bindR (allocproc_slot a s) (\<lambda>(p, s).
       if p = PNull then Ok (PNull, s)
       else bindR (on_mem (\<lambda>k. Ok (kalloc k)) s) (\<lambda>(k, s). Ok (allocproc_stack p k s)))"

text \<open>\<open>init\<close> and \<open>sz\<close> are address and size of the embedded program initcode; 0x1b and 0x23 are the selectors
  \<^verbatim>\<open>(SEG_UCODE << 3) | DPL_USER\<close> and \<^verbatim>\<open>(SEG_UDATA << 3) | DPL_USER\<close>.\<close>

definition user_tf :: trapframe where
  "user_tf = bss_tf\<lparr>tf_cs := 0x1b, tf_ds := 0x23, tf_es := 0x23, tf_ss := 0x23, tf_eflags := FL_IF, tf_esp := PGSIZE, tf_eip := 0\<rparr>"

definition userinit :: "uchar \<Rightarrow> uint \<Rightarrow> uint \<Rightarrow> 'z kernel_scheme \<Rightarrow> 'z kernel_scheme res" where
  "userinit a init sz s =
     bindR (allocproc a s) (\<lambda>(p, s).
       if p = PNull then Undef ''userinit: null pointer'' else
       bindR (on_mem setupkvm (s\<lparr>k_initproc := p\<rparr>)) (\<lambda>(pgdir, s).
         if pgdir = 0 then Panic ''userinit: out of memory?'' else
         bindR (do_mem (inituvm pgdir init sz) (upd_proc p (\<lambda>x. x\<lparr>p_pgdir := pgdir\<rparr>) s)) (\<lambda>s.
         let s = upd_proc p (\<lambda>x. x\<lparr>p_sz := PGSIZE, p_tf := user_tf, p_name := ''initcode''\<rparr>) s
         in bindR (on_dev (namei 0 0 [47]) s) (\<lambda>(cwd, s).
            let s = upd_proc p (\<lambda>x. x\<lparr>p_cwd := cwd\<rparr>) s
            in bindR (log_lock a RELEASED ACQUIRED s) (\<lambda>s.
               bindR (acquire a PtableLock s) (\<lambda>s.
               bindR (enqueue_here a p (set_state p RUNNABLE s)) (\<lambda>s.
               bindR (log_lock a ACQUIRED RELEASED s) (release a PtableLock))))))))"

definition growproc :: "uchar \<Rightarrow> pref \<Rightarrow> int \<Rightarrow> 'z kernel_scheme \<Rightarrow> (int \<times> 'z kernel_scheme) res" where
  "growproc a cur n s =
     (let sz = p_sz (k_procs s cur); pgdir = p_pgdir (k_procs s cur)
      in bindR (if n > 0 then on_mem (allocuvm pgdir sz (sz + word_of_int n)) s
                else if n < 0 then on_mem (deallocuvm pgdir sz (sz + word_of_int n)) s
                else Ok (sz, s)) (\<lambda>(nsz, s).
         if n \<noteq> 0 \<and> nsz = 0 then Ok (-1, s)
         else bindR (switchuvm a cur (upd_proc cur (\<lambda>x. x\<lparr>p_sz := nsz\<rparr>) s)) (\<lambda>s. Ok (0, s))))"

fun fork_files :: "nat list \<Rightarrow> (nat \<Rightarrow> nat option) \<Rightarrow> (nat \<Rightarrow> nat option) \<Rightarrow> 'z filest_scheme \<Rightarrow>
    ((nat \<Rightarrow> nat option) \<times> 'z filest_scheme) res" where
  "fork_files [] fs nof s = Ok (nof, s)"
| "fork_files (i # is) fs nof s =
     (case fs i of
        None \<Rightarrow> fork_files is fs nof s
      | Some f \<Rightarrow> bindR (filedup f s) (fork_files is fs (nof(i := Some f))))"

definition fork :: "uchar \<Rightarrow> pref \<Rightarrow> 'z kernel_scheme \<Rightarrow> (int \<times> 'z kernel_scheme) res" where
  "fork a cur s =
     bindR (allocproc a s) (\<lambda>(np, s).
       if np = PNull then Ok (-1, s) else
       bindR (on_mem (copyuvm (p_pgdir (k_procs s cur)) (p_sz (k_procs s cur))) s) (\<lambda>(pgdir, s).
         if pgdir = 0
         then bindR (kfree_k (p_kstack (k_procs s np)) s) (\<lambda>s. Ok (-1, fork_undo np s))
         else bindR (on_dev (fork_files [0..<NOFILE] (p_ofile (k_procs s cur)) (p_ofile (k_procs s np))) s) (\<lambda>(ofile, s).
              case p_cwd (k_procs s cur) of
                None \<Rightarrow> Undef ''fork: null pointer''
              | Some d \<Rightarrow>
                  bindR (do_dev (\<lambda>x. Ok (idup d x)) s) (\<lambda>s.
                    fork_commit a np (fork_fill np cur pgdir ofile (Some d) s)))))"

fun exit_files :: "pref \<Rightarrow> nat list \<Rightarrow> 'z kernel_scheme \<Rightarrow> 'z kernel_scheme res" where
  "exit_files cur [] s = Ok s"
| "exit_files cur (fd # fds) s =
     (case p_ofile (k_procs s cur) fd of
        None \<Rightarrow> exit_files cur fds s
      | Some f \<Rightarrow> bindR (do_dev (fileclose (p_pid (k_procs s cur)) f) s) (\<lambda>s.
                  exit_files cur fds (upd_proc cur (\<lambda>x. x\<lparr>p_ofile := (p_ofile x)(fd := None)\<rparr>) s)))"

text \<open>\<^verbatim>\<open>exit\<close> up to the switch to the scheduler, from which it does not return.\<close>

definition exit_enter :: "uchar \<Rightarrow> pref \<Rightarrow> 'z kernel_scheme \<Rightarrow> 'z kernel_scheme res" where
  "exit_enter a cur s =
     (if cur = k_initproc s then Panic ''init exiting''
      else bindR (exit_files cur [0..<NOFILE] s) (\<lambda>s.
        case p_cwd (k_procs s cur) of
          None \<Rightarrow> Undef ''exit: null pointer''
        | Some d \<Rightarrow>
            let me = p_pid (k_procs s cur)
            in bindR (do_dev begin_op s) (\<lambda>s.
               bindR (do_dev (iput me d) s) (\<lambda>s.
               bindR (do_dev (end_op me) s) (\<lambda>s.
               bindR (dev_wakes a s) (\<lambda>s.
                 exit_commit a cur (upd_proc cur (\<lambda>x. x\<lparr>p_cwd := None\<rparr>) s)))))))"

text \<open>\<^verbatim>\<open>wait\<close> from its beginning to its return (\<open>Some v\<close>) or to its first sleep.\<close>

definition wait_first :: "uchar \<Rightarrow> 'z kernel_scheme \<Rightarrow> (int option \<times> 'z kernel_scheme) res" where
  "wait_first a s = bindR (wait_enter a s) (\<lambda>(p, s). wait_round kfree_k freevm_k a p s)"

section \<open>The scheduler's invariant for the whole kernel\<close>

text \<open>Freeing pages changes only memory, so the scheduler's view of the state is the same.\<close>

lemma do_mem_run: "do_mem f s = Ok t \<Longrightarrow> \<exists>x. t = s\<lparr>k_dev := x\<rparr>"
  by (auto simp: do_mem_def do_dev_def ok_iff)

lemma dev_fields [simp]:
  "cpu_index a (s\<lparr>k_dev := x\<rparr>) = cpu_index a s" "vw (s\<lparr>k_dev := x\<rparr>) = vw s" "vok (s\<lparr>k_dev := x\<rparr>) = vok s"
  "cpu_index a (s\<lparr>k_ticks := n\<rparr>) = cpu_index a s" "vw (s\<lparr>k_ticks := n\<rparr>) = vw s" "vok (s\<lparr>k_ticks := n\<rparr>) = vok s"
  by (simp_all add: cpu_index_def vw_def vok_def mach_ok_def cli_ok_def readeflags_def)

lemma dev_quiet: "at_cpu a c s \<Longrightarrow> at_cpu a c (s\<lparr>k_dev := x\<rparr>) \<and> vw (s\<lparr>k_dev := x\<rparr>) = vw s"
  by (simp add: at_cpu_def)

interpretation kernel_pages: page_release "kfree_k :: uint \<Rightarrow> 'z kernel_scheme \<Rightarrow> 'z kernel_scheme res" freevm_k
proof
  fix p a c and s t :: "'z kernel_scheme"
  show "kfree_k p s = Ok t \<Longrightarrow> at_cpu a c s \<Longrightarrow> at_cpu a c t \<and> vw t = vw s"
    using do_mem_run dev_quiet unfolding kfree_k_def by metis
  show "freevm_k p s = Ok t \<Longrightarrow> at_cpu a c s \<Longrightarrow> at_cpu a c t \<and> vw t = vw s"
    using do_mem_run dev_quiet unfolding freevm_k_def by metis
qed

text \<open>
  Executions of the kernel: the steps of the scheduler's transition system, interleaved with any work of the
  rest of the kernel (file system, memory, devices, clock), which does not write the scheduler's data.
\<close>

inductive kern_reach :: "'z kernel_scheme \<times> (nat \<Rightarrow> loc) \<times> (nat \<Rightarrow> ploc) \<Rightarrow> bool" where
  kr_init: "sys_init x \<Longrightarrow> kern_reach x"
| kr_step: "kern_reach x \<Longrightarrow> sys_step kfree_k freevm_k x y \<Longrightarrow> kern_reach y"
| kr_other: "kern_reach (s, L, Q) \<Longrightarrow> kern_reach (s\<lparr>k_dev := d, k_ticks := n\<rparr>, L, Q)"

inductive_cases kern_stepE: "sys_step kfree_k freevm_k (s, L, Q) (t, M, R)"

lemma kern_reach_good: "kern_reach x \<Longrightarrow> good x"
proof (induction rule: kern_reach.induct)
  case (kr_init x)
  then show ?case by (rule good_init)
next
  case (kr_step x y)
  then show ?case using kernel_pages.good_step by blast
next
  case (kr_other s L Q d n)
  then show ?case by (simp add: good_def)
qed

section \<open>Properties\<close>

text \<open>
  C7: In every reachable state of the kernel in its shipped configuration, under any interleaving of the processors
  in scheduler, yield, sleep, wakeup, kill, fork, exit and wait and of all other kernel work, with an interrupt taken wherever
  the interrupt flag is set, in a process (which it may preempt, in the middle of fork or of sleep too) or in an idle
  processor: a process is the current process of at most one
  processor, it is in state \<^verbatim>\<open>RUNNING\<close> exactly if it is the current process of some processor, and no two slots of the
  process table in use have the same identifier.
\<close>

theorem scheduler_exclusive:
  fixes s :: "'z kernel_scheme"
  assumes "kern_reach (s, L, Q)" "i < NPROC" "j < NPROC"
  shows "(c_proc (m_cpus s c) = PProc i \<and> c_proc (m_cpus s d) = PProc i \<longrightarrow> c = d) \<and>
     (p_state (k_procs s (PProc i)) = RUNNING \<longleftrightarrow> (\<exists>e. c_proc (m_cpus s e) = PProc i)) \<and>
     (p_state (k_procs s (PProc i)) \<noteq> UNUSED \<and> p_state (k_procs s (PProc j)) \<noteq> UNUSED \<and>
        p_pid (k_procs s (PProc i)) = p_pid (k_procs s (PProc j)) \<longrightarrow> i = j)"
  using good_facts [OF kern_reach_good [OF assms(1)]] assms(2,3) by blast

text \<open>A kernel with two processors and two processes, one ready to run.\<close>

definition bss_inode :: inode where
  "bss_inode = \<lparr>d_type = 0, d_major = 0, d_minor = 0, d_nlink = 0, d_size = 0, d_addrs = (\<lambda>_. 0), i_dev = 0, i_inum = 0, i_ref = 0,
     i_lock = bss_sleeplock, i_valid = 0\<rparr>"

definition bss_file :: file_t where
  "bss_file = \<lparr>fl_type = FD_NONE, fl_ref = 0, fl_readable = 0, fl_writable = 0, fl_pipe = 0, fl_ip = 0, fl_off = 0\<rparr>"

definition bss_dev :: devst where
  "bss_dev = \<lparr>f_wakes = [], f_buf = (\<lambda>_. bss_buf), f_lru = [], f_ide = two_drives, g_start = 0, g_size = 0, g_outstanding = 0,
     g_committing = 0, g_dev = 0, g_n = 0, g_block = (\<lambda>_. 0), x_sb = sb_of (\<lambda>_. 0), x_inode = (\<lambda>_. bss_inode),
     y_kmem = boot_kmem, y_file = (\<lambda>_. bss_file), y_pipe = (\<lambda>_. demo_pipe), z_cons = demo_cons, z_shift = 0\<rparr>"

definition demo_procs :: "pref \<Rightarrow> proc" where
  "demo_procs = (\<lambda>_. bss_proc)(PProc 0 := bss_proc\<lparr>p_state := RUNNABLE, p_pid := 1, p_kstack := 0x80300000, p_pgdir := 0x80200000,
       p_context := CtxForkret\<rparr>,
      PProc 1 := bss_proc\<lparr>p_state := SLEEPING, p_pid := 2\<rparr>)"

definition demo_kernel :: kernel where
  "demo_kernel = sched_state.extend ((bss_state 2 False)\<lparr>k_procs := demo_procs, k_nextpid := 3\<rparr>) \<lparr>k_dev = bss_dev, k_ticks = 0\<rparr>"

lemma demo_kernel_init: "sys_init (demo_kernel, \<lambda>_. LTop, \<lambda>_. PRun)"
proof -
  have f: "m_cpus demo_kernel = bss_cpu" "m_ncpu demo_kernel = 2" "m_hw demo_kernel = bss_hw" "m_locks demo_kernel = bss_lock"
      "k_procs demo_kernel = demo_procs" "k_nextpid demo_kernel = 3" "k_bufsize demo_kernel = 0" "k_mrq demo_kernel = False"
    by (simp_all add: demo_kernel_def bss_state_def sched_state.defs)
  have idx: "cpu_index a demo_kernel = (if a = 0 then Some 0 else if a = 1 then Some 1 else None)" for a
    by (simp add: cpu_index_def f bss_cpu_def upt_conv_Cons)
  have "cli_ok a i demo_kernel" if "cpu_index a demo_kernel = Some i" for a i
    using that cli_ok_bss_state [of False] cli_ok_cong [of demo_kernel "bss_state 2 False"]
    by (auto simp: idx f bss_state_def split: if_splits)
  then have "vok demo_kernel" by (simp add: vok_def mach_ok_def f bss_lock_def)
  moreover have "pid_ok (vw demo_kernel)" by (auto simp: pid_ok_def vw_fields f demo_procs_def bss_proc_def split: if_splits)
  ultimately show ?thesis by (auto simp: sys_init_def f demo_procs_def bss_proc_def bss_lock_def bss_cpu_def)
qed

text \<open>Progress: with the log off, the scheduler enters its scan and starts a new process that is ready to run.\<close>

lemma writelog_off: "k_finished_fork s = 0 \<Longrightarrow> writelog a pid nm ev ps ns s = Ok s"
  by (simp add: writelog_def)

lemma acquire_runs:
  assumes "at_cpu a c s" "v_own (vw s) l = None"
  shows "\<exists>t. acquire a l s = Ok t \<and> k_finished_fork t = k_finished_fork s"
proof -
  have "cli_ok a c s" "lk_locked (m_locks s l) = 0"
    using assms by (auto simp: at_cpu_def vok_def mach_ok_def vw_fields)
  from acquire_Ok [OF this] show ?thesis by (simp add: acq_st_def push_st_def save_st_def machine_defs)
qed

lemma release_runs:
  assumes "at_cpu a c s" "v_own (vw s) l = Some c" "0 < v_ncli (vw s) c"
  shows "\<exists>t. release a l s = Ok t"
proof -
  have "cli_ok a c s" "held_by c l s"
    using assms by (auto simp: at_cpu_def vok_def mach_ok_def held_by_def vw_fields)
  from release_Ok [OF this(1) _ this(2)] assms(3) show ?thesis by (simp add: vw_fields)
qed

lemma switchuvm_runs:
  assumes "at_cpu a c s" "p \<noteq> PNull" "p_kstack (k_procs s p) \<noteq> 0" "p_pgdir (k_procs s p) \<noteq> 0"
  shows "\<exists>t. switchuvm a p s = Ok t \<and> k_finished_fork t = k_finished_fork s \<and> k_procs t = k_procs s"
proof -
  have ok: "cli_ok a c s" using assms(1) by (auto simp: at_cpu_def vok_def mach_ok_def)
  let ?u = "(push_st a c s)\<lparr>k_esp0 := (k_esp0 (push_st a c s))(c := p_kstack (k_procs (push_st a c s) p) + KSTACKSIZE)\<rparr>"
  let ?v = "?u\<lparr>k_cr3 := (k_cr3 ?u)(a := p_pgdir (k_procs ?u p) - KERNBASE)\<rparr>"
  have f: "cpu_index a ?v = cpu_index a (push_st a c s)" "readeflags a ?v = readeflags a (push_st a c s)" "m_cpus ?v = m_cpus (push_st a c s)"
    by (simp_all add: cpu_index_def readeflags_def)
  have "popcli a ?v = Ok (pop_st a c ?v)"
    using ok by (intro popcli_Ok; unfold f) (auto simp: cli_ok_def)
  moreover have "mycpu a (push_st a c s) = Ok c" using ok by (intro mycpu_Ok) (auto simp: cli_ok_def)
  ultimately have "switchuvm a p s = Ok (pop_st a c ?v)"
    using ok assms(2-4) by (simp add: switchuvm_def pushcli_Ok cli_ok_def Let_def)
  then show ?thesis by (simp add: pop_st_def push_st_def save_st_def machine_defs)
qed

lemma dispatch_runs:
  assumes s: "at_cpu a c s" "v_ncli (vw s) c = 0" "v_own (vw s) PtableLock = None" "\<not> v_mrq (vw s)" "k_finished_fork s = 0"
    and p: "p_state (k_procs s (PProc i)) = RUNNABLE" "p_kstack (k_procs s (PProc i)) \<noteq> 0" "p_pgdir (k_procs s (PProc i)) \<noteq> 0"
      "p_context (k_procs s (PProc i)) = CtxForkret" "0 \<le> p_pid (k_procs s (PProc i))" "p_pid (k_procs s (PProc i)) < int NPROC"
  shows "\<exists>t u w. rr_enter a s = Ok t \<and> rr_slot a c i t = Ok (True, u) \<and>
     resume a i q (p_context (k_procs u (PProc i))) u = Ok (w, PRun)"
proof -
  have st: "at_cpu a c (sti a s)" "vw (sti a s) = vw s" "k_finished_fork (sti a s) = 0"
    using sti_at [OF s(1,2)] s(5) by (auto simp: sti_def)
  obtain t where t: "acquire a PtableLock (sti a s) = Ok t" "k_finished_fork t = 0"
    using acquire_runs [OF st(1), of PtableLock] st s(3) by auto
  have e: "rr_enter a s = Ok t" using t st(3) by (simp add: rr_enter_def log_lock_def writelog_off)
  note et = rr_enter_at [OF e s(1,2)]
  have pt: "k_procs t = k_procs s" using et by (simp add: k_vw)
  let ?x = "upd_cpu c (\<lambda>u. u\<lparr>c_proc := PProc i\<rparr>) t"
  have px: "k_procs ?x = k_procs s" "k_finished_fork ?x = 0" using pt t(2) by (simp_all add: upd_cpu_def)
  have "at_cpu a c ?x" using et by (simp add: upd_cproc)
  then obtain y where y: "switchuvm a (PProc i) ?x = Ok y" "k_finished_fork y = 0" "k_procs y = k_procs s"
    using switchuvm_runs [of a c ?x "PProc i"] px p(2,3) by auto
  have "\<exists>z. first_running (p_pid (k_procs s (PProc i))) y = Ok z \<and> k_finished_fork z = 0 \<and> k_procs z = k_procs s"
    using y(2,3) p(5,6) by (simp add: first_running_def set_clock_def rdtsc_def Let_def split: if_split)
  then obtain z where z: "first_running (p_pid (k_procs s (PProc i))) y = Ok z" "k_finished_fork z = 0" "k_procs z = k_procs s" by blast
  have "run_proc a c (PProc i) t = Ok (set_state (PProc i) RUNNING z)"
    using y z by (simp add: run_proc_def log_proc_def writelog_off Let_def)
  then have r: "rr_slot a c i t = Ok (True, set_state (PProc i) RUNNING z)" using p(1) pt by (simp add: rr_slot_def)
  let ?u = "set_state (PProc i) RUNNING z"
  have u: "at_cpu a c ?u" "v_own (vw ?u) PtableLock = Some c" "v_ncli (vw ?u) c = 1" "\<not> v_mrq (vw ?u)"
    using rr_slot_at [OF r conjunct1 [OF et]] et s(2,4) by auto
  have "k_finished_fork ?u = 0" "p_context (k_procs ?u (PProc i)) = CtxForkret"
    using z(2,3) p(4) by (simp_all add: set_state_def upd_proc_def)
  moreover obtain w where "release a PtableLock ?u = Ok w" using release_runs [OF u(1,2)] u(3) by auto
  ultimately have "\<exists>w. resume a i q (p_context (k_procs ?u (PProc i))) ?u = Ok (w, PRun)"
    using u(4) by (simp add: resume_def forkret_def log_lock_def writelog_off k_vw)
  with e r show ?thesis by blast
qed

text \<open>The first processor of that kernel scans the table and starts process 0.\<close>

theorem scheduler_exclusive_witness:
  "\<exists>s L Q. kern_reach (s :: kernel, L, Q) \<and> L 0 = LProc 0 PRun \<and> p_state (k_procs s (PProc 0)) = RUNNING \<and>
     c_proc (m_cpus s 0) = PProc 0 \<and> c_proc (m_cpus s 1) \<noteq> PProc 0 \<and> p_state (k_procs s (PProc 1)) = SLEEPING \<and>
     p_pid (k_procs s (PProc 0)) \<noteq> p_pid (k_procs s (PProc 1))"
  (is "\<exists>s L Q. ?P s L Q")
proof -
  let ?L = "\<lambda>_. LTop :: loc" and ?Q = "\<lambda>_. PRun :: ploc"
  have 0: "kern_reach (demo_kernel, ?L, ?Q)" by (rule kr_init [OF demo_kernel_init])
  have f: "k_procs demo_kernel = demo_procs" "k_finished_fork demo_kernel = 0" "m_cpus demo_kernel = bss_cpu" "m_locks demo_kernel = bss_lock"
      "k_mrq demo_kernel = False" "m_ncpu demo_kernel = 2"
    by (simp_all add: demo_kernel_def bss_state_def sched_state.defs)
  have c: "cpu_index 0 demo_kernel = Some 0" by (simp add: cpu_index_def f bss_cpu_def upt_conv_Cons)
  have a: "at_cpu 0 0 demo_kernel" using goodD(1) [OF kern_reach_good [OF 0] c] .
  have "\<exists>t u w. rr_enter 0 demo_kernel = Ok t \<and> rr_slot 0 0 0 t = Ok (True, u) \<and>
     resume 0 0 (?Q 0) (p_context (k_procs u (PProc 0))) u = Ok (w, PRun)"
    by (rule dispatch_runs [OF a]) (simp_all add: vw_fields f demo_procs_def bss_cpu_def bss_lock_def)
  then obtain t u w where w: "rr_enter 0 demo_kernel = Ok t" "rr_slot 0 0 0 t = Ok (True, u)"
      "resume 0 0 (?Q 0) (p_context (k_procs u (PProc 0))) u = Ok (w, PRun)" by blast
  have 1: "kern_reach (t, ?L(0 := LScan 0), ?Q)" by (rule kr_step [OF 0 ss_enter [OF c refl w(1)]])
  note et = rr_enter_at [OF w(1) a]
  have t: "at_cpu 0 0 t" "vw t = vtake PtableLock 0 (vw demo_kernel)" using et by (simp_all add: vw_fields f bss_cpu_def)
  have 2: "kern_reach (w, (?L(0 := LScan 0))(0 := LProc 0 PRun), ?Q(0 := PRun))"
    by (rule kr_step [OF 1 ss_run [OF at_cpuD(3) [OF t(1)] _ _ w(2,3)]]) simp_all
  note eu = rr_slot_at [OF w(2) t(1)]
  have "p_context (k_procs u (PProc 0)) = CtxForkret"
    using eu t(2) by (simp add: k_vw) (simp add: vw_fields f demo_procs_def)
  then have "\<exists>b. forkret 0 u = Ok (b, w)" using w(3) by (auto simp: resume_def ok_iff)
  moreover have m: "\<not> v_mrq (vw u)" using eu t(2) by (simp add: vw_fields f)
  ultimately have v: "vw w = vdrop PtableLock 0 (vw u)" using eu forkret_at [of 0 u _ w 0] by auto
  have p: "c_proc (m_cpus w 0) = PProc 0" "p_state (k_procs w (PProc 1)) = SLEEPING" "p_pid (k_procs w (PProc 0)) = 1" "p_pid (k_procs w (PProc 1)) = 2"
    using v eu t(2) by (simp_all add: k_vw) (simp_all add: vw_fields f demo_procs_def)
  have "p_state (k_procs w (PProc 0)) = RUNNING \<and> c_proc (m_cpus w 1) \<noteq> PProc 0"
    using scheduler_exclusive [OF 2, of 0 1 0 1] p(1) by auto
  then have "?P w ((?L(0 := LScan 0))(0 := LProc 0 PRun)) (?Q(0 := PRun))" using 2 p by (intro conjI) simp_all
  then show ?thesis by blast
qed

end
