(* ===== verification/UserMem.thy ===== *)
theory UserMem
  imports PageMap
begin

text \<open>
  Address spaces: a page table together with the frames that the user part of it maps. The invariant says that the frames are
  pages of memory of their own, each mapped once, apart from the tables and from the free list. \<^verbatim>\<open>deallocuvm\<close> takes
  exactly the pages of its range out of the table and puts exactly their frames on the free list.
\<close>

section \<open>Frames\<close>

definition present :: "kmem \<Rightarrow> uint \<Rightarrow> uint \<Rightarrow> bool" where
  "present k pgdir va \<longleftrightarrow> entry k pgdir va AND PTE_P \<noteq> 0"

definition frame :: "kmem \<Rightarrow> uint \<Rightarrow> uint \<Rightarrow> uint" where
  "frame k pgdir va = P2V (PTE_ADDR (entry k pgdir va))"

definition uspace :: "kmem \<Rightarrow> uint \<Rightarrow> uint list \<Rightarrow> bool" where
  "uspace k pgdir xs \<longleftrightarrow>
     pt_wf k pgdir xs \<and> KERNBASE < km_end k \<and>
     (\<forall>va < KERNBASE. present k pgdir va \<longrightarrow>
        ok_page k (frame k pgdir va) \<and> frame k pgdir va \<notin> set xs \<and> frame k pgdir va \<noteq> pgdir \<and>
        (\<forall>d < 1024. tab k pgdir d \<noteq> Some (frame k pgdir va))) \<and>
     (\<forall>va < KERNBASE. \<forall>vb < KERNBASE. present k pgdir va \<longrightarrow> present k pgdir vb \<longrightarrow>
        frame k pgdir va = frame k pgdir vb \<longrightarrow> PGROUNDDOWN va = PGROUNDDOWN vb)"

text \<open>The frames of the pages from \<open>lo\<close> to below \<open>hi\<close>.\<close>

definition frames :: "kmem \<Rightarrow> uint \<Rightarrow> uint \<Rightarrow> uint \<Rightarrow> uint set" where
  "frames k pgdir lo hi = {frame k pgdir va | va. lo \<le> PGROUNDDOWN va \<and> PGROUNDDOWN va < hi \<and> present k pgdir va}"

lemma freed_get:
  assumes "page_aligned v" "page_aligned q" "q \<noteq> v" "j < 1024"
  shows "get_mem (q + 4 * j) (freed v k) = get_mem (q + 4 * j) k"
  unfolding get_mem_def
proof (rule load32_cong_page [OF assms(2) slot_aligned [OF assms(2,4)] slot_page [OF assms(2,4)]])
  fix x assume "x \<in> page q"
  then have "x \<notin> page v" using page_disjoint [OF assms(2,1,3)] by blast
  then show "km_mem (freed v k) x = km_mem k x" by (rule freed_frame [OF assms(1)])
qed

lemma freed_entry:
  assumes wf: "pt_wf k pgdir xs" and v: "ok_page k v" "v \<notin> set xs" "v \<noteq> pgdir" "\<forall>d < 1024. tab k pgdir d \<noteq> Some v"
  shows "pt_wf (freed v k) pgdir (v # xs)" "d < 1024 \<Longrightarrow> tab (freed v k) pgdir d = tab k pgdir d"
    "entry (freed v k) pgdir va = entry k pgdir va"
proof -
  note D = pt_wfD [OF wf]
  have al: "page_aligned v" using v(1) by (simp add: ok_page_def)
  show tab: "tab (freed v k) pgdir d = tab k pgdir d" if "d < 1024" for d
    using freed_get [OF al D(2) _ that] v(3) by (simp add: tab_def)
  have ok: "ok_page (freed v k) = ok_page k" by (simp add: ok_page_def freed_def fun_eq_iff)
  show "pt_wf (freed v k) pgdir (v # xs)"
    using wf freed_pages [OF D(1) v(1,2)] v(3,4) by (auto simp: pt_wf_def ok tab)
  show "entry (freed v k) pgdir va = entry k pgdir va"
  proof (cases "tab k pgdir (PDX va)")
    case (Some t)
    then have "page_aligned t" "t \<noteq> v" using D(5) [OF PDX_less Some] v(4) PDX_less [of va] by auto
    then show ?thesis using Some freed_get [OF al _ _ PTX_less] by (simp add: entry_def tab PDX_less)
  qed (simp add: entry_def tab PDX_less)
qed

lemma entry_page: "PGROUNDDOWN va = PGROUNDDOWN vb \<Longrightarrow> entry k pgdir va = entry k pgdir vb"
  using same_page [of va vb] by (simp add: entry_def cong: option.case_cong)

lemma uspaceD:
  assumes "uspace k pgdir xs"
  shows "pt_wf k pgdir xs" "KERNBASE < km_end k"
    "va < KERNBASE \<Longrightarrow> present k pgdir va \<Longrightarrow> ok_page k (frame k pgdir va) \<and> frame k pgdir va \<notin> set xs \<and> frame k pgdir va \<noteq> pgdir \<and>
        (\<forall>d < 1024. tab k pgdir d \<noteq> Some (frame k pgdir va))"
    "va < KERNBASE \<Longrightarrow> vb < KERNBASE \<Longrightarrow> present k pgdir va \<Longrightarrow> present k pgdir vb \<Longrightarrow>
        frame k pgdir va = frame k pgdir vb \<Longrightarrow> PGROUNDDOWN va = PGROUNDDOWN vb"
  using assms unfolding uspace_def by blast+

text \<open>Taking one page out of the table.\<close>

lemma unmap_page:
  assumes u: "uspace k pgdir xs" and a: "page_aligned a" "a < KERNBASE" and p: "present k pgdir a"
    and t: "tab k pgdir (PDX a) = Some t"
  defines "v \<equiv> frame k pgdir a"
  defines "k' \<equiv> set_mem (t + 4 * PTX a) 0 (freed v k)"
  shows "uspace k' pgdir (v # xs)" "entry k' pgdir va = (if PGROUNDDOWN va = a then 0 else entry k pgdir va)"
    "kfree v k = Ok (freed v k)"
proof -
  note U = uspaceD [OF u]
  have v: "ok_page k v" "v \<notin> set xs" "v \<noteq> pgdir" "\<forall>d < 1024. tab k pgdir d \<noteq> Some v"
    using U(3) [OF a(2) p] by (auto simp: v_def)
  show "kfree v k = Ok (freed v k)" using v(1) by (simp add: kfree_run)
  note F = freed_entry [OF U(1) v]
  have t': "tab (freed v k) pgdir (PDX a) = Some t" using t F(2) [OF PDX_less] by simp
  note S = set_entry [OF F(1) t', of 0, folded k'_def]
  have en: "entry k' pgdir va = (if PGROUNDDOWN va = a then 0 else entry k pgdir va)" for va
    unfolding S(2) F(3) same_page using PGROUNDDOWN_id [OF a(1)] by simp
  then show "entry k' pgdir va = (if PGROUNDDOWN va = a then 0 else entry k pgdir va)" .
  have tt: "page_aligned t" "t \<noteq> pgdir" using pt_wfD(5) [OF F(1) PDX_less t'] by auto
  have tab: "tab k' pgdir d = tab k pgdir d" if "d < 1024" for d
    using that tt pt_wfD(2) [OF U(1)] F(2) [OF that] by (simp add: tab_def k'_def get_set_slot PTX_less)
  have ok: "ok_page k' = ok_page k" "km_end k' = km_end k" by (simp_all add: ok_page_def k'_def set_mem_def freed_def fun_eq_iff)
  have pr: "present k' pgdir va \<longleftrightarrow> PGROUNDDOWN va \<noteq> a \<and> present k pgdir va" for va by (simp add: present_def en)
  have fr: "frame k' pgdir va = frame k pgdir va" if "present k' pgdir va" for va using that by (simp add: frame_def en pr)
  have "frame k pgdir va \<noteq> v" if "va < KERNBASE" "present k' pgdir va" for va
    using U(4) [OF that(1) a(2)] that(2) p PGROUNDDOWN_id [OF a(1)] by (auto simp: pr v_def)
  note ne = this
  show "uspace k' pgdir (v # xs)"
    unfolding uspace_def
  proof (intro conjI allI impI)
    show "pt_wf k' pgdir (v # xs)" by (rule S(1))
    show "KERNBASE < km_end k'" using U(2) ok by simp
    fix va assume va: "va < KERNBASE" "present k' pgdir va"
    have p: "present k pgdir va" using va(2) by (simp add: pr)
    note f = fr [OF va(2)] and W = U(3) [OF va(1) p]
    show "ok_page k' (frame k' pgdir va)" "frame k' pgdir va \<noteq> pgdir" "frame k' pgdir va \<notin> set (v # xs)" 
      using W ne [OF va] unfolding f ok by simp_all
    show "tab k' pgdir d \<noteq> Some (frame k' pgdir va)" if "d < 1024" for d using W that unfolding f tab [OF that] by simp
    fix vb assume vb: "vb < KERNBASE" "present k' pgdir vb" and eq: "frame k' pgdir va = frame k' pgdir vb"
    have "present k pgdir vb" using vb(2) by (simp add: pr)
    then show "PGROUNDDOWN va = PGROUNDDOWN vb" using U(4) [OF va(1) vb(1) p] eq fr [OF vb(2)] f by simp
  qed
qed

lemma unat_PDX: "unat (PDX x) = unat x div 4194304"
proof -
  have x: "unat x div 4194304 < 1024" using unat_lt32 [of x] by (intro less_mult_imp_div_less) simp
  have "PDX x = take_bit 10 (drop_bit 22 x)" by (simp add: PDX_def take_bit_eq_mask mask_eq_exp_minus_1)
  then have "unat (PDX x) = take_bit 10 (unat (drop_bit 22 x))" by (simp only: unsigned_take_bit_eq)
  also have "unat (drop_bit 22 x) = unat x div 4194304" by (simp add: drop_bit_eq_div unat_div)
  also have "take_bit 10 (unat x div 4194304) = unat x div 4194304" using x by (simp add: take_bit_nat_eq_self)
  finally show ?thesis .
qed

lemma unat_next_dir:
  assumes "a < KERNBASE"
  shows "unat (PGADDR (PDX a + 1) 0 0) = 4194304 * (unat a div 4194304) + 4194304"
proof -
  have d: "unat a div 4194304 < 512" using assms by (intro less_mult_imp_div_less) (simp add: word_less_nat_alt)
  have "unat (PDX a + 1) = unat (PDX a) + unat (1 :: uint)" using d by (intro unat_add_small) (simp add: unat_PDX)
  then have p: "unat (PDX a + 1) = unat a div 4194304 + 1" by (simp add: unat_PDX)
  have e: "PGADDR (PDX a + 1) 0 0 = (PDX a + 1) * 4194304" by (simp add: PGADDR_def push_bit_eq_mult)
  have "unat ((PDX a + 1) * 4194304) = unat (PDX a + 1) * unat (4194304 :: uint) mod 2 ^ LENGTH(32)" by (rule unat_word_ariths(2))
  also have "\<dots> = (unat a div 4194304 + 1) * 4194304" unfolding p using d by simp
  finally show ?thesis unfolding e by simp
qed

lemma next_dir:
  assumes "a < KERNBASE" "page_aligned a"
  shows "unat a < unat (PGADDR (PDX a + 1) 0 0)" "page_aligned (PGADDR (PDX a + 1) 0 0)"
    "a \<le> va \<Longrightarrow> va < PGADDR (PDX a + 1) 0 0 \<Longrightarrow> PDX va = PDX a"
proof -
  note g = unat_next_dir [OF assms(1)]
  have m: "unat a mod 4194304 < 4194304" by simp
  show "unat a < unat (PGADDR (PDX a + 1) 0 0)" unfolding g using div_mult_mod_eq [of "unat a" 4194304] m by linarith
  show "page_aligned (PGADDR (PDX a + 1) 0 0)"
  proof -
    have "4194304 * (unat a div 4194304) + 4194304 = 4096 * (1024 * (unat a div 4194304) + 1024)" by simp
    then show ?thesis unfolding page_aligned_unat g by (simp only: mod_mult_self1_is_0)
  qed
  assume va: "a \<le> va" "va < PGADDR (PDX a + 1) 0 0"
  have "unat va div 4194304 = unat a div 4194304"
  proof (rule antisym)
    have "unat va < (unat a div 4194304 + 1) * 4194304" using va(2) g by (simp add: word_less_nat_alt)
    then have "unat va div 4194304 < unat a div 4194304 + 1" by (rule less_mult_imp_div_less)
    then show "unat va div 4194304 \<le> unat a div 4194304" by simp
    show "unat a div 4194304 \<le> unat va div 4194304" using va(1) by (simp add: word_le_nat_alt div_le_mono)
  qed
  then show "PDX va = PDX a" by (simp add: word_unat_eq_iff unat_PDX)
qed

lemma aligned_step:
  assumes "page_aligned a" "page_aligned p" "a < KERNBASE"
  shows "a \<le> p \<longleftrightarrow> p = a \<or> a + PGSIZE \<le> p" "unat (a + PGSIZE) = unat a + 4096"
proof -
  show s: "unat (a + PGSIZE) = unat a + 4096" using assms(3) by (subst unat_add_small) (simp_all add: word_less_nat_alt)
  obtain x y where xy: "unat a = 4096 * x" "unat p = 4096 * y"
    using assms(1,2) by (auto simp: page_aligned_unat simp flip: dvd_eq_mod_eq_0 elim!: dvdE)
  have "x \<le> y \<longleftrightarrow> y = x \<or> x + 1 \<le> y" by auto
  then show "a \<le> p \<longleftrightarrow> p = a \<or> a + PGSIZE \<le> p" using s xy by (auto simp: word_le_nat_alt word_unat_eq_iff)
qed

definition unmapped :: "uint \<Rightarrow> uint \<Rightarrow> uint \<Rightarrow> kmem \<Rightarrow> kmem \<Rightarrow> bool" where
  "unmapped pgdir lo hi k k' \<longleftrightarrow>
     (\<forall>va. entry k' pgdir va =
        (if lo \<le> PGROUNDDOWN va \<and> PGROUNDDOWN va < hi \<and> present k pgdir va then 0 else entry k pgdir va))"

lemma skip_range:
  assumes "\<And>va. present k pgdir va \<Longrightarrow> lo \<le> PGROUNDDOWN va \<longleftrightarrow> lo' \<le> PGROUNDDOWN va"
  shows "frames k pgdir lo hi = frames k pgdir lo' hi" "unmapped pgdir lo hi k k' = unmapped pgdir lo' hi k k'"
proof -
  show "frames k pgdir lo hi = frames k pgdir lo' hi" unfolding frames_def using assms by blast
  have "(lo \<le> PGROUNDDOWN va \<and> PGROUNDDOWN va < hi \<and> present k pgdir va) =
      (lo' \<le> PGROUNDDOWN va \<and> PGROUNDDOWN va < hi \<and> present k pgdir va)" for va using assms by blast
  then show "unmapped pgdir lo hi k k' = unmapped pgdir lo' hi k k'" unfolding unmapped_def by presburger
qed

lemma unmapped_one:
  assumes a: "page_aligned a" "a < KERNBASE" "a < hi" "present k pgdir a"
    and en: "\<And>va. entry k1 pgdir va = (if PGROUNDDOWN va = a then 0 else entry k pgdir va)"
    and r: "unmapped pgdir (a + PGSIZE) hi k1 k'"
  shows "frames k pgdir a hi = insert (frame k pgdir a) (frames k1 pgdir (a + PGSIZE) hi)" "unmapped pgdir a hi k k'"
proof -
  have st: "a \<le> PGROUNDDOWN va \<longleftrightarrow> PGROUNDDOWN va = a \<or> a + PGSIZE \<le> PGROUNDDOWN va" for va
    by (rule aligned_step(1) [OF a(1) PGROUNDDOWN_aligned a(2)])
  have ne: "PGROUNDDOWN va \<noteq> a" if "a + PGSIZE \<le> PGROUNDDOWN va" for va
    using that aligned_step(2) [OF a(1) a(1,2)] by (auto simp: word_le_nat_alt)
  have p1: "present k1 pgdir va \<longleftrightarrow> PGROUNDDOWN va \<noteq> a \<and> present k pgdir va" for va by (simp add: present_def en)
  have pa: "present k pgdir va \<and> frame k pgdir va = frame k pgdir a" if "PGROUNDDOWN va = a" for va
    using entry_page [of va a k pgdir] that a(1,4) PGROUNDDOWN_id [of a] by (simp add: present_def frame_def)
  have f1: "frame k1 pgdir va = frame k pgdir va" if "PGROUNDDOWN va \<noteq> a" for va using that by (simp add: frame_def en)
  show "frames k pgdir a hi = insert (frame k pgdir a) (frames k1 pgdir (a + PGSIZE) hi)" (is "?L = ?R")
  proof (rule set_eqI)
    fix x
    have "x \<in> ?R" if "x \<in> ?L"
    proof -
      obtain va where va: "x = frame k pgdir va" "a \<le> PGROUNDDOWN va" "PGROUNDDOWN va < hi" "present k pgdir va"
        using \<open>x \<in> ?L\<close> by (auto simp: frames_def)
      show ?thesis
      proof (cases "PGROUNDDOWN va = a")
        case True
        then show ?thesis using va(1) pa by simp
      next
        case False
        then have "a + PGSIZE \<le> PGROUNDDOWN va" using va(2) st by blast
        then have "frame k1 pgdir va \<in> frames k1 pgdir (a + PGSIZE) hi" unfolding frames_def using va False p1 by blast
        then show ?thesis using f1 [OF False] va(1) by simp
      qed
    qed
    moreover have "x \<in> ?L" if "x \<in> frames k1 pgdir (a + PGSIZE) hi"
    proof -
      obtain va where va: "x = frame k1 pgdir va" "a + PGSIZE \<le> PGROUNDDOWN va" "PGROUNDDOWN va < hi" "present k1 pgdir va"
        using \<open>x \<in> frames k1 pgdir (a + PGSIZE) hi\<close> by (auto simp: frames_def)
      then have "x = frame k pgdir va" "a \<le> PGROUNDDOWN va" "present k pgdir va" using f1 st p1 ne by auto
      then show ?thesis unfolding frames_def using va(3) by blast
    qed
    moreover have "frame k pgdir a \<in> ?L"
      unfolding frames_def using a PGROUNDDOWN_id [OF a(1)] by (auto intro!: exI [of _ a])
    ultimately show "x \<in> ?L \<longleftrightarrow> x \<in> ?R" by blast
  qed
  show "unmapped pgdir a hi k k'"
    unfolding unmapped_def
  proof
    fix va
    have "entry k' pgdir va = (if a + PGSIZE \<le> PGROUNDDOWN va \<and> PGROUNDDOWN va < hi \<and> present k1 pgdir va then 0 else entry k1 pgdir va)"
      using r by (simp add: unmapped_def)
    then show "entry k' pgdir va = (if a \<le> PGROUNDDOWN va \<and> PGROUNDDOWN va < hi \<and> present k pgdir va then 0 else entry k pgdir va)"
      using st [of va] pa [of va] a(3) by (cases "PGROUNDDOWN va = a") (simp_all add: p1 en)
  qed
qed

lemma dealloc_run:
  assumes "uspace k pgdir xs" "page_aligned a" "hi \<le> KERNBASE" "0 < n" "hi \<le> a \<or> unat hi + 4096 \<le> unat a + 4096 * n"
  shows "\<exists>k' ys. deallocuvm_from n pgdir a hi k = Ok k' \<and> uspace k' pgdir (ys @ xs) \<and> set ys = frames k pgdir a hi \<and>
     unmapped pgdir a hi k k'"
  using assms
proof (induction n arbitrary: a k xs)
  case (Suc n)
  show ?case
  proof (cases "hi \<le> a")
    case True
    have "\<not> (a \<le> PGROUNDDOWN va \<and> PGROUNDDOWN va < hi)" for va using True by auto
    then have "frames k pgdir a hi = {}" "unmapped pgdir a hi k k" by (auto simp: frames_def unmapped_def)
    then show ?thesis using leD [OF True] Suc.prems(1) by (intro exI [of _ k] exI [of _ "[]"]) simp
  next
    case False
    then have a: "a < hi" "a < KERNBASE" using Suc.prems(3) by auto
    have n: "0 < n" "unat hi \<le> unat a + 4096 * n"
      using Suc.prems(5) False a(1) by (auto simp: word_less_nat_alt)
    note nx = aligned_step(2) [OF Suc.prems(2) Suc.prems(2) a(2)]
    have fuel: "hi \<le> b \<or> unat hi + 4096 \<le> unat b + 4096 * n" if "unat a + 4096 \<le> unat b" for b using n that by linarith
    show ?thesis
    proof (cases "tab k pgdir (PDX a)")
      case None
      let ?b = "PGADDR (PDX a + 1) 0 0"
      note nd = next_dir [OF a(2) Suc.prems(2)]
      have "a + PGSIZE \<le> ?b" using aligned_step(1) [OF Suc.prems(2) nd(2) a(2)] nd(1) by (auto simp: word_le_nat_alt)
      then have "unat a + 4096 \<le> unat ?b" using nx by (simp add: word_le_nat_alt)
      then obtain k' ys where IH: "deallocuvm_from n pgdir ?b hi k = Ok k'" "uspace k' pgdir (ys @ xs)" "set ys = frames k pgdir ?b hi"
          "unmapped pgdir ?b hi k k'"
        using Suc.IH [OF Suc.prems(1) nd(2) Suc.prems(3) n(1) fuel] by blast
      have "a \<le> PGROUNDDOWN va \<longleftrightarrow> ?b \<le> PGROUNDDOWN va" if "present k pgdir va" for va
      proof -
        have "entry k pgdir va = entry k pgdir (PGROUNDDOWN va)"
          using entry_page [of va "PGROUNDDOWN va"] PGROUNDDOWN_id [OF PGROUNDDOWN_aligned] by simp
        then have "PDX (PGROUNDDOWN va) \<noteq> PDX a" using that None by (auto simp: present_def entry_def)
        then have "\<not> (a \<le> PGROUNDDOWN va \<and> PGROUNDDOWN va < ?b)" using nd(3) by blast
        then show ?thesis using nd(1) by (auto simp: word_le_nat_alt word_less_nat_alt)
      qed
      note sk = skip_range [where lo = a and lo' = ?b, OF this]
      have "deallocuvm_from (Suc n) pgdir a hi k = Ok k'" using a None IH(1) by (simp add: walk_noalloc Let_def)
      then show ?thesis using IH(2-4) sk by blast
    next
      case (Some t)
      have nz: "t + 4 * PTX a \<noteq> 0"
        using pt_wfD(4) [OF uspaceD(1) [OF Suc.prems(1)]] pt_wfD(5) [OF uspaceD(1) [OF Suc.prems(1)] PDX_less Some]
        by (intro slot_nonzero [OF _ _ PTX_less]) simp_all
      have en: "get_mem (t + 4 * PTX a) k = entry k pgdir a" using Some by (simp add: entry_def)
      have al: "page_aligned (a + PGSIZE)" by (rule page_aligned_next [OF Suc.prems(2)])
      note fu = fuel [of "a + PGSIZE", unfolded nx, OF order_refl]
      show ?thesis
      proof (cases "present k pgdir a")
        case True
        let ?v = "frame k pgdir a"
        let ?k = "set_mem (t + 4 * PTX a) 0 (freed ?v k)"
        note um = unmap_page [OF Suc.prems(1,2) a(2) True Some]
        obtain k' ys where IH: "deallocuvm_from n pgdir (a + PGSIZE) hi ?k = Ok k'" "uspace k' pgdir (ys @ ?v # xs)"
            "set ys = frames ?k pgdir (a + PGSIZE) hi" "unmapped pgdir (a + PGSIZE) hi ?k k'"
          using Suc.IH [OF um(1) al Suc.prems(3) n(1)] fu nx by auto
        have "PTE_ADDR (entry k pgdir a) \<noteq> 0"
        proof
          assume "PTE_ADDR (entry k pgdir a) = 0"
          then have "?v = KERNBASE" by (simp add: frame_def P2V_def)
          then show False using uspaceD(2,3) [OF Suc.prems(1)] a(2) True by (fastforce simp: ok_page_def)
        qed
        then have "deallocuvm_from (Suc n) pgdir a hi k = Ok k'"
          using a Some nz en True um(3) IH(1) by (simp add: walk_noalloc Let_def present_def frame_def)
        moreover have "set (ys @ [?v]) = frames k pgdir a hi" "unmapped pgdir a hi k k'"
          using unmapped_one [OF Suc.prems(2) a(2,1) True um(2) IH(4)] IH(3) by auto
        ultimately show ?thesis using IH(2) by (intro exI [of _ k'] exI [of _ "ys @ [?v]"]) simp
      next
        case False
        obtain k' ys where IH: "deallocuvm_from n pgdir (a + PGSIZE) hi k = Ok k'" "uspace k' pgdir (ys @ xs)"
            "set ys = frames k pgdir (a + PGSIZE) hi" "unmapped pgdir (a + PGSIZE) hi k k'"
          using Suc.IH [OF Suc.prems(1) al Suc.prems(3) n(1)] fu nx by auto
        have "a \<le> PGROUNDDOWN va \<longleftrightarrow> a + PGSIZE \<le> PGROUNDDOWN va" if "present k pgdir va" for va
          using aligned_step(1) [OF Suc.prems(2) PGROUNDDOWN_aligned a(2), of va] that False nx
            entry_page [of va a k pgdir] PGROUNDDOWN_id [OF Suc.prems(2)] by (auto simp: present_def)
        note sk = skip_range [where lo = a and lo' = "a + PGSIZE", OF this]
        have "deallocuvm_from (Suc n) pgdir a hi k = Ok k'"
          using a Some nz en False IH(1) by (simp add: walk_noalloc Let_def present_def)
        then show ?thesis using IH(2-4) sk by blast
      qed
    qed
  qed
qed simp

section \<open>Properties\<close>

text \<open>
  C0: \<^verbatim>\<open>deallocuvm\<close> shrinks an address space exactly. On a well-formed address space, for any sizes with
  \<open>newsz < oldsz \<le> KERNBASE\<close>, it returns \<open>newsz\<close> without panic: the frames of exactly the pages from the new size rounded up to
  the old size are on the free list, in front of what was there, each once; these pages have no entry any more; and
  the entry of every other page, present or not, is what it was. The address space stays well-formed.
\<close>

theorem deallocuvm_correct:
  assumes "uspace k pgdir xs" "newsz < oldsz" "oldsz \<le> KERNBASE"
  shows "\<exists>k' ys. deallocuvm pgdir oldsz newsz k = Ok (newsz, k') \<and> uspace k' pgdir (ys @ xs) \<and> distinct ys \<and>
     set ys = frames k pgdir (PGROUNDUP newsz) oldsz \<and> unmapped pgdir (PGROUNDUP newsz) oldsz k k'"
proof -
  have "unat oldsz \<le> 2 ^ 31" using assms(3) by (simp add: word_le_nat_alt)
  then have "unat oldsz + 4096 \<le> unat (PGROUNDUP newsz) + 4096 * (2 ^ 20 + 1)" by simp
  note run = dealloc_run [OF assms(1) PGROUNDUP_aligned assms(3) _ disjI2 [OF this]]
  obtain k' ys where k: "deallocuvm_from (2 ^ 20 + 1) pgdir (PGROUNDUP newsz) oldsz k = Ok k'" "uspace k' pgdir (ys @ xs)"
     "set ys = frames k pgdir (PGROUNDUP newsz) oldsz" "unmapped pgdir (PGROUNDUP newsz) oldsz k k'"
    using run zero_less_Suc [of "2 ^ 20"] unfolding Suc_eq_plus1 by blast
  have "distinct (ys @ xs)" using pt_wfD(1) [OF uspaceD(1) [OF k(2)]] by (simp add: free_pages_def)
  then show ?thesis using assms(2) k by (auto simp: deallocuvm_def simp del: deallocuvm_from.simps)
qed

text \<open>An address space of one page, which holds the string "ab" at address 16.\<close>

definition demo_page :: kmem where
  "demo_page = boot_kmem\<lparr>km_mem := store32 0x80202010 0x6261 (store32 0x80201000 0x202007 (store32 0x80200000 0x201007 (\<lambda>_. 0)))\<rparr>"

lemma demo_page_get:
  assumes "page_aligned q" "j < 1024"
  shows "get_mem (q + 4 * j) demo_page =
     (if q = 0x80202000 \<and> j = 4 then 0x6261 else if q = 0x80201000 \<and> j = 0 then 0x202007 else if q = 0x80200000 \<and> j = 0 then 0x201007 else 0)"
proof -
  have al: "page_aligned 0x80200000" "page_aligned 0x80201000" "page_aligned 0x80202000" by (simp_all add: page_aligned_def)
  have lt: "(4 :: uint) < 1024" "(0 :: uint) < 1024" by simp_all
  have d: "demo_page = set_mem (0x80202000 + 4 * 4) 0x6261 (set_mem (0x80201000 + 4 * 0) 0x202007 (set_mem (0x80200000 + 4 * 0) 0x201007 boot_kmem))"
    by (simp add: demo_page_def set_mem_def boot_kmem_def)
  have z: "get_mem a boot_kmem = 0" for a by (simp add: get_mem_def boot_kmem_def load32_def)
  show ?thesis
    unfolding d get_set_slot [OF al(3) assms(1) lt(1) assms(2)] get_set_slot [OF al(2) assms(1) lt(2) assms(2)]
      get_set_slot [OF al(1) assms(1) lt(2) assms(2)] z by auto
qed

lemma demo_page_entry:
  shows "d < 1024 \<Longrightarrow> tab demo_page 0x80200000 d = (if d = 0 then Some 0x80201000 else None)"
    and "entry demo_page 0x80200000 va = (if PGROUNDDOWN va = 0 then 0x202007 else 0)"
proof -
  have al: "page_aligned 0x80200000" "page_aligned 0x80201000" by (simp_all add: page_aligned_def)
  show t: "tab demo_page 0x80200000 d = (if d = 0 then Some 0x80201000 else None)" if "d < 1024" for d
    using demo_page_get [OF al(1) that] by (simp add: tab_def Let_def P2V_def PTE_ADDR_def)
  have z: "PDX va = 0 \<and> PTX va = 0 \<longleftrightarrow> PGROUNDDOWN va = 0"
    using same_page [of va 0] by (simp add: PDX_def PTX_def PGROUNDDOWN_def)
  have "entry demo_page 0x80200000 va = (if PDX va = 0 \<and> PTX va = 0 then 0x202007 else 0)"
    unfolding entry_def t [OF PDX_less]
    using demo_page_get [OF al(2), of 0] by (simp add: demo_page_get [OF al(2) PTX_less])
  then show "entry demo_page 0x80200000 va = (if PGROUNDDOWN va = 0 then 0x202007 else 0)" unfolding z .
qed

lemma demo_page_space: "uspace demo_page 0x80200000 []"
proof -
  have fr: "frame demo_page 0x80200000 va = 0x80202000" "PGROUNDDOWN va = 0" if "present demo_page 0x80200000 va" for va
    using that by (auto simp: present_def frame_def demo_page_entry(2) P2V_def PTE_ADDR_def split: if_splits)
  have ok: "ok_page demo_page 0x80200000" "ok_page demo_page 0x80201000" "ok_page demo_page 0x80202000" "KERNBASE < km_end demo_page"
    by (simp_all add: ok_page_def demo_page_def boot_kmem_def page_aligned_def V2P_def)
  have "pt_wf demo_page 0x80200000 []"
    unfolding pt_wf_def using ok demo_page_entry(1) by (auto simp: free_pages_def demo_page_def boot_kmem_def split: if_splits)
  then show ?thesis unfolding uspace_def using fr ok demo_page_entry(1) by (auto split: if_splits)
qed

theorem deallocuvm_correct_witness:
  "\<exists>k'. deallocuvm 0x80200000 4096 0 demo_page = Ok (0, k') \<and> free_pages k' [0x80202000] \<and> \<not> present k' 0x80200000 16"
proof -
  have up: "PGROUNDUP 0 = 0" "PGROUNDDOWN 16 = 0" by (simp_all add: PGROUNDUP_def PGROUNDDOWN_def)
  obtain k' ys where k: "deallocuvm 0x80200000 4096 0 demo_page = Ok (0, k')" "uspace k' 0x80200000 (ys @ [])" "distinct ys"
     "set ys = frames demo_page 0x80200000 0 4096" "unmapped 0x80200000 0 4096 demo_page k'"
    using deallocuvm_correct [OF demo_page_space, of 0 4096] unfolding up by auto
  have f: "frames demo_page 0x80200000 0 4096 = {0x80202000}"
    using up by (auto simp: frames_def present_def frame_def demo_page_entry(2) P2V_def PTE_ADDR_def split: if_splits intro!: exI [of _ 16])
  have "ys = [0x80202000]" using k(3,4) unfolding f by (cases ys; cases "tl ys"; auto)
  moreover have "\<not> present k' 0x80200000 16" using k(5) up by (simp add: unmapped_def present_def)
  ultimately show ?thesis using k(1) pt_wfD(1) [OF uspaceD(1) [OF k(2)]] by auto
qed

end
