(* ===== verification/Syscall.thy ===== *)
theory Syscall
  imports Kernel UserMem
begin

text \<open>
  The arguments of system calls, syscall.c: the current process's memory as the kernel reaches it through the
  page table that is loaded, and the routines that fetch integers, pointers and strings from it. A pointer to
  a string that is fetched is given by the string; \<^const>\<open>None\<close> is the return value -1.
\<close>

section \<open>User memory\<close>

text \<open>
  The processor's translation of a user address by the two levels of tables, for a read or a write in kernel
  mode. A page that is missing or not writable gives a page fault, for which \<^verbatim>\<open>trap\<close> panics.
\<close>

definition uaddr :: "bool \<Rightarrow> uint \<Rightarrow> uint \<Rightarrow> kmem \<Rightarrow> uint res" where
  "uaddr wr pgdir va k =
     (let (pte, k) = walkpgdir pgdir va False k; e = get_mem pte k
      in if pte = 0 \<or> e AND PTE_P = 0 \<or> wr \<and> e AND PTE_W = 0 then Panic ''trap''
         else Ok (P2V (PTE_ADDR e) + (va AND 0xFFF)))"

fun uload :: "nat \<Rightarrow> uint \<Rightarrow> uint \<Rightarrow> kmem \<Rightarrow> uchar list res" where
  "uload 0 pgdir va k = Ok []"
| "uload (Suc n) pgdir va k =
     bindR (uaddr False pgdir va k) (\<lambda>x.
     bindR (uload n pgdir (va + 1) k) (\<lambda>bs. Ok (km_mem k x # bs)))"

fun ustore :: "uchar list \<Rightarrow> uint \<Rightarrow> uint \<Rightarrow> kmem \<Rightarrow> kmem res" where
  "ustore [] pgdir va k = Ok k"
| "ustore (b # bs) pgdir va k =
     bindR (uaddr True pgdir va k) (\<lambda>x.
       ustore bs pgdir (va + 1) (k\<lparr>km_mem := (km_mem k)(x := b)\<rparr>))"

definition word_of :: "uchar list \<Rightarrow> uint" where
  "word_of bs = get32 (\<lambda>i. bs ! i) 0"

definition bytes_of :: "uint \<Rightarrow> uchar list" where
  "bytes_of w = [ucast w, ucast (drop_bit 8 w), ucast (drop_bit 16 w), ucast (drop_bit 24 w)]"

definition bytes_of16 :: "ushort \<Rightarrow> uchar list" where
  "bytes_of16 w = [ucast w, ucast (drop_bit 8 w)]"

definition umem :: "'z kernel_scheme \<Rightarrow> kmem" where
  "umem s = y_kmem (k_dev s)"

definition ustore_k :: "pref \<Rightarrow> uchar list \<Rightarrow> uint \<Rightarrow> 'z kernel_scheme \<Rightarrow> 'z kernel_scheme res" where
  "ustore_k cur bs va s = do_mem (ustore bs (p_pgdir (k_procs s cur)) va) s"

section \<open>Fetching arguments\<close>

definition fetchint :: "pref \<Rightarrow> uint \<Rightarrow> 'z kernel_scheme \<Rightarrow> uint option res" where
  "fetchint cur addr s =
     (let p = k_procs s cur
      in if addr \<ge> p_sz p \<or> addr + 4 > p_sz p then Ok None
         else bindR (uload 4 (p_pgdir p) addr (umem s)) (\<lambda>bs. Ok (Some (word_of bs))))"

text \<open>The loop of \<^verbatim>\<open>fetchstr\<close> over the \<open>n\<close> bytes up to the end of the address space.\<close>

fun fetchstr_loop :: "nat \<Rightarrow> uint \<Rightarrow> uint \<Rightarrow> kmem \<Rightarrow> cstr option res" where
  "fetchstr_loop 0 pgdir va k = Ok None"
| "fetchstr_loop (Suc n) pgdir va k =
     bindR (uaddr False pgdir va k) (\<lambda>x.
       if km_mem k x = 0 then Ok (Some [])
       else bindR (fetchstr_loop n pgdir (va + 1) k) (\<lambda>r. Ok (map_option (Cons (km_mem k x)) r)))"

definition fetchstr :: "pref \<Rightarrow> uint \<Rightarrow> 'z kernel_scheme \<Rightarrow> cstr option res" where
  "fetchstr cur addr s =
     (let p = k_procs s cur
      in if addr \<ge> p_sz p then Ok None
         else fetchstr_loop (unat (p_sz p - addr)) (p_pgdir p) addr (umem s))"

definition argint :: "pref \<Rightarrow> nat \<Rightarrow> 'z kernel_scheme \<Rightarrow> uint option res" where
  "argint cur n s = fetchint cur (tf_esp (p_tf (k_procs s cur)) + 4 + 4 * of_nat n) s"

definition argptr :: "pref \<Rightarrow> nat \<Rightarrow> int \<Rightarrow> 'z kernel_scheme \<Rightarrow> uint option res" where
  "argptr cur n len s =
     bindR (argint cur n s) (\<lambda>r. Ok (case r of
       None \<Rightarrow> None
     | Some i \<Rightarrow>
         if len < 0 \<or> i \<ge> p_sz (k_procs s cur) \<or> i + word_of_int len > p_sz (k_procs s cur) then None else Some i))"

definition argstr :: "pref \<Rightarrow> nat \<Rightarrow> 'z kernel_scheme \<Rightarrow> cstr option res" where
  "argstr cur n s =
     bindR (argint cur n s) (\<lambda>r. case r of None \<Rightarrow> Ok None | Some addr \<Rightarrow> fetchstr cur addr s)"

definition me_of :: "pref \<Rightarrow> 'z kernel_scheme \<Rightarrow> int" where
  "me_of cur s = p_pid (k_procs s cur)"

section \<open>Properties\<close>

lemma uload_length: "uload n pgdir va k = Ok bs \<Longrightarrow> length bs = n"
  by (induction n arbitrary: va bs) (auto simp: ok_iff)

lemma fetchstr_loop_run:
  "fetchstr_loop n pgdir va k = Ok (Some str) \<Longrightarrow>
     length str < n \<and> 0 \<notin> set str \<and> (\<exists>bs. uload (Suc (length str)) pgdir va k = Ok bs \<and> bs = str @ [0])"
proof (induction n arbitrary: va str)
  case (Suc n)
  then show ?case by (fastforce simp: ok_iff split: if_splits)
qed simp

text \<open>
  C22: What the kernel fetches for a system call lies in the caller's address space. An integer is fetched only if its four
  bytes are below the process's size, a pointer of \<open>len\<close> bytes is accepted only if all of them are, also when
  the addition wraps (\<open>len\<close> below \<open>2 ^ 31\<close>, the size of the process below \<^const>\<open>KERNBASE\<close>), and a string is
  returned only with its terminating zero, all of it below the process's size, and is what memory holds.
\<close>

theorem arguments_in_bounds:
  assumes sz: "p_sz (k_procs s cur) < KERNBASE" and len: "len < 2 ^ 31"
  shows "(fetchint cur addr s = Ok (Some w) \<longrightarrow> unat addr + 4 \<le> unat (p_sz (k_procs s cur))) \<and>
     (argptr cur n len s = Ok (Some a) \<longrightarrow> 0 \<le> len \<and> unat a + nat len \<le> unat (p_sz (k_procs s cur))) \<and>
     (fetchstr cur addr s = Ok (Some str) \<longrightarrow>
        unat addr + length str < unat (p_sz (k_procs s cur)) \<and> 0 \<notin> set str \<and>
        uload (Suc (length str)) (p_pgdir (k_procs s cur)) addr (umem s) = Ok (str @ [0]))"
proof -
  let ?z = "p_sz (k_procs s cur)"
  have z: "unat ?z < 2 ^ 31" using sz by (simp add: word_less_nat_alt)
  have sum: "unat x + m \<le> unat ?z" if "x < ?z" "x + of_nat m \<le> ?z" "m < 2 ^ 31" for x :: uint and m
  proof -
    have "unat x < 2 ^ 31" using that(1) z by (simp add: word_less_nat_alt)
    then have "unat (x + of_nat m) = unat x + m" using that(3) by (simp add: unat_word_ariths unat_of_nat)
    then show ?thesis using that(2) by (simp add: word_le_nat_alt)
  qed
  have i: "unat addr + 4 \<le> unat ?z" if "fetchint cur addr s = Ok (Some w)"
    using that sum [of addr 4] by (auto simp: fetchint_def Let_def not_le not_less split: if_splits)
  have p: "0 \<le> len \<and> unat a + nat len \<le> unat ?z" if "argptr cur n len s = Ok (Some a)"
  proof -
    have a: "0 \<le> len" "a < ?z" "a + word_of_int len \<le> ?z"
      using that by (auto simp: argptr_def ok_iff not_le not_less split: option.splits if_splits)
    have "(of_nat (nat len) :: uint) = word_of_int len" using a(1) by simp
    then have "a + of_nat (nat len) \<le> ?z" using a(3) by (simp only:)
    moreover have "nat len < 2 ^ 31" using len a(1) by (simp add: nat_less_iff)
    ultimately show ?thesis using a(1) sum [OF a(2)] by blast
  qed
  have t: "unat addr + length str < unat ?z \<and> 0 \<notin> set str \<and>
        uload (Suc (length str)) (p_pgdir (k_procs s cur)) addr (umem s) = Ok (str @ [0])" if "fetchstr cur addr s = Ok (Some str)"
  proof -
    have a: "addr < ?z" "fetchstr_loop (unat (?z - addr)) (p_pgdir (k_procs s cur)) addr (umem s) = Ok (Some str)"
      using that by (auto simp: fetchstr_def Let_def not_le split: if_splits)
    have "unat (?z - addr) = unat ?z - unat addr" using a(1) by (simp add: unat_sub)
    then show ?thesis using fetchstr_loop_run [OF a(2)] by auto
  qed
  show ?thesis using i p t by blast
qed

text \<open>A process with one page of memory, holding the string "ab" at address 16.\<close>

definition demo_user :: kernel where
  "demo_user = demo_kernel\<lparr>k_dev := bss_dev\<lparr>y_kmem := demo_page\<rparr>,
     k_procs := demo_procs(PProc 0 := (demo_procs (PProc 0))\<lparr>p_sz := 4096, p_pgdir := 0x80200000\<rparr>)\<rparr>"

theorem arguments_in_bounds_witness:
  "fetchstr (PProc 0) 16 demo_user = Ok (Some [97, 98]) \<and> unat (16 :: uint) + length [97 :: uchar, 98] < 4096 \<and>
   uload (Suc (length [97 :: uchar, 98])) 0x80200000 16 (umem demo_user) = Ok ([97, 98] @ [0])"
proof -
  have u: "p_sz (k_procs demo_user (PProc 0)) = 4096" "p_pgdir (k_procs demo_user (PProc 0)) = 0x80200000" "umem demo_user = demo_page"
    by (simp_all add: demo_user_def umem_def)
  have a: "uaddr False 0x80200000 16 demo_page = Ok 0x80202010" "uaddr False 0x80200000 17 demo_page = Ok 0x80202011"
      "uaddr False 0x80200000 18 demo_page = Ok 0x80202012"
    by code_simp+
  have m: "km_mem demo_page 0x80202010 = 97" "km_mem demo_page 0x80202011 = 98" "km_mem demo_page 0x80202012 = 0" by code_simp+
  have "fetchstr_loop (Suc (Suc (Suc n))) 0x80200000 16 demo_page = Ok (Some [97, 98])" for n by (simp add: a m)
  from this [of 4077] have f: "fetchstr (PProc 0) 16 demo_user = Ok (Some [97, 98])" by (simp add: fetchstr_def u del: fetchstr_loop.simps)
  show ?thesis using arguments_in_bounds [of demo_user "PProc 0" 0 16 _ 0 _ "[97, 98]"] f u by (simp del: uload.simps)
qed

end
