(* ===== verification/Sysfile.thy ===== *)
theory Sysfile
  imports Syscall
begin

text \<open>
  The file system calls of sysfile.c. The part of a call between \<^verbatim>\<open>begin_op\<close> and \<^verbatim>\<open>end_op\<close> that works on the file
  system alone is a definition of its own on the state of the devices; the argument \<open>cwd\<close> is the index of the caller's
  current directory, \<open>me\<close> its identifier. Every call returns its value for the user and the new state.
\<close>

section \<open>Descriptors\<close>

definition argfd :: "pref \<Rightarrow> nat \<Rightarrow> 'z kernel_scheme \<Rightarrow> (nat \<times> nat) option res" where
  "argfd cur n s =
     bindR (argint cur n s) (\<lambda>r. Ok (case r of
       None \<Rightarrow> None
     | Some fd \<Rightarrow>
         if sint fd < 0 \<or> sint fd \<ge> int NOFILE then None
         else map_option (Pair (nat (sint fd))) (p_ofile (k_procs s cur) (nat (sint fd)))))"

definition fdalloc :: "pref \<Rightarrow> nat \<Rightarrow> 'z kernel_scheme \<Rightarrow> int \<times> 'z kernel_scheme" where
  "fdalloc cur f s =
     (case List.find (\<lambda>fd. p_ofile (k_procs s cur) fd = None) [0..<NOFILE] of
        None \<Rightarrow> (-1, s)
      | Some fd \<Rightarrow> (int fd, upd_proc cur (\<lambda>x. x\<lparr>p_ofile := (p_ofile x)(fd := Some f)\<rparr>) s))"

definition sys_dup :: "pref \<Rightarrow> 'z kernel_scheme \<Rightarrow> (int \<times> 'z kernel_scheme) res" where
  "sys_dup cur s =
     bindR (argfd cur 0 s) (\<lambda>r.
       case r of
         None \<Rightarrow> Ok (-1, s)
       | Some (_, f) \<Rightarrow>
           (let (fd, s) = fdalloc cur f s
            in if fd < 0 then Ok (-1, s) else bindR (do_dev (filedup f) s) (\<lambda>s. Ok (fd, s))))"

text \<open>The three arguments of \<^verbatim>\<open>read\<close> and \<^verbatim>\<open>write\<close>: file, length, pointer.\<close>

definition args_rw :: "pref \<Rightarrow> 'z kernel_scheme \<Rightarrow> (nat \<times> int \<times> uint) option res" where
  "args_rw cur s =
     bindR (argfd cur 0 s) (\<lambda>r. case r of None \<Rightarrow> Ok None | Some (_, f) \<Rightarrow>
     bindR (argint cur 2 s) (\<lambda>r. case r of None \<Rightarrow> Ok None | Some n \<Rightarrow>
     bindR (argptr cur 1 (sint n) s) (\<lambda>r. Ok (map_option (\<lambda>p. (f, sint n, p)) r))))"

definition killed_of :: "pref \<Rightarrow> 'z kernel_scheme \<Rightarrow> bool" where
  "killed_of cur s \<longleftrightarrow> p_killed (k_procs s cur) \<noteq> 0"

definition sys_read :: "pref \<Rightarrow> 'z kernel_scheme \<Rightarrow> (int \<times> 'z kernel_scheme) res" where
  "sys_read cur s =
     bindR (args_rw cur s) (\<lambda>r.
       case r of
         None \<Rightarrow> Ok (-1, s)
       | Some (f, n, p) \<Rightarrow>
           bindR (on_dev (\<lambda>x. bindR (fileread (devsw_read (me_of cur s) (killed_of cur s)) (me_of cur s) (killed_of cur s) f n x)
                    (\<lambda>(v, bs, x). Ok ((v, bs), x))) s) (\<lambda>((v, bs), s).
           bindR (ustore_k cur bs p s) (\<lambda>s. Ok (v, s))))"

definition sys_write :: "pref \<Rightarrow> 'z kernel_scheme \<Rightarrow> (int \<times> 'z kernel_scheme) res" where
  "sys_write cur s =
     bindR (args_rw cur s) (\<lambda>r.
       case r of
         None \<Rightarrow> Ok (-1, s)
       | Some (f, n, p) \<Rightarrow>
           bindR (uload (nat n) (p_pgdir (k_procs s cur)) p (umem s)) (\<lambda>bs.
             on_dev (filewrite (devsw_write (me_of cur s)) (me_of cur s) (killed_of cur s) f bs n) s))"

definition sys_close :: "pref \<Rightarrow> 'z kernel_scheme \<Rightarrow> (int \<times> 'z kernel_scheme) res" where
  "sys_close cur s =
     bindR (argfd cur 0 s) (\<lambda>r.
       case r of
         None \<Rightarrow> Ok (-1, s)
       | Some (fd, f) \<Rightarrow>
           bindR (do_dev (fileclose (me_of cur s) f) (upd_proc cur (\<lambda>x. x\<lparr>p_ofile := (p_ofile x)(fd := None)\<rparr>) s)) (\<lambda>s. Ok (0, s)))"

text \<open>\<^verbatim>\<open>struct stat\<close> in user memory: 20 bytes with the fields at 0, 4, 8, 12 and 16.\<close>

definition put_stat :: "pref \<Rightarrow> stat \<Rightarrow> uint \<Rightarrow> 'z kernel_scheme \<Rightarrow> 'z kernel_scheme res" where
  "put_stat cur st p s =
     bindR (ustore_k cur (bytes_of (st_dev st)) (p + 4) s) (\<lambda>s.
     bindR (ustore_k cur (bytes_of (st_ino st)) (p + 8) s) (\<lambda>s.
     bindR (ustore_k cur (bytes_of16 (st_type st)) p s) (\<lambda>s.
     bindR (ustore_k cur (bytes_of16 (st_nlink st)) (p + 12) s) (\<lambda>s.
       ustore_k cur (bytes_of (st_size st)) (p + 16) s))))"

definition sys_fstat :: "pref \<Rightarrow> 'z kernel_scheme \<Rightarrow> (int \<times> 'z kernel_scheme) res" where
  "sys_fstat cur s =
     bindR (argfd cur 0 s) (\<lambda>r. case r of None \<Rightarrow> Ok (-1, s) | Some (_, f) \<Rightarrow>
     bindR (argptr cur 1 20 s) (\<lambda>r. case r of None \<Rightarrow> Ok (-1, s) | Some p \<Rightarrow>
     bindR (on_dev (\<lambda>x. bindR (filestat (me_of cur s) f x) (\<lambda>(v, st, x). Ok ((v, st), x))) s) (\<lambda>((v, st), s).
     bindR (case st of None \<Rightarrow> Ok s | Some st \<Rightarrow> put_stat cur st p s) (\<lambda>s. Ok (v, s)))))"

section \<open>Links\<close>

definition set_nlink :: "nat \<Rightarrow> (ushort \<Rightarrow> ushort) \<Rightarrow> 'z fsst_scheme \<Rightarrow> 'z fsst_scheme" where
  "set_nlink ip f s = upd_inode ip (\<lambda>x. x\<lparr>d_nlink := f (d_nlink x)\<rparr>) s"

text \<open>The label \<^verbatim>\<open>bad\<close> of \<^verbatim>\<open>sys_link\<close>.\<close>

definition link_bad :: "int \<Rightarrow> nat \<Rightarrow> 'z fsst_scheme \<Rightarrow> (int \<times> 'z fsst_scheme) res" where
  "link_bad me ip s =
     bindR (ilock me ip s) (\<lambda>s.
     bindR (iupdate me ip (set_nlink ip (\<lambda>n. n - 1) s)) (\<lambda>s.
     bindR (iunlockput me ip s) (\<lambda>s.
     bindR (end_op me s) (\<lambda>s. Ok (-1, s)))))"

definition link_path :: "int \<Rightarrow> nat \<Rightarrow> cstr \<Rightarrow> cstr \<Rightarrow> 'z fsst_scheme \<Rightarrow> (int \<times> 'z fsst_scheme) res" where
  "link_path me cwd old new s =
     bindR (begin_op s) (\<lambda>s.
     bindR (namei me cwd old s) (\<lambda>(r, s).
       case r of
         None \<Rightarrow> bindR (end_op me s) (\<lambda>s. Ok (-1, s))
       | Some ip \<Rightarrow>
           bindR (ilock me ip s) (\<lambda>s.
             if d_type (x_inode s ip) = T_DIR
             then bindR (iunlockput me ip s) (\<lambda>s. bindR (end_op me s) (\<lambda>s. Ok (-1, s)))
             else bindR (iupdate me ip (set_nlink ip (\<lambda>n. n + 1) s)) (\<lambda>s.
                  bindR (iunlock me ip s) (\<lambda>s.
                  bindR (nameiparent me cwd new s) (\<lambda>(r, s).
                    case r of
                      None \<Rightarrow> link_bad me ip s
                    | Some (dp, name) \<Rightarrow>
                        bindR (ilock me dp s) (\<lambda>s.
                        bindR (if i_dev (x_inode s dp) \<noteq> i_dev (x_inode s ip) then Ok (-1, s)
                               else dirlink me dp name (i_inum (x_inode s ip)) s) (\<lambda>(v, s).
                        bindR (iunlockput me dp s) (\<lambda>s.
                          if v < 0 then link_bad me ip s
                          else bindR (iput me ip s) (\<lambda>s. bindR (end_op me s) (\<lambda>s. Ok (0, s))))))))))))"

definition cwd_call :: "pref \<Rightarrow> (nat \<Rightarrow> 'z kernel_scheme \<Rightarrow> 'b res) \<Rightarrow> 'z kernel_scheme \<Rightarrow> 'b res" where
  "cwd_call cur f s = (case p_cwd (k_procs s cur) of None \<Rightarrow> Undef ''null pointer'' | Some d \<Rightarrow> f d s)"

definition sys_link :: "pref \<Rightarrow> 'z kernel_scheme \<Rightarrow> (int \<times> 'z kernel_scheme) res" where
  "sys_link cur s =
     bindR (argstr cur 0 s) (\<lambda>r. case r of None \<Rightarrow> Ok (-1, s) | Some old \<Rightarrow>
     bindR (argstr cur 1 s) (\<lambda>r. case r of None \<Rightarrow> Ok (-1, s) | Some new \<Rightarrow>
       cwd_call cur (\<lambda>cwd. on_dev (link_path (me_of cur s) cwd old new)) s))"

fun isdirempty_from :: "int \<Rightarrow> nat \<Rightarrow> uint list \<Rightarrow> 'z fsst_scheme \<Rightarrow> (bool \<times> 'z fsst_scheme) res" where
  "isdirempty_from me dp [] s = Ok (True, s)"
| "isdirempty_from me dp (off # os) s =
     bindR (readi no_dev me dp off 16 s) (\<lambda>(r, bs, s).
       if r \<noteq> 16 then Panic ''isdirempty: readi''
       else if de_inum (get_dirent bs) \<noteq> 0 then Ok (False, s)
       else isdirempty_from me dp os s)"

definition isdirempty :: "int \<Rightarrow> nat \<Rightarrow> 'z fsst_scheme \<Rightarrow> (bool \<times> 'z fsst_scheme) res" where
  "isdirempty me dp s = isdirempty_from me dp (entry_offs 32 (d_size (x_inode s dp))) s"

definition unlink_bad :: "int \<Rightarrow> nat \<Rightarrow> 'z fsst_scheme \<Rightarrow> (int \<times> 'z fsst_scheme) res" where
  "unlink_bad me dp s = bindR (iunlockput me dp s) (\<lambda>s. bindR (end_op me s) (\<lambda>s. Ok (-1, s)))"

text \<open>\<^verbatim>\<open>sys_unlink\<close> once entry \<open>off\<close> of \<open>dp\<close> is known to name \<open>ip\<close> and both are locked.\<close>

definition unlink_entry :: "int \<Rightarrow> nat \<Rightarrow> nat \<Rightarrow> uint \<Rightarrow> 'z fsst_scheme \<Rightarrow> (int \<times> 'z fsst_scheme) res" where
  "unlink_entry me dp ip off s =
     bindR (writei no_dev me dp (replicate 16 0) off 16 s) (\<lambda>(r, s).
       if r \<noteq> 16 then Panic ''unlink: writei''
       else bindR (if d_type (x_inode s ip) = T_DIR then iupdate me dp (set_nlink dp (\<lambda>n. n - 1) s) else Ok s) (\<lambda>s.
            bindR (iunlockput me dp s) (\<lambda>s.
            bindR (iupdate me ip (set_nlink ip (\<lambda>n. n - 1) s)) (\<lambda>s.
            bindR (iunlockput me ip s) (\<lambda>s.
            bindR (end_op me s) (\<lambda>s. Ok (0, s)))))))"

definition unlink_path :: "int \<Rightarrow> nat \<Rightarrow> cstr \<Rightarrow> 'z fsst_scheme \<Rightarrow> (int \<times> 'z fsst_scheme) res" where
  "unlink_path me cwd path s =
     bindR (begin_op s) (\<lambda>s.
     bindR (nameiparent me cwd path s) (\<lambda>(r, s).
       case r of
         None \<Rightarrow> bindR (end_op me s) (\<lambda>s. Ok (-1, s))
       | Some (dp, name) \<Rightarrow>
           bindR (ilock me dp s) (\<lambda>s.
             if namecmp name [46] = 0 \<or> namecmp name [46, 46] = 0 then unlink_bad me dp s
             else bindR (dirlookup me dp name s) (\<lambda>(r, s).
               case r of
                 None \<Rightarrow> unlink_bad me dp s
               | Some (ip, off) \<Rightarrow>
                   bindR (ilock me ip s) (\<lambda>s.
                     if sint (d_nlink (x_inode s ip)) < 1 then Panic ''unlink: nlink < 1''
                     else bindR (if d_type (x_inode s ip) = T_DIR then isdirempty me ip s else Ok (True, s)) (\<lambda>(ok, s).
                       if \<not> ok then bindR (iunlockput me ip s) (unlink_bad me dp)
                       else unlink_entry me dp ip off s))))))"

definition sys_unlink :: "pref \<Rightarrow> 'z kernel_scheme \<Rightarrow> (int \<times> 'z kernel_scheme) res" where
  "sys_unlink cur s =
     bindR (argstr cur 0 s) (\<lambda>r. case r of None \<Rightarrow> Ok (-1, s) | Some path \<Rightarrow>
       cwd_call cur (\<lambda>cwd. on_dev (unlink_path (me_of cur s) cwd path)) s)"

section \<open>Creating and opening\<close>

text \<open>The inode that \<^verbatim>\<open>create\<close> has allocated and locked: fields, the entries of a directory, the link in \<open>dp\<close>.\<close>

definition create_new :: "int \<Rightarrow> nat \<Rightarrow> cstr \<Rightarrow> nat \<Rightarrow> ushort \<Rightarrow> ushort \<Rightarrow> ushort \<Rightarrow> 'z fsst_scheme \<Rightarrow> (nat option \<times> 'z fsst_scheme) res" where
  "create_new me dp name ip ty major minor s =
     bindR (iupdate me ip (upd_inode ip (\<lambda>x. x\<lparr>d_major := major, d_minor := minor, d_nlink := 1\<rparr>) s)) (\<lambda>s.
     bindR (if ty = T_DIR
            then bindR (iupdate me dp (set_nlink dp (\<lambda>n. n + 1) s)) (\<lambda>s.
                 bindR (dirlink me ip [46] (i_inum (x_inode s ip)) s) (\<lambda>(v, s).
                   if v < 0 then Panic ''create dots''
                   else bindR (dirlink me ip [46, 46] (i_inum (x_inode s dp)) s) (\<lambda>(v, s).
                     if v < 0 then Panic ''create dots'' else Ok s)))
            else Ok s) (\<lambda>s.
     bindR (dirlink me dp name (i_inum (x_inode s ip)) s) (\<lambda>(v, s).
       if v < 0 then Panic ''create: dirlink''
       else bindR (iunlockput me dp s) (\<lambda>s. Ok (Some ip, s)))))"

definition create :: "int \<Rightarrow> nat \<Rightarrow> cstr \<Rightarrow> ushort \<Rightarrow> ushort \<Rightarrow> ushort \<Rightarrow> 'z fsst_scheme \<Rightarrow> (nat option \<times> 'z fsst_scheme) res" where
  "create me cwd path ty major minor s =
     bindR (nameiparent me cwd path s) (\<lambda>(r, s).
       case r of
         None \<Rightarrow> Ok (None, s)
       | Some (dp, name) \<Rightarrow>
           bindR (ilock me dp s) (\<lambda>s.
           bindR (dirlookup me dp name s) (\<lambda>(r, s).
             case r of
               Some (ip, _) \<Rightarrow>
                 bindR (iunlockput me dp s) (\<lambda>s.
                 bindR (ilock me ip s) (\<lambda>s.
                   if ty = T_FILE \<and> d_type (x_inode s ip) = T_FILE then Ok (Some ip, s)
                   else bindR (iunlockput me ip s) (\<lambda>s. Ok (None, s))))
             | None \<Rightarrow>
                 bindR (ialloc me (i_dev (x_inode s dp)) ty s) (\<lambda>(ip, s).
                 bindR (ilock me ip s) (create_new me dp name ip ty major minor)))))"

text \<open>\<^verbatim>\<open>sys_open\<close> up to the locked inode; null if the call fails, the operation being ended then.\<close>

definition open_inode :: "int \<Rightarrow> nat \<Rightarrow> cstr \<Rightarrow> int \<Rightarrow> 'z fsst_scheme \<Rightarrow> (nat option \<times> 'z fsst_scheme) res" where
  "open_inode me cwd path omode s =
     bindR (begin_op s) (\<lambda>s.
       if omode AND 0x200 \<noteq> 0
       then bindR (create me cwd path T_FILE 0 0 s) (\<lambda>(r, s).
            case r of
              None \<Rightarrow> bindR (end_op me s) (\<lambda>s. Ok (None, s))
            | Some ip \<Rightarrow> Ok (Some ip, s))
       else bindR (namei me cwd path s) (\<lambda>(r, s).
            case r of
              None \<Rightarrow> bindR (end_op me s) (\<lambda>s. Ok (None, s))
            | Some ip \<Rightarrow>
                bindR (ilock me ip s) (\<lambda>s.
                  if d_type (x_inode s ip) = T_DIR \<and> omode \<noteq> 0
                  then bindR (iunlockput me ip s) (\<lambda>s. bindR (end_op me s) (\<lambda>s. Ok (None, s)))
                  else Ok (Some ip, s))))"

definition open_fail :: "int \<Rightarrow> nat option \<Rightarrow> nat \<Rightarrow> 'z filest_scheme \<Rightarrow> 'z filest_scheme res" where
  "open_fail me f ip s =
     bindR (case f of None \<Rightarrow> Ok s | Some f \<Rightarrow> fileclose me f s) (\<lambda>s.
     bindR (iunlockput me ip s) (end_op me))"

definition sys_open :: "pref \<Rightarrow> 'z kernel_scheme \<Rightarrow> (int \<times> 'z kernel_scheme) res" where
  "sys_open cur s =
     bindR (argstr cur 0 s) (\<lambda>r. case r of None \<Rightarrow> Ok (-1, s) | Some path \<Rightarrow>
     bindR (argint cur 1 s) (\<lambda>r. case r of None \<Rightarrow> Ok (-1, s) | Some om \<Rightarrow>
     let omode = sint om; me = me_of cur s
     in bindR (cwd_call cur (\<lambda>cwd. on_dev (open_inode me cwd path omode)) s) (\<lambda>(r, s).
        case r of
          None \<Rightarrow> Ok (-1, s)
        | Some ip \<Rightarrow>
            bindR (on_dev (\<lambda>x. Ok (filealloc x)) s) (\<lambda>(f, s).
              case f of
                None \<Rightarrow> bindR (do_dev (open_fail me None ip) s) (\<lambda>s. Ok (-1, s))
              | Some f \<Rightarrow>
                  (let (fd, s) = fdalloc cur f s
                   in if fd < 0 then bindR (do_dev (open_fail me (Some f) ip) s) (\<lambda>s. Ok (-1, s))
                      else bindR (do_dev (iunlock me ip) s) (\<lambda>s.
                           bindR (do_dev (end_op me) s) (\<lambda>s.
                           bindR (do_dev (\<lambda>x. Ok (upd_file f (\<lambda>y. y\<lparr>fl_type := FD_INODE, fl_ip := ip, fl_off := 0,
                                    fl_readable := (if omode AND 1 \<noteq> 0 then 0 else 1),
                                    fl_writable := (if omode AND 1 \<noteq> 0 \<or> omode AND 2 \<noteq> 0 then 1 else 0)\<rparr>) x)) s) (\<lambda>s.
                             Ok (fd, s)))))))))"

text \<open>\<^verbatim>\<open>sys_mkdir\<close> and \<^verbatim>\<open>sys_mknod\<close> after their arguments are fetched, inside of the operation they have begun.\<close>

definition make_node :: "int \<Rightarrow> nat \<Rightarrow> cstr \<Rightarrow> ushort \<Rightarrow> ushort \<Rightarrow> ushort \<Rightarrow> 'z fsst_scheme \<Rightarrow> (int \<times> 'z fsst_scheme) res" where
  "make_node me cwd path ty major minor s =
     bindR (create me cwd path ty major minor s) (\<lambda>(r, s).
       case r of
         None \<Rightarrow> bindR (end_op me s) (\<lambda>s. Ok (-1, s))
       | Some ip \<Rightarrow> bindR (iunlockput me ip s) (\<lambda>s. bindR (end_op me s) (\<lambda>s. Ok (0, s))))"

definition op_fail :: "pref \<Rightarrow> 'z kernel_scheme \<Rightarrow> (int \<times> 'z kernel_scheme) res" where
  "op_fail cur s = bindR (do_dev (end_op (me_of cur s)) s) (\<lambda>s. Ok (-1, s))"

definition sys_mkdir :: "pref \<Rightarrow> 'z kernel_scheme \<Rightarrow> (int \<times> 'z kernel_scheme) res" where
  "sys_mkdir cur s =
     bindR (do_dev begin_op s) (\<lambda>s.
     bindR (argstr cur 0 s) (\<lambda>r. case r of None \<Rightarrow> op_fail cur s | Some path \<Rightarrow>
       cwd_call cur (\<lambda>cwd. on_dev (make_node (me_of cur s) cwd path T_DIR 0 0)) s))"

definition sys_mknod :: "pref \<Rightarrow> 'z kernel_scheme \<Rightarrow> (int \<times> 'z kernel_scheme) res" where
  "sys_mknod cur s =
     bindR (do_dev begin_op s) (\<lambda>s.
     bindR (argstr cur 0 s) (\<lambda>r. case r of None \<Rightarrow> op_fail cur s | Some path \<Rightarrow>
     bindR (argint cur 1 s) (\<lambda>r. case r of None \<Rightarrow> op_fail cur s | Some major \<Rightarrow>
     bindR (argint cur 2 s) (\<lambda>r. case r of None \<Rightarrow> op_fail cur s | Some minor \<Rightarrow>
       cwd_call cur (\<lambda>cwd. on_dev (make_node (me_of cur s) cwd path T_DEV (ucast major) (ucast minor))) s))))"

definition chdir_path :: "int \<Rightarrow> nat \<Rightarrow> cstr \<Rightarrow> 'z fsst_scheme \<Rightarrow> (nat option \<times> 'z fsst_scheme) res" where
  "chdir_path me cwd path s =
     bindR (namei me cwd path s) (\<lambda>(r, s).
       case r of
         None \<Rightarrow> bindR (end_op me s) (\<lambda>s. Ok (None, s))
       | Some ip \<Rightarrow>
           bindR (ilock me ip s) (\<lambda>s.
             if d_type (x_inode s ip) \<noteq> T_DIR
             then bindR (iunlockput me ip s) (\<lambda>s. bindR (end_op me s) (\<lambda>s. Ok (None, s)))
             else bindR (iunlock me ip s) (\<lambda>s.
                  bindR (iput me cwd s) (\<lambda>s.
                  bindR (end_op me s) (\<lambda>s. Ok (Some ip, s))))))"

definition sys_chdir :: "pref \<Rightarrow> 'z kernel_scheme \<Rightarrow> (int \<times> 'z kernel_scheme) res" where
  "sys_chdir cur s =
     bindR (do_dev begin_op s) (\<lambda>s.
     bindR (argstr cur 0 s) (\<lambda>r. case r of None \<Rightarrow> op_fail cur s | Some path \<Rightarrow>
     bindR (cwd_call cur (\<lambda>cwd. on_dev (chdir_path (me_of cur s) cwd path)) s) (\<lambda>(r, s).
       case r of None \<Rightarrow> Ok (-1, s) | Some ip \<Rightarrow> Ok (0, upd_proc cur (\<lambda>x. x\<lparr>p_cwd := Some ip\<rparr>) s))))"

definition sys_pipe :: "pref \<Rightarrow> 'z kernel_scheme \<Rightarrow> (int \<times> 'z kernel_scheme) res" where
  "sys_pipe cur s =
     bindR (argptr cur 0 8 s) (\<lambda>r. case r of None \<Rightarrow> Ok (-1, s) | Some p \<Rightarrow>
     let me = me_of cur s
     in bindR (on_dev (pipealloc me) s) (\<lambda>(r, s).
        case r of
          None \<Rightarrow> Ok (-1, s)
        | Some (f0, f1) \<Rightarrow>
            (let (fd0, s) = fdalloc cur f0 s; (fd1, s) = (if fd0 < 0 then (-1, s) else fdalloc cur f1 s)
             in if fd0 < 0 \<or> fd1 < 0
                then let s = (if fd0 \<ge> 0 then upd_proc cur (\<lambda>x. x\<lparr>p_ofile := (p_ofile x)(nat fd0 := None)\<rparr>) s else s)
                     in bindR (do_dev (fileclose me f0) s) (\<lambda>s.
                        bindR (do_dev (fileclose me f1) s) (\<lambda>s. Ok (-1, s)))
                else bindR (ustore_k cur (bytes_of (word_of_int fd0)) p s) (\<lambda>s.
                     bindR (ustore_k cur (bytes_of (word_of_int fd1)) (p + 4) s) (\<lambda>s. Ok (0, s))))))"

end
