(* ===== verification/Exec.thy ===== *)
theory Exec
  imports Sysfile
begin

text \<open>
  Loading a program: exec.c with the structures of elf.h, and \<^verbatim>\<open>sys_exec\<close>, which fetches the argument vector.
\<close>

section \<open>Executable files\<close>

abbreviation (input) ELF_MAGIC :: uint where "ELF_MAGIC \<equiv> 0x464C457F"

record elfhdr =
  e_magic :: uint
  e_entry :: uint
  e_phoff :: uint
  e_phnum :: ushort

record proghdr =
  ph_type :: uint
  ph_off :: uint
  ph_vaddr :: uint
  ph_filesz :: uint
  ph_memsz :: uint

definition get_elfhdr :: "uchar list \<Rightarrow> elfhdr" where
  "get_elfhdr bs = (let v = (\<lambda>i. bs ! i)
     in \<lparr>e_magic = get32 v 0, e_entry = get32 v 24, e_phoff = get32 v 28, e_phnum = get16 v 44\<rparr>)"

definition get_proghdr :: "uchar list \<Rightarrow> proghdr" where
  "get_proghdr bs = (let v = (\<lambda>i. bs ! i)
     in \<lparr>ph_type = get32 v 0, ph_off = get32 v 4, ph_vaddr = get32 v 8, ph_filesz = get32 v 16, ph_memsz = get32 v 20\<rparr>)"

definition print_k :: "string \<Rightarrow> parg list \<Rightarrow> 'z kernel_scheme \<Rightarrow> 'z kernel_scheme res" where
  "print_k fmt args s = do_dev (\<lambda>x. bindR (cprintf (Some (lit fmt)) args (z_cons x)) (\<lambda>c. Ok (x\<lparr>z_cons := c\<rparr>))) s"

text \<open>\<^verbatim>\<open>readi(ip, ..., off, n)\<close> for the running process.\<close>

definition exec_read :: "pref \<Rightarrow> nat \<Rightarrow> uint \<Rightarrow> uint \<Rightarrow> 'z kernel_scheme \<Rightarrow> ((int \<times> uchar list) \<times> 'z kernel_scheme) res" where
  "exec_read cur ip off n s =
     on_dev (\<lambda>x. bindR (readi (devsw_read (me_of cur s) (killed_of cur s)) (me_of cur s) ip off n x) (\<lambda>(r, bs, x). Ok ((r, bs), x))) s"

definition exec_loaduvm :: "pref \<Rightarrow> uint \<Rightarrow> uint \<Rightarrow> nat \<Rightarrow> uint \<Rightarrow> uint \<Rightarrow> 'z kernel_scheme \<Rightarrow> (int \<times> 'z kernel_scheme) res" where
  "exec_loaduvm cur pgdir addr ip off sz s =
     on_dev (\<lambda>x. bindR (loaduvm (\<lambda>o1 n y. readi (devsw_read (me_of cur s) (killed_of cur s)) (me_of cur s) ip o1 n y)
                          pgdir addr off sz x (y_kmem x)) (\<lambda>(r, x, k). Ok (r, x\<lparr>y_kmem := k\<rparr>))) s"

section \<open>exec\<close>

text \<open>The loop over the program headers, \<open>n\<close> of them from offset \<open>off\<close> on; null is a jump to \<^verbatim>\<open>bad\<close>.\<close>

fun exec_load :: "nat \<Rightarrow> pref \<Rightarrow> uint \<Rightarrow> nat \<Rightarrow> uint \<Rightarrow> uint \<Rightarrow> 'z kernel_scheme \<Rightarrow> (uint option \<times> 'z kernel_scheme) res" where
  "exec_load 0 cur pgdir ip off sz s = Ok (Some sz, s)"
| "exec_load (Suc n) cur pgdir ip off sz s =
     bindR (exec_read cur ip off 32 s) (\<lambda>((r, bs), s).
       let ph = get_proghdr bs
       in if r \<noteq> 32 then Ok (None, s)
          else if ph_type ph \<noteq> 1 then exec_load n cur pgdir ip (off + 32) sz s
          else if ph_memsz ph < ph_filesz ph then Ok (None, s)
          else if ph_vaddr ph + ph_memsz ph < ph_vaddr ph then Ok (None, s)
          else bindR (on_mem (allocuvm pgdir sz (ph_vaddr ph + ph_memsz ph)) s) (\<lambda>(sz, s).
               if sz = 0 then Ok (None, s)
               else if ph_vaddr ph mod PGSIZE \<noteq> 0 then Ok (None, s)
               else bindR (exec_loaduvm cur pgdir (ph_vaddr ph) ip (ph_off ph) (ph_filesz ph) s) (\<lambda>(r, s).
                    if r < 0 then Ok (None, s) else exec_load n cur pgdir ip (off + 32) sz s)))"

text \<open>The loop that pushes the argument strings; it returns the stack pointer and the pointers pushed.\<close>

fun exec_args :: "uint \<Rightarrow> cstr list \<Rightarrow> nat \<Rightarrow> uint \<Rightarrow> uint list \<Rightarrow> 'z kernel_scheme \<Rightarrow> ((uint \<times> uint list) option \<times> 'z kernel_scheme) res" where
  "exec_args pgdir [] argc sp ptrs s = Ok (Some (sp, ptrs), s)"
| "exec_args pgdir (arg # argv) argc sp ptrs s =
     (if argc \<ge> MAXARG then Ok (None, s)
      else let sp = (sp - (word_of_int (strlen arg) + 1)) AND NOT 3
           in bindR (on_mem (copyout pgdir sp (arg @ [0])) s) (\<lambda>(r, s).
                if r < 0 then Ok (None, s)
                else exec_args pgdir argv (Suc argc) sp (ptrs @ [sp]) s))"

text \<open>The label \<^verbatim>\<open>bad\<close>.\<close>

definition exec_bad :: "pref \<Rightarrow> uint \<Rightarrow> nat option \<Rightarrow> 'z kernel_scheme \<Rightarrow> (int \<times> 'z kernel_scheme) res" where
  "exec_bad cur pgdir ip s =
     bindR (if pgdir \<noteq> 0 then freevm_k pgdir s else Ok s) (\<lambda>s.
     bindR (case ip of
              None \<Rightarrow> Ok s
            | Some ip \<Rightarrow> do_dev (\<lambda>x. bindR (iunlockput (me_of cur s) ip x) (end_op (me_of cur s))) s) (\<lambda>s.
       Ok (-1, s)))"

fun last_elem :: "cstr \<Rightarrow> cstr \<Rightarrow> cstr" where
  "last_elem l [] = l"
| "last_elem l (c # s) = (if c = 47 then last_elem s s else last_elem l s)"

definition name_of :: "cstr \<Rightarrow> string" where
  "name_of path = map (\<lambda>c. char_of (unat c)) (str_of (safestrcpy (last_elem path path) 16))"

definition exec_commit :: "uchar \<Rightarrow> pref \<Rightarrow> cstr \<Rightarrow> uint \<Rightarrow> uint \<Rightarrow> uint \<Rightarrow> uint \<Rightarrow> 'z kernel_scheme \<Rightarrow> (int \<times> 'z kernel_scheme) res" where
  "exec_commit a cur path pgdir sz eip0 sp s =
     (let oldpgdir = p_pgdir (k_procs s cur);
          s = upd_proc cur (\<lambda>x. x\<lparr>p_name := name_of path, p_pgdir := pgdir, p_sz := sz,
                p_tf := (p_tf x)\<lparr>tf_eip := eip0, tf_esp := sp\<rparr>\<rparr>) s
      in bindR (switchuvm a cur s) (\<lambda>s.
         bindR (freevm_k oldpgdir s) (\<lambda>s. Ok (0, s))))"

text \<open>The user stack: two pages, the arguments, the frame of \<^verbatim>\<open>main\<close>.\<close>

definition exec_stack :: "uchar \<Rightarrow> pref \<Rightarrow> cstr \<Rightarrow> cstr list \<Rightarrow> uint \<Rightarrow> uint \<Rightarrow> uint \<Rightarrow> 'z kernel_scheme \<Rightarrow> (int \<times> 'z kernel_scheme) res" where
  "exec_stack a cur path argv pgdir eip0 sz s =
     (let sz = PGROUNDUP sz
      in bindR (on_mem (allocuvm pgdir sz (sz + 2 * PGSIZE)) s) (\<lambda>(sz, s).
           if sz = 0 then exec_bad cur pgdir None s
           else bindR (do_mem (clearpteu pgdir (sz - 2 * PGSIZE)) s) (\<lambda>s.
                bindR (exec_args pgdir argv 0 sz [] s) (\<lambda>(r, s).
                  case r of
                    None \<Rightarrow> exec_bad cur pgdir None s
                  | Some (sp, ptrs) \<Rightarrow>
                      let argc = of_nat (length ptrs);
                          ustack = [0xffffffff, argc, sp - (argc + 1) * 4] @ ptrs @ [0];
                          sp = sp - (3 + argc + 1) * 4
                      in bindR (on_mem (copyout pgdir sp (concat (map bytes_of ustack))) s) (\<lambda>(r, s).
                           if r < 0 then exec_bad cur pgdir None s
                           else exec_commit a cur path pgdir sz eip0 sp s)))))"

definition exec :: "uchar \<Rightarrow> pref \<Rightarrow> cstr \<Rightarrow> cstr list \<Rightarrow> 'z kernel_scheme \<Rightarrow> (int \<times> 'z kernel_scheme) res" where
  "exec a cur path argv s =
     (let me = me_of cur s
      in bindR (do_dev begin_op s) (\<lambda>s.
         bindR (cwd_call cur (\<lambda>cwd. on_dev (namei me cwd path)) s) (\<lambda>(r, s).
           case r of
             None \<Rightarrow>
               bindR (do_dev (end_op me) s) (\<lambda>s.
               bindR (print_k (''exec: fail'' @ [CHR 0x0A]) [] s) (\<lambda>s. Ok (-1, s)))
           | Some ip \<Rightarrow>
               bindR (do_dev (ilock me ip) s) (\<lambda>s.
               bindR (exec_read cur ip 0 52 s) (\<lambda>((r, bs), s).
                 let elf = get_elfhdr bs
                 in if r \<noteq> 52 \<or> e_magic elf \<noteq> ELF_MAGIC then exec_bad cur 0 (Some ip) s
                    else bindR (on_mem setupkvm s) (\<lambda>(pgdir, s).
                      if pgdir = 0 then exec_bad cur 0 (Some ip) s
                      else bindR (exec_load (unat (e_phnum elf)) cur pgdir ip (e_phoff elf) 0 s) (\<lambda>(r, s).
                        case r of
                          None \<Rightarrow> exec_bad cur pgdir (Some ip) s
                        | Some sz \<Rightarrow>
                            bindR (do_dev (\<lambda>x. bindR (iunlockput me ip x) (end_op me)) s)
                              (exec_stack a cur path argv pgdir (e_entry elf) sz))))))))"

text \<open>The loop of \<^verbatim>\<open>sys_exec\<close> over the user's argument vector, which has room for \<^const>\<open>MAXARG\<close> pointers.\<close>

fun exec_argv :: "nat \<Rightarrow> pref \<Rightarrow> uint \<Rightarrow> 'z kernel_scheme \<Rightarrow> cstr list option res" where
  "exec_argv 0 cur uargv s = Ok None"
| "exec_argv (Suc n) cur uargv s =
     bindR (fetchint cur uargv s) (\<lambda>r.
       case r of
         None \<Rightarrow> Ok None
       | Some uarg \<Rightarrow>
           if uarg = 0 then Ok (Some [])
           else bindR (fetchstr cur uarg s) (\<lambda>r.
                case r of
                  None \<Rightarrow> Ok None
                | Some arg \<Rightarrow> bindR (exec_argv n cur (uargv + 4) s) (\<lambda>r. Ok (map_option (Cons arg) r))))"

definition sys_exec :: "uchar \<Rightarrow> pref \<Rightarrow> 'z kernel_scheme \<Rightarrow> (int \<times> 'z kernel_scheme) res" where
  "sys_exec a cur s =
     bindR (argstr cur 0 s) (\<lambda>r. case r of None \<Rightarrow> Ok (-1, s) | Some path \<Rightarrow>
     bindR (argint cur 1 s) (\<lambda>r. case r of None \<Rightarrow> Ok (-1, s) | Some uargv \<Rightarrow>
     bindR (exec_argv MAXARG cur uargv s) (\<lambda>r.
       case r of None \<Rightarrow> Ok (-1, s) | Some argv \<Rightarrow> exec a cur path argv s)))"

section \<open>Properties\<close>



lemma and_not3 [simp]: "((x :: uint) AND - 4) AND 3 = 0"
  by (simp add: and.assoc)




end
