(* ===== verification/Trap.thy ===== *)
theory Trap
  imports Exec
begin

text \<open>
  System calls of sysproc.c and of the scheduling log, the dispatch of syscall.c, and trap.c. A call that gives up the
  processor (\<^verbatim>\<open>sleep\<close>, \<^verbatim>\<open>wait\<close>, \<^verbatim>\<open>yield\<close>, \<^verbatim>\<open>exit\<close>) ends in \<open>SSwitch\<close>, with the context to continue from in the process. The
  calls of \<^verbatim>\<open>wakeup\<close> that the file system, pipes and the console have recorded are delivered when the call or
  the interrupt handler is done with its devices.
\<close>

datatype sysret = SRet int | SSwitch

definition ret :: "(int \<times> 'z kernel_scheme) res \<Rightarrow> (sysret \<times> 'z kernel_scheme) res" where
  "ret m = bindR m (\<lambda>(v, s). Ok (SRet v, s))"

definition switched :: "'z kernel_scheme res \<Rightarrow> (sysret \<times> 'z kernel_scheme) res" where
  "switched m = bindR m (\<lambda>s. Ok (SSwitch, s))"

section \<open>sysproc.c\<close>

definition sys_fork :: "uchar \<Rightarrow> pref \<Rightarrow> 'z kernel_scheme \<Rightarrow> (sysret \<times> 'z kernel_scheme) res" where
  "sys_fork a cur s = ret (fork a cur s)"

definition sys_exit :: "uchar \<Rightarrow> pref \<Rightarrow> 'z kernel_scheme \<Rightarrow> (sysret \<times> 'z kernel_scheme) res" where
  "sys_exit a cur s = switched (exit_enter a cur s)"

definition sys_wait :: "uchar \<Rightarrow> 'z kernel_scheme \<Rightarrow> (sysret \<times> 'z kernel_scheme) res" where
  "sys_wait a s = bindR (wait_first a s) (\<lambda>(r, s). Ok (case r of None \<Rightarrow> SSwitch | Some v \<Rightarrow> SRet v, s))"

definition sys_kill :: "uchar \<Rightarrow> pref \<Rightarrow> 'z kernel_scheme \<Rightarrow> (sysret \<times> 'z kernel_scheme) res" where
  "sys_kill a cur s =
     bindR (argint cur 0 s) (\<lambda>r. case r of None \<Rightarrow> Ok (SRet (-1), s) | Some pid \<Rightarrow> ret (kill a (sint pid) s))"

definition sys_getpid :: "pref \<Rightarrow> 'z kernel_scheme \<Rightarrow> (sysret \<times> 'z kernel_scheme) res" where
  "sys_getpid cur s = Ok (SRet (me_of cur s), s)"

definition sys_sbrk :: "uchar \<Rightarrow> pref \<Rightarrow> 'z kernel_scheme \<Rightarrow> (sysret \<times> 'z kernel_scheme) res" where
  "sys_sbrk a cur s =
     bindR (argint cur 0 s) (\<lambda>r. case r of None \<Rightarrow> Ok (SRet (-1), s) | Some n \<Rightarrow>
       let addr = sint (p_sz (k_procs s cur))
       in bindR (growproc a cur (sint n) s) (\<lambda>(v, s). Ok (SRet (if v < 0 then -1 else addr), s)))"

text \<open>The loop of \<^verbatim>\<open>sys_sleep\<close> from its test on, \<^verbatim>\<open>tickslock\<close> being held; \<^verbatim>\<open>ticks - ticks0 < n\<close> is a comparison of unsigned numbers.\<close>

definition sleep_round :: "uchar \<Rightarrow> pref \<Rightarrow> uint \<Rightarrow> uint \<Rightarrow> 'z kernel_scheme \<Rightarrow> (sysret \<times> 'z kernel_scheme) res" where
  "sleep_round a cur ticks0 n s =
     (if k_ticks s - ticks0 < n
      then if killed_of cur s
           then bindR (release a TicksLock s) (\<lambda>s. Ok (SRet (-1), s))
           else switched (sleep_enter a CTicks (Some TicksLock) s)
      else bindR (release a TicksLock s) (\<lambda>s. Ok (SRet 0, s)))"

definition sys_sleep :: "uchar \<Rightarrow> pref \<Rightarrow> 'z kernel_scheme \<Rightarrow> (sysret \<times> 'z kernel_scheme) res" where
  "sys_sleep a cur s =
     bindR (argint cur 0 s) (\<lambda>r. case r of None \<Rightarrow> Ok (SRet (-1), s) | Some n \<Rightarrow>
     bindR (acquire a TicksLock s) (\<lambda>s. sleep_round a cur (k_ticks s) n s))"

definition sys_uptime :: "uchar \<Rightarrow> 'z kernel_scheme \<Rightarrow> (sysret \<times> 'z kernel_scheme) res" where
  "sys_uptime a s =
     bindR (acquire a TicksLock s) (\<lambda>s.
       let xticks = k_ticks s in bindR (release a TicksLock s) (\<lambda>s. Ok (SRet (sint xticks), s)))"

section \<open>The calls added for the scheduling experiments\<close>

definition sys_bufwrite :: "uchar \<Rightarrow> 'z kernel_scheme \<Rightarrow> (sysret \<times> 'z kernel_scheme) res" where
  "sys_bufwrite a s = switched (yield_enter a s)"

text \<open>\<^verbatim>\<open>sys_waitfork\<close> to its return or its first \<^verbatim>\<open>yield\<close>.\<close>

definition sys_waitfork :: "uchar \<Rightarrow> pref \<Rightarrow> 'z kernel_scheme \<Rightarrow> (sysret \<times> 'z kernel_scheme) res" where
  "sys_waitfork a cur s =
     (let s = (if me_of cur s = 3 + 32 then s\<lparr>k_finished_fork := 1\<rparr> else s)
      in if k_finished_fork s = 0 then switched (yield_enter a s) else Ok (SRet 0, s))"

fun event_num :: "events \<Rightarrow> uint" where
  "event_num ALLOCPROC = 0" | "event_num WAKEUP = 1" | "event_num YIELD = 2" | "event_num FORK = 3" | "event_num TICK = 4"
| "event_num EXIT = 5" | "event_num WAIT = 6" | "event_num SLEEP = 7" | "event_num PTABLE_LOCK = 8" | "event_num RUNQUEUE_LOCK = 9"

fun state_num :: "procstate \<Rightarrow> uint" where
  "state_num UNUSED = 0" | "state_num EMBRYO = 1" | "state_num SLEEPING = 2" | "state_num RUNNABLE = 3" | "state_num RUNNING = 4"
| "state_num ZOMBIE = 5" | "state_num ACQUIRED = 6" | "state_num RELEASED = 7"

definition hexa :: "uint \<Rightarrow> parg" where
  "hexa n = PStr (Some (str_of (lit (convert_to_hexa n (replicate 9 (CHR 0x00))))))"

text \<open>The two halves of a time stamp, each with its own call of \<^verbatim>\<open>cprintf\<close>, the second with what follows it.\<close>

definition print_clock :: "clock \<Rightarrow> string \<Rightarrow> 'z kernel_scheme \<Rightarrow> 'z kernel_scheme res" where
  "print_clock ck rest s =
     bindR (print_k ''%s'' [hexa (ck_hi ck)] s) (print_k (''%s'' @ rest) [hexa (ck_lo ck)])"

fun print_events :: "nat list \<Rightarrow> 'z kernel_scheme \<Rightarrow> 'z kernel_scheme res" where
  "print_events [] s = Ok s"
| "print_events (i # is) s =
     (let e = k_buf_log s i
      in bindR (print_clock (sl_clock e) '','' s) (\<lambda>s.
         bindR (print_k (''%d,%s,%d,%d,%d,%d'' @ [CHR 0x0A])
           [PInt (word_of_int (sl_pid e)), PStr (Some (lit (sl_name e))), PInt (event_num (sl_event_name e)),
            PInt (state_num (sl_prev_pstate e)), PInt (state_num (sl_next_pstate e)), PInt (of_nat (sl_cpu e))] s)
         (print_events is)))"

fun print_clocks :: "nat list \<Rightarrow> 'z kernel_scheme \<Rightarrow> 'z kernel_scheme res" where
  "print_clocks [] s = Ok s"
| "print_clocks (i # is) s =
     bindR (print_k ''%d,'' [PInt (of_nat i)] s) (\<lambda>s.
     bindR (print_clock (k_clock_log s i 0) '','' s) (\<lambda>s.
     bindR (print_clock (k_clock_log s i 1) '','' s) (\<lambda>s.
     bindR (print_clock (k_clock_log s i 2) [CHR 0x0A] s) (print_clocks is))))"

definition sys_bufread :: "'z kernel_scheme \<Rightarrow> (sysret \<times> 'z kernel_scheme) res" where
  "sys_bufread s =
     bindR (print_k (''clock,pid,pname,event_name,pstate_prev,pstate_next,cpu'' @ [CHR 0x0A]) [] s) (\<lambda>s.
     bindR (print_events [0..<BUFSIZE] s) (\<lambda>s.
     bindR (print_k [CHR 0x0A] [] s) (\<lambda>s.
     bindR (print_k (''pid,fork,run,exit'' @ [CHR 0x0A]) [] s) (\<lambda>s.
     bindR (print_clocks [0..<64] s) (\<lambda>s.
     bindR (print_k (CHR 0x0A # ''start clock : '') [] s) (\<lambda>s.
     bindR (print_clock (sl_clock (k_buf_log s 1)) [CHR 0x0A] s) (\<lambda>s.
     bindR (print_k ''end   clock : '' [] s) (\<lambda>s.
     bindR (print_clock (k_end_clock s) [CHR 0x0A] s) (\<lambda>s.
     bindR (print_k [CHR 0x0A] [hexa (ck_lo (k_end_clock s))] s) (\<lambda>s. Ok (SRet 0, s)))))))))))"

section \<open>Dispatch\<close>

fun run_wakes :: "uchar \<Rightarrow> chan list \<Rightarrow> 'z kernel_scheme \<Rightarrow> 'z kernel_scheme res" where
  "run_wakes a [] s = Ok s"
| "run_wakes a (c # cs) s = bindR (wakeup a c s) (run_wakes a cs)"

definition dev_wakes :: "uchar \<Rightarrow> 'z kernel_scheme \<Rightarrow> 'z kernel_scheme res" where
  "dev_wakes a s = run_wakes a (f_wakes (k_dev s)) (s\<lparr>k_dev := (k_dev s)\<lparr>f_wakes := []\<rparr>\<rparr>)"

text \<open>The table \<^verbatim>\<open>syscalls\<close>, by the numbers of syscall.h.\<close>

definition syscalls :: "int \<Rightarrow> (uchar \<Rightarrow> pref \<Rightarrow> 'z kernel_scheme \<Rightarrow> (sysret \<times> 'z kernel_scheme) res) option" where
  "syscalls num =
     (if num = 1 then Some sys_fork else if num = 2 then Some sys_exit else if num = 3 then Some (\<lambda>a cur. sys_wait a)
      else if num = 4 then Some (\<lambda>a cur s. ret (sys_pipe cur s)) else if num = 5 then Some (\<lambda>a cur s. ret (sys_read cur s))
      else if num = 6 then Some sys_kill else if num = 7 then Some (\<lambda>a cur s. ret (sys_exec a cur s))
      else if num = 8 then Some (\<lambda>a cur s. ret (sys_fstat cur s)) else if num = 9 then Some (\<lambda>a cur s. ret (sys_chdir cur s))
      else if num = 10 then Some (\<lambda>a cur s. ret (sys_dup cur s)) else if num = 11 then Some (\<lambda>a. sys_getpid)
      else if num = 12 then Some sys_sbrk else if num = 13 then Some sys_sleep else if num = 14 then Some (\<lambda>a cur. sys_uptime a)
      else if num = 15 then Some (\<lambda>a cur s. ret (sys_open cur s)) else if num = 16 then Some (\<lambda>a cur s. ret (sys_write cur s))
      else if num = 17 then Some (\<lambda>a cur s. ret (sys_mknod cur s)) else if num = 18 then Some (\<lambda>a cur s. ret (sys_unlink cur s))
      else if num = 19 then Some (\<lambda>a cur s. ret (sys_link cur s)) else if num = 20 then Some (\<lambda>a cur s. ret (sys_mkdir cur s))
      else if num = 21 then Some (\<lambda>a cur s. ret (sys_close cur s)) else if num = 22 then Some (\<lambda>a cur. sys_bufwrite a)
      else if num = 23 then Some (\<lambda>a cur. sys_bufread) else if num = 24 then Some sys_waitfork else None)"

definition set_eax :: "pref \<Rightarrow> int \<Rightarrow> 'z kernel_scheme \<Rightarrow> 'z kernel_scheme" where
  "set_eax cur v s = upd_proc cur (\<lambda>x. x\<lparr>p_tf := (p_tf x)\<lparr>tf_eax := word_of_int v\<rparr>\<rparr>) s"

definition syscall :: "uchar \<Rightarrow> pref \<Rightarrow> 'z kernel_scheme \<Rightarrow> (sysret \<times> 'z kernel_scheme) res" where
  "syscall a cur s =
     (let num = sint (tf_eax (p_tf (k_procs s cur)))
      in case (if num > 0 \<and> num < 25 then syscalls num else None) of
           Some f \<Rightarrow>
             bindR (f a cur s) (\<lambda>(r, s).
             bindR (dev_wakes a s) (\<lambda>s.
               Ok (r, case r of SRet v \<Rightarrow> set_eax cur v s | SSwitch \<Rightarrow> s)))
         | None \<Rightarrow>
             bindR (print_k (''%d %s: unknown sys call %d'' @ [CHR 0x0A])
               [PInt (word_of_int (me_of cur s)), PStr (Some (lit (p_name (k_procs s cur)))), PInt (word_of_int num)] s) (\<lambda>s.
               Ok (SRet (-1), set_eax cur (-1) s)))"

section \<open>trap.c\<close>

text \<open>What an interrupt handler finds in its device: scan codes, bytes from the serial port.\<close>

definition kbd_interrupt :: "uchar list \<Rightarrow> 'z kernel_scheme \<Rightarrow> (bool \<times> 'z kernel_scheme) res" where
  "kbd_interrupt ds s =
     on_dev (\<lambda>x. bindR (kbdintr ds (z_shift x) (z_cons x)) (\<lambda>((d, w, c), sh).
       Ok (d, wakes w (x\<lparr>z_cons := c, z_shift := sh\<rparr>)))) s"

definition uart_interrupt :: "uchar list \<Rightarrow> 'z kernel_scheme \<Rightarrow> (bool \<times> 'z kernel_scheme) res" where
  "uart_interrupt ds s =
     on_dev (\<lambda>x. bindR (uartintr ds (z_cons x)) (\<lambda>(d, w, c). Ok (d, wakes w (x\<lparr>z_cons := c\<rparr>)))) s"

fun state_name :: "procstate \<Rightarrow> string" where
  "state_name UNUSED = ''unused''" | "state_name EMBRYO = ''embryo''" | "state_name SLEEPING = ''sleep ''"
| "state_name RUNNABLE = ''runble''" | "state_name RUNNING = ''run   ''" | "state_name ZOMBIE = ''zombie''"
| "state_name ACQUIRED = ''???''" | "state_name RELEASED = ''???''"

fun print_pc :: "uint list \<Rightarrow> 'z kernel_scheme \<Rightarrow> 'z kernel_scheme res" where
  "print_pc [] s = Ok s"
| "print_pc (pc # pcs) s = (if pc = 0 then Ok s else bindR (print_k '' %p'' [PInt pc] s) (print_pc pcs))"

text \<open>\<open>pcs i\<close> is what \<^verbatim>\<open>getcallerpcs\<close> finds on the stack of a sleeping process.\<close>

fun procdump_from :: "(nat \<Rightarrow> uint list) \<Rightarrow> nat list \<Rightarrow> 'z kernel_scheme \<Rightarrow> 'z kernel_scheme res" where
  "procdump_from pcs [] s = Ok s"
| "procdump_from pcs (i # is) s =
     (let p = k_procs s (PProc i)
      in if p_state p = UNUSED then procdump_from pcs is s
         else bindR (print_k ''%d %s %s'' [PInt (word_of_int (p_pid p)), PStr (Some (lit (state_name (p_state p)))),
                       PStr (Some (lit (p_name p)))] s) (\<lambda>s.
              bindR (if p_state p = SLEEPING then print_pc (pcs i) s else Ok s) (\<lambda>s.
              bindR (print_k [CHR 0x0A] [] s) (procdump_from pcs is))))"

definition procdump :: "(nat \<Rightarrow> uint list) \<Rightarrow> 'z kernel_scheme \<Rightarrow> 'z kernel_scheme res" where
  "procdump pcs s = procdump_from pcs [0..<NPROC] s"

definition timer_tick :: "uchar \<Rightarrow> 'z kernel_scheme \<Rightarrow> 'z kernel_scheme res" where
  "timer_tick a s =
     bindR (cpuid a s) (\<lambda>c.
       if c = 0
       then bindR (acquire a TicksLock s) (\<lambda>s.
            bindR (wakeup a CTicks (s\<lparr>k_ticks := k_ticks s + 1\<rparr>)) (release a TicksLock))
       else Ok s)"

text \<open>The \<^verbatim>\<open>switch\<close> of \<^verbatim>\<open>trap\<close>: \<open>ds\<close> is the input waiting in keyboard or serial port, \<open>cr2\<close> the faulting address. The end-of-interrupt
  command of the interrupt controller leaves no trace in the state.\<close>

definition trap_switch :: "uchar \<Rightarrow> pref \<Rightarrow> uchar list \<Rightarrow> (nat \<Rightarrow> uint list) \<Rightarrow> uint \<Rightarrow> trapframe \<Rightarrow> 'z kernel_scheme \<Rightarrow> 'z kernel_scheme res" where
  "trap_switch a cur ds pcs cr2 tf s =
     (let no = tf_trapno tf
      in if no = 32 then timer_tick a s
         else if no = 32 + 14 then bindR (do_dev ideintr s) (dev_wakes a)
         else if no = 32 + 14 + 1 then Ok s
         else if no = 32 + 1
         then bindR (kbd_interrupt ds s) (\<lambda>(d, s). bindR (dev_wakes a s) (\<lambda>s. if d then procdump pcs s else Ok s))
         else if no = 32 + 4
         then bindR (uart_interrupt ds s) (\<lambda>(d, s). bindR (dev_wakes a s) (\<lambda>s. if d then procdump pcs s else Ok s))
         else if no = 32 + 7 \<or> no = 32 + 31
         then bindR (cpuid a s) (\<lambda>c.
              print_k (''cpu%d: spurious interrupt at %x:%x'' @ [CHR 0x0A]) [PInt (of_nat c), PInt (ucast (tf_cs tf)), PInt (tf_eip tf)] s)
         else if cur = PNull then Panic ''trap : no proc''
         else bindR (cpuid a s) (\<lambda>c.
              if tf_cs tf AND 3 = 0
              then bindR (print_k (''unexpected trap %d from cpu %d eip %x (cr2=0x%x)'' @ [CHR 0x0A])
                            [PInt no, PInt (of_nat c), PInt (tf_eip tf), PInt cr2] s) (\<lambda>_. Panic ''trap'')
              else bindR (print_k (''pid %d %s: trap %d err %d on cpu %d eip 0x%x addr 0x%x--kill proc'' @ [CHR 0x0A])
                            [PInt (word_of_int (me_of cur s)), PStr (Some (lit (p_name (k_procs s cur)))), PInt no, PInt (tf_err tf),
                             PInt (of_nat c), PInt (tf_eip tf), PInt cr2] s) (\<lambda>s.
                   Ok (upd_proc cur (\<lambda>x. x\<lparr>p_killed := 1\<rparr>) s))))"

text \<open>\<^verbatim>\<open>exit()\<close> for a killed process in user space; \<^verbatim>\<open>trap\<close> makes the test before and after it yields.\<close>

definition trap_exit :: "uchar \<Rightarrow> pref \<Rightarrow> trapframe \<Rightarrow> 'z kernel_scheme \<Rightarrow> (bool \<times> 'z kernel_scheme) res" where
  "trap_exit a cur tf s =
     (if cur \<noteq> PNull \<and> killed_of cur s \<and> tf_cs tf AND 3 = 3
      then bindR (exit_enter a cur s) (\<lambda>s. Ok (True, s)) else Ok (False, s))"

text \<open>\<^verbatim>\<open>trap\<close> to its return (\<open>SRet 0\<close>) or to the first switch.\<close>

definition trap :: "uchar \<Rightarrow> pref \<Rightarrow> uchar list \<Rightarrow> (nat \<Rightarrow> uint list) \<Rightarrow> uint \<Rightarrow> trapframe \<Rightarrow> 'z kernel_scheme \<Rightarrow> (sysret \<times> 'z kernel_scheme) res" where
  "trap a cur ds pcs cr2 tf s =
     (if tf_trapno tf = 64
      then if killed_of cur s then sys_exit a cur s
           else bindR (syscall a cur (upd_proc cur (\<lambda>x. x\<lparr>p_tf := tf\<rparr>) s)) (\<lambda>(r, s).
                case r of
                  SSwitch \<Rightarrow> Ok (SSwitch, s)
                | SRet v \<Rightarrow> if killed_of cur s then sys_exit a cur s else Ok (SRet 0, s))
      else bindR (trap_switch a cur ds pcs cr2 tf s) (\<lambda>s.
           bindR (trap_exit a cur tf s) (\<lambda>(gone, s).
             if gone then Ok (SSwitch, s)
             else if cur \<noteq> PNull \<and> p_state (k_procs s cur) = RUNNING \<and> tf_trapno tf = 32 then switched (yield_enter a s)
             else bindR (trap_exit a cur tf s) (\<lambda>(gone, s). Ok (if gone then SSwitch else SRet 0, s)))))"

section \<open>Properties\<close>





end
