(* ===== verification/Spec2Isabelle.thy ===== *)
theory Spec2Isabelle
  imports SchedInv PageMap FileIo Console Trap
begin

text \<open>
  \<^bold>\<open>The program.\<close> A teaching kernel for x86 multiprocessors derived from xv6, extended by run queues per processor,
  work stealing and a log of scheduling events. Its sources are in \<^verbatim>\<open>src/src\<close>. Processors take processes off
  their run queues (\<^verbatim>\<open>proc.c\<close>), run them in address spaces made of pages (\<^verbatim>\<open>kalloc.c\<close>, \<^verbatim>\<open>vm.c\<close>), and
  enter the kernel by traps (\<^verbatim>\<open>trap.c\<close>), which dispatch interrupts to the drivers (\<^verbatim>\<open>ide.c\<close>, \<^verbatim>\<open>console.c\<close>,
  \<^verbatim>\<open>kbd.c\<close>, \<^verbatim>\<open>uart.c\<close>) and system calls (\<^verbatim>\<open>syscall.c\<close>, \<^verbatim>\<open>sysproc.c\<close>, \<^verbatim>\<open>sysfile.c\<close>, \<^verbatim>\<open>exec.c\<close>) to
  the scheduler and to the file system: open files and pipes (\<^verbatim>\<open>file.c\<close>, \<^verbatim>\<open>pipe.c\<close>), inodes, directories and
  paths (\<^verbatim>\<open>fs.c\<close>), a redo log (\<^verbatim>\<open>log.c\<close>), a buffer cache (\<^verbatim>\<open>bio.c\<close>) and the disk.

  \<^bold>\<open>Conventions.\<close> C functions keep their names. Unsigned integers are words of their width, so they wrap; \<^verbatim>\<open>int\<close>
  is \<^typ>\<open>int\<close> where no overflow can occur and a word where one can. A fallible operation has a result of type
  \<open>'a res\<close> of theory \<open>Prelude\<close>: \<open>Ok\<close>; \<open>Panic\<close> with the message the kernel panics with; \<open>Wait\<close>, where the
  code spins on a lock or sleeps; \<open>Undef\<close> for what C leaves undefined, such as a null pointer that is followed or an index
  out of range; and \<open>Diverge\<close>, which is a loop that has used up its fuel. State is passed explicitly. It
  is a chain of records, each extending the one before: \<open>machine\<close> (processors and spin locks), \<open>sched_state\<close>
  (processes, run queues, log of events), \<open>kernel\<close>; and, inside the latter, \<open>bio\<close>, \<open>logst\<close>, \<open>fsst\<close>,
  \<open>filest\<close>, \<open>devst\<close> (cache and disk, log, inodes, open files and memory, console). An operation is polymorphic in
  the extension of the record it works on, so that the same definition serves its component alone and the kernel as a whole.

  \<^bold>\<open>Concurrency.\<close> The scheduler is modelled at the grain at which it interleaves: each processor has a location
  and every step between two switches of context is one transition (theory \<open>SchedInv\<close>, relation
  \<open>sys_step\<close>); a routine that switches is split there, into \<open>_enter\<close> and \<open>_return\<close>. Spin locks are taken
  and released as the code does it, with the interrupt nesting of \<^verbatim>\<open>pushcli\<close> and \<^verbatim>\<open>popcli\<close>. In the file system,
  a section under a spin lock is one step, a sleep is the result \<open>Wait\<close>, and the wakeups a routine issues
  are collected and run by the trap handler; \<open>me\<close> is the process id of the caller and \<open>cur\<close> its process.

  \<^bold>\<open>Theories.\<close>

  \<^item> \<open>Prelude\<close>, \<open>Param\<close>: results and their rules (\<open>ok_iff\<close>), lemmas on lists, words and rings; the constants of
    \<^verbatim>\<open>param.h\<close>, \<^verbatim>\<open>fs.h\<close>, \<^verbatim>\<open>memlayout.h\<close>, \<^verbatim>\<open>mmu.h\<close>.
  \<^item> \<open>Spinlock\<close>: \<^verbatim>\<open>spinlock.c\<close>, \<^verbatim>\<open>mycpu\<close>, \<^verbatim>\<open>cpuid\<close>. Mutual exclusion over all interleavings of
    acquire and release; nesting of interrupt disabling.
  \<^item> \<open>ProcState\<close>, \<open>Fifo\<close>, \<open>Runqueue\<close>: \<^verbatim>\<open>struct proc\<close> and the doubly linked run queues. The locale \<open>fifo\<close> is the contract
    of a queue; it is interpreted on the run queues and, in \<open>Pipe\<close>, on the ring buffer of a pipe. The
    queues refine lists; \<^verbatim>\<open>work_steal\<close> moves one process from the longest queue to the caller's.
  \<^item> \<open>SchedLog\<close>: \<^verbatim>\<open>writelog\<close> and its clock, \<^verbatim>\<open>convert_to_hexa\<close>.
  \<^item> \<open>Sched\<close>, \<open>SchedView\<close>, \<open>SchedInv\<close>: scheduler, sched, yield, sleep, wakeup, kill, and the parts of fork, exit and
    wait that touch the process table; an abstract view of them, and the invariant of the whole
    system. The locale \<open>page_release\<close> is what the scheduler needs of the memory allocator; \<open>Kernel\<close> interprets it.
  \<^item> \<open>Mem\<close>, \<open>Kalloc\<close>, \<open>Vm\<close>, \<open>PageMap\<close>: \<^verbatim>\<open>string.c\<close> on memory, the page allocator, the page tables, and
    the mapping they stand for.
  \<^item> \<open>CString\<close>: the string routines of kernel and user library.
  \<^item> \<open>Ide\<close>, \<open>Store\<close>, \<open>Bio\<close>: the disk driver with its queue, and the memory disk; the cache. The locale
    \<open>block_store\<close> is the contract of a store of blocks, interpreted on the cache.
  \<^item> \<open>Bytes\<close>, \<open>Log\<close>, \<open>Crash\<close>, \<open>Txn\<close>: the log, the sequence of disk writes that it issues, and atomicity of
    transactions across crashes at any of those writes.
  \<^item> \<open>Fs\<close>, \<open>Pipe\<close>, \<open>File\<close>: \<^verbatim>\<open>fs.c\<close>, \<^verbatim>\<open>pipe.c\<close>, \<^verbatim>\<open>file.c\<close>.
  \<^item> \<open>FsBlock\<close>, \<open>FsMap\<close>, \<open>FsFile\<close>, \<open>FileIo\<close>: what the file system stores. Bitmap allocation; the map from the blocks of a
    file to blocks of the disk, through the indirect block; a file as an array of bytes that \<^verbatim>\<open>readi\<close> and \<^verbatim>\<open>writei\<close>
    refine; and \<^verbatim>\<open>filewrite\<close>, which splits a write into transactions and leaves its bytes on the disk.
  \<^item> \<open>Console\<close>: \<^verbatim>\<open>console.c\<close>, \<^verbatim>\<open>uart.c\<close>, \<^verbatim>\<open>kbd.c\<close>: printing, line editing, key maps.
  \<^item> \<open>Kernel\<close>: the state of the kernel; allocproc, userinit, growproc, fork, exit and wait in full.
  \<^item> \<open>Syscall\<close>, \<open>Sysfile\<close>, \<open>Exec\<close>, \<open>Trap\<close>: system call arguments through the page table of the process,
    the file system calls, exec, the process system calls, the dispatcher and \<^verbatim>\<open>trap\<close>.

  \<^bold>\<open>Fuel.\<close> Loops with a bound of their own recurse over the list of their indices. Fuel is used where C counts in words:
    \<^verbatim>\<open>mappages\<close> has \<open>2 ^ 20\<close> rounds, one for each page of the address space, and \<^verbatim>\<open>deallocuvm\<close>, \<^verbatim>\<open>freerange\<close> and the loops like
    them one more for the test that ends them; \<^verbatim>\<open>readi\<close>, \<^verbatim>\<open>writei\<close> and \<^verbatim>\<open>filewrite\<close> have one for each byte to transfer,
    and every round transfers at least one; the scan of \<^verbatim>\<open>enqueue\<close> has one for each process and one for the head;
    the line editor one for each character of its buffer and one more; a sleep in \<^verbatim>\<open>iderw\<close> one for each request in the queue. The
    properties of \<^verbatim>\<open>mappages\<close>, \<^verbatim>\<open>freerange\<close>, \<^verbatim>\<open>readi\<close>, \<^verbatim>\<open>writei\<close>, \<^verbatim>\<open>filewrite\<close>, \<^verbatim>\<open>enqueue\<close>, \<^verbatim>\<open>iderw\<close> and the line editor
    state that they return. \<^verbatim>\<open>namex\<close>, \<^verbatim>\<open>copyout\<close>, \<^verbatim>\<open>strcmp\<close> and \<^verbatim>\<open>convert_to_hexa\<close> are recursive functions
    with termination proofs.

  \<^bold>\<open>Not modelled.\<close> Boot code and the assembly files (the context switch \<^verbatim>\<open>swtch.S\<close> and \<^verbatim>\<open>trapasm.S\<close> appear
  as the boundary between two steps; \<^verbatim>\<open>vectors.S\<close> is generated); initialisation of the interrupt controllers and
  the detection of processors (\<^verbatim>\<open>lapic.c\<close>, \<^verbatim>\<open>ioapic.c\<close>, \<^verbatim>\<open>picirq.c\<close>, \<^verbatim>\<open>mp.c\<close>), which only program devices
  and read firmware tables; \<^verbatim>\<open>main.c\<close>, which calls the
  initialisers in order; the user programs and the test programs, and \<^verbatim>\<open>mkfs.c\<close>, which runs on the host.
\<close>

end
